(* ===== verification/Prelude.thy ===== *)
theory Prelude
  imports Complex_Main "HOL-Library.Word"
begin

section \<open>Types and lemmas shared by the components\<close>

text \<open>
  The C++ integer types are words of their width, a buffer, a \<open>std::string\<close> and a
  \<open>Slice\<close> are lists of bytes. A pointer into a buffer together with its limit is the
  list of the bytes from the pointer to the limit. A read that would leave the buffer has no
  value: functions that read without a bounds check of their own return an option, and
  \<open>None\<close> is the read past the end.
\<close>

unbundle bit_operations_syntax

type_synonym byte = "8 word"
type_synonym bytes = "byte list"
type_synonym u32 = "32 word"
type_synonym u64 = "64 word"

named_theorems size_simps \<open>lengths of encodings\<close>
named_theorems codec_simps \<open>decoding what was encoded\<close>

definition bytes_of_string :: "string \<Rightarrow> bytes" where
  "bytes_of_string s = map of_char s"

subsection \<open>Lists\<close>

lemma take_append_length [simp]: "take (length xs) (xs @ ys) = xs"
  by simp

lemma drop_append_length [simp]: "drop (length xs) (xs @ ys) = ys"
  by simp

lemma nth_snoc_last: "(xs @ [x]) ! length xs = x"
  by simp

lemma sorted_wrt_snoc:
  "sorted_wrt P (xs @ [x]) \<longleftrightarrow> sorted_wrt P xs \<and> (\<forall>y \<in> set xs. P y x)"
  by (auto simp: sorted_wrt_append)

lemma sorted_wrt_nth_mono:
  assumes "sorted_wrt P xs" and "i < j" and "j < length xs"
  shows "P (xs ! i) (xs ! j)"
  using assms by (rule sorted_wrt_nth_less)

subsection \<open>Words\<close>

declare of_int_uint [simp del]

lemma ucast_and_127:
  "(ucast (w :: byte) :: 'a::len word) AND 127 = ucast (w AND 127)" if "8 \<le> LENGTH('a)"
  using that by (simp add: unsigned_and_eq)

lemma word_bit_ge_size: "\<not> bit (w :: 'a::len word) n" if "LENGTH('a) \<le> n"
  using that by (simp add: bit_word.rep_eq)

lemma unat_lt_2p64: "unat (w :: u64) < 18446744073709551616"
  using unsigned_less [of w, where 'a = nat] by simp

lemma unat_lt_2p32: "unat (w :: u32) < 4294967296"
  using unsigned_less [of w, where 'a = nat] by simp

lemma unat_of_nat_u32: "n < 2 ^ 32 \<Longrightarrow> unat (of_nat n :: u32) = n"
  by (simp add: unat_of_nat take_bit_nat_eq_self)

lemma unat_of_nat_u64: "n < 2 ^ 64 \<Longrightarrow> unat (of_nat n :: u64) = n"
  by (simp add: unat_of_nat take_bit_nat_eq_self)

end
