(* ===== verification/Arena.thy ===== *)
theory Arena
  imports Prelude
begin

section \<open>The arena (util/arena.h, util/arena.cc)\<close>

text \<open>
  Addresses and sizes are naturals; the sum of a size and the padding wraps at 64 bits. Memory blocks come from
  \<open>new char[n]\<close>, the parameter \<open>new_block\<close>: it sees the blocks that are in use and the size, and returns an address.
  What the arena relies on is \<open>fresh_blocks\<close>: a new block does not overlap a block in use and is aligned for a
  pointer. A failed assertion is \<open>None\<close>.
\<close>

type_synonym region = "nat \<times> nat"

record Arena =
  alloc_ptr :: nat
  alloc_bytes_remaining :: nat
  blocks :: "region list"
  memory_usage :: nat

definition kArenaBlockSize :: nat where "kArenaBlockSize = 4096"

definition Arena_new :: Arena where
  "Arena_new = \<lparr>alloc_ptr = 0, alloc_bytes_remaining = 0, blocks = [], memory_usage = 0\<rparr>"

definition AllocateNewBlock :: "(region list \<Rightarrow> nat \<Rightarrow> nat) \<Rightarrow> nat \<Rightarrow> Arena \<Rightarrow> nat \<times> Arena" where
  "AllocateNewBlock new_block block_bytes this =
     (let result = new_block (blocks this) block_bytes
      in (result, this\<lparr>blocks := blocks this @ [(result, block_bytes)], memory_usage := memory_usage this + (block_bytes + 8)\<rparr>))"

definition AllocateFallback :: "(region list \<Rightarrow> nat \<Rightarrow> nat) \<Rightarrow> nat \<Rightarrow> Arena \<Rightarrow> nat \<times> Arena" where
  "AllocateFallback new_block bytes this =
     (if kArenaBlockSize div 4 < bytes then AllocateNewBlock new_block bytes this
      else let (p, this) = AllocateNewBlock new_block kArenaBlockSize this;
               this = this\<lparr>alloc_ptr := p, alloc_bytes_remaining := kArenaBlockSize\<rparr>;
               result = alloc_ptr this
           in (result, this\<lparr>alloc_ptr := alloc_ptr this + bytes, alloc_bytes_remaining := alloc_bytes_remaining this - bytes\<rparr>))"

definition Allocate :: "(region list \<Rightarrow> nat \<Rightarrow> nat) \<Rightarrow> nat \<Rightarrow> Arena \<Rightarrow> (nat \<times> Arena) option" where
  "Allocate new_block bytes this =
     (if bytes = 0 then None
      else if bytes \<le> alloc_bytes_remaining this
      then Some (alloc_ptr this,
        this\<lparr>alloc_ptr := alloc_ptr this + bytes, alloc_bytes_remaining := alloc_bytes_remaining this - bytes\<rparr>)
      else Some (AllocateFallback new_block bytes this))"

definition AllocateAligned :: "(region list \<Rightarrow> nat \<Rightarrow> nat) \<Rightarrow> nat \<Rightarrow> Arena \<Rightarrow> (nat \<times> Arena) option" where
  "AllocateAligned new_block bytes this =
     (let align = 8;
          current_mod = alloc_ptr this mod align;
          slop = (if current_mod = 0 then 0 else align - current_mod);
          needed = (bytes + slop) mod 2 ^ 64;
          (result, this') =
            (if needed \<le> alloc_bytes_remaining this
             then (alloc_ptr this + slop,
               this\<lparr>alloc_ptr := alloc_ptr this + needed, alloc_bytes_remaining := alloc_bytes_remaining this - needed\<rparr>)
             else AllocateFallback new_block bytes this)
      in if result mod align = 0 then Some (result, this') else None)"

definition MemoryUsage :: "Arena \<Rightarrow> nat" where
  "MemoryUsage this = memory_usage this"

subsection \<open>Regions\<close>

definition cells :: "region \<Rightarrow> nat set" where
  "cells r = {fst r..<fst r + snd r}"

definition fresh_blocks :: "(region list \<Rightarrow> nat \<Rightarrow> nat) \<Rightarrow> bool" where
  "fresh_blocks new_block \<longleftrightarrow> (\<forall>bs n. new_block bs n mod 8 = 0 \<and> (\<forall>b \<in> set bs. cells b \<inter> cells (new_block bs n, n) = {}))"

definition inside :: "region \<Rightarrow> region list \<Rightarrow> bool" where
  "inside r bs \<longleftrightarrow> (\<exists>b \<in> set bs. cells r \<subseteq> cells b)"

text \<open>The invariant, with the regions handed out so far: they and the free rest of the current block do not overlap.\<close>

definition arena_ok :: "Arena \<Rightarrow> region list \<Rightarrow> bool" where
  "arena_ok a used \<longleftrightarrow>
     sorted_wrt (\<lambda>r r'. cells r \<inter> cells r' = {}) ((alloc_ptr a, alloc_bytes_remaining a) # used)
     \<and> (\<forall>r \<in> set used. inside r (blocks a)) \<and> (0 < alloc_bytes_remaining a \<longrightarrow> inside (alloc_ptr a, alloc_bytes_remaining a) (blocks a))
     \<and> memory_usage a = (\<Sum>(p, n) \<leftarrow> blocks a. n + 8)"

datatype request = Bytes nat | AlignedBytes nat

fun request_size :: "request \<Rightarrow> nat" where
  "request_size (Bytes n) = n"
| "request_size (AlignedBytes n) = n"

fun suits :: "request \<Rightarrow> nat \<Rightarrow> bool" where
  "suits (Bytes n) p = True"
| "suits (AlignedBytes n) p = (p mod 8 = 0)"

fun serve :: "(region list \<Rightarrow> nat \<Rightarrow> nat) \<Rightarrow> request \<Rightarrow> Arena \<Rightarrow> (nat \<times> Arena) option" where
  "serve new_block (Bytes n) a = Allocate new_block n a"
| "serve new_block (AlignedBytes n) a = AllocateAligned new_block n a"

fun serve_all :: "(region list \<Rightarrow> nat \<Rightarrow> nat) \<Rightarrow> request list \<Rightarrow> Arena \<Rightarrow> (region list \<times> Arena) option" where
  "serve_all new_block [] a = Some ([], a)"
| "serve_all new_block (r # rs) a =
     (case serve new_block r a of None \<Rightarrow> None
      | Some (p, a) \<Rightarrow> (case serve_all new_block rs a of None \<Rightarrow> None | Some (ps, a) \<Rightarrow> Some ((p, request_size r) # ps, a)))"

lemma arena_ok_bump:
  assumes "arena_ok a used" "skip + n \<le> alloc_bytes_remaining a" "0 < n"
  shows "arena_ok (a\<lparr>alloc_ptr := alloc_ptr a + (skip + n), alloc_bytes_remaining := alloc_bytes_remaining a - (skip + n)\<rparr>) ((alloc_ptr a + skip, n) # used)"
proof -
  have sub: "cells (alloc_ptr a + skip, n) \<subseteq> cells (alloc_ptr a, alloc_bytes_remaining a)"
      "cells (alloc_ptr a + (skip + n), alloc_bytes_remaining a - (skip + n)) \<subseteq> cells (alloc_ptr a, alloc_bytes_remaining a)"
    using assms(2) by (auto simp: cells_def)
  have apart: "cells (alloc_ptr a + (skip + n), alloc_bytes_remaining a - (skip + n)) \<inter> cells (alloc_ptr a + skip, n) = {}"
    by (auto simp: cells_def)
  have "inside (alloc_ptr a, alloc_bytes_remaining a) (blocks a)" using assms by (auto simp: arena_ok_def)
  then have ins: "inside x (blocks a)" if "cells x \<subseteq> cells (alloc_ptr a, alloc_bytes_remaining a)" for x
    unfolding inside_def using that by blast
  have disj: "\<forall>r \<in> set used. cells x \<inter> cells r = {}" if "cells x \<subseteq> cells (alloc_ptr a, alloc_bytes_remaining a)" for x
  proof -
    have "\<forall>r \<in> set used. cells (alloc_ptr a, alloc_bytes_remaining a) \<inter> cells r = {}" using assms(1) by (simp add: arena_ok_def)
    then show ?thesis using that by blast
  qed
  show ?thesis using assms(1) apart ins [OF sub(1)] ins [OF sub(2)] disj [OF sub(1)] disj [OF sub(2)] by (simp add: arena_ok_def)
qed

lemma arena_ok_block:
  fixes n :: nat
  assumes ok: "arena_ok a used" and fresh: "fresh_blocks new_block"
  defines "p \<equiv> new_block (blocks a) n"
  shows "arena_ok (snd (AllocateNewBlock new_block n a)) ((p, n) # used)"
    "arena_ok ((snd (AllocateNewBlock new_block n a))\<lparr>alloc_ptr := p, alloc_bytes_remaining := n\<rparr>) used"
proof -
  have "cells b \<inter> cells (p, n) = {}" if "b \<in> set (blocks a)" for b using fresh that by (auto simp: fresh_blocks_def p_def)
  then have d: "cells r \<inter> cells (p, n) = {}" if "inside r (blocks a)" for r using that by (fastforce simp: inside_def)
  moreover have "cells r = {}" if "snd r = 0" for r using that by (simp add: cells_def)
  ultimately have f: "cells (alloc_ptr a, alloc_bytes_remaining a) \<inter> cells (p, n) = {}"
    using ok by (cases "alloc_bytes_remaining a = 0") (auto simp: arena_ok_def)
  have ins: "inside r (blocks a @ [(p, n)])" if "inside r (blocks a)" for r using that by (auto simp: inside_def)
  have new: "inside (p, n) (blocks a @ [(p, n)])" by (auto simp: inside_def)
  show "arena_ok (snd (AllocateNewBlock new_block n a)) ((p, n) # used)"
    using ok f d ins new by (auto simp: arena_ok_def AllocateNewBlock_def Let_def p_def Int_commute)
  show "arena_ok ((snd (AllocateNewBlock new_block n a))\<lparr>alloc_ptr := p, alloc_bytes_remaining := n\<rparr>) used"
    using ok d ins new by (auto simp: arena_ok_def AllocateNewBlock_def Let_def p_def Int_commute)
qed

lemma AllocateFallback_ok:
  assumes ok: "arena_ok a used" and fresh: "fresh_blocks new_block" and n: "0 < n"
  shows "\<exists>p a'. AllocateFallback new_block n a = (p, a') \<and> p mod 8 = 0 \<and> arena_ok a' ((p, n) # used)"
proof (cases "kArenaBlockSize div 4 < n")
  case True
  then show ?thesis using arena_ok_block(1) [OF ok fresh, of n] fresh
    by (auto simp: AllocateFallback_def AllocateNewBlock_def Let_def fresh_blocks_def)
next
  case False
  then show ?thesis
    using arena_ok_bump [OF arena_ok_block(2) [OF ok fresh, of kArenaBlockSize], of 0 n] n fresh
    by (auto simp: AllocateFallback_def AllocateNewBlock_def Let_def fresh_blocks_def kArenaBlockSize_def)
qed

lemma serve_ok:
  assumes "arena_ok a used" "fresh_blocks new_block" "0 < request_size r" "request_size r < 2 ^ 63"
  shows "\<exists>p a'. serve new_block r a = Some (p, a') \<and> arena_ok a' ((p, request_size r) # used)
    \<and> suits r p"
proof (cases r)
  case (Bytes n)
  then show ?thesis using assms arena_ok_bump [of a used 0 n] AllocateFallback_ok [of a used new_block n]
    by (auto simp: Allocate_def)
next
  case (AlignedBytes n)
  define slop where "slop = (if alloc_ptr a mod 8 = 0 then 0 else 8 - alloc_ptr a mod 8)"
  have slop: "slop < 8" "(alloc_ptr a + slop) mod 8 = 0" unfolding slop_def by presburger+
  have "(n + slop) mod 2 ^ 64 = slop + n" using assms(4) AlignedBytes slop(1) by simp
  then have eq: "AllocateAligned new_block n a =
      (let (p, a') = (if slop + n \<le> alloc_bytes_remaining a
         then (alloc_ptr a + slop, a\<lparr>alloc_ptr := alloc_ptr a + (slop + n), alloc_bytes_remaining := alloc_bytes_remaining a - (slop + n)\<rparr>)
         else AllocateFallback new_block n a) in if p mod 8 = 0 then Some (p, a') else None)"
    unfolding AllocateAligned_def Let_def slop_def [symmetric] by simp
  show ?thesis
  proof (cases "slop + n \<le> alloc_bytes_remaining a")
    case True
    then show ?thesis using arena_ok_bump [OF assms(1) True] assms(3) slop(2) AlignedBytes by (simp add: eq)
  next
    case False
    then show ?thesis using AllocateFallback_ok [OF assms(1,2), of n] assms(3) AlignedBytes by (auto simp: eq)
  qed
qed

lemma serve_all_ok:
  assumes "arena_ok a used" "fresh_blocks new_block" "\<forall>r \<in> set rs. 0 < request_size r \<and> request_size r < 2 ^ 63"
  shows "\<exists>ps a'. serve_all new_block rs a = Some (ps, a') \<and> arena_ok a' (rev ps @ used) \<and> map snd ps = map request_size rs
    \<and> list_all2 suits rs (map fst ps)"
  using assms
proof (induction rs arbitrary: a used)
  case (Cons r rs)
  obtain p a1 where r: "serve new_block r a = Some (p, a1)" "arena_ok a1 ((p, request_size r) # used)"
      "suits r p"
    using serve_ok [OF Cons.prems(1,2), of r] Cons.prems(3) by auto
  obtain ps a' where "serve_all new_block rs a1 = Some (ps, a')" "arena_ok a' (rev ps @ (p, request_size r) # used)"
      "map snd ps = map request_size rs" "list_all2 suits rs (map fst ps)"
    using Cons.IH [OF r(2) Cons.prems(2)] Cons.prems(3) by auto
  then show ?case using r(1,3) by simp
qed simp

text \<open>
  (C27) The memory of an arena is handed out safely. Every sequence of allocations of positive sizes succeeds, the
  regions do not overlap each other, each lies inside a block the arena owns, aligned requests get aligned
  addresses, and the reported memory usage is the size of all blocks with a pointer for each.
\<close>

theorem Arena_regions_disjoint:
  assumes "fresh_blocks new_block" "\<forall>r \<in> set rs. 0 < request_size r \<and> request_size r < 2 ^ 63"
  shows "\<exists>ps a. serve_all new_block rs Arena_new = Some (ps, a) \<and> map snd ps = map request_size rs
    \<and> (\<forall>i < length ps. \<forall>j < i. cells (ps ! i) \<inter> cells (ps ! j) = {}) \<and> (\<forall>p \<in> set ps. inside p (blocks a))
    \<and> list_all2 suits rs (map fst ps)
    \<and> MemoryUsage a = (\<Sum>(p, n) \<leftarrow> blocks a. n + 8)"
proof -
  have "arena_ok Arena_new []" by (simp add: arena_ok_def Arena_new_def)
  from serve_all_ok [OF this assms] obtain ps a where s: "serve_all new_block rs Arena_new = Some (ps, a)" "arena_ok a (rev ps)"
    "map snd ps = map request_size rs" "list_all2 suits rs (map fst ps)"
    by auto
  have "sorted_wrt (\<lambda>r r'. cells r' \<inter> cells r = {}) ps" using s(2) by (simp add: arena_ok_def sorted_wrt_rev)
  then have "cells (ps ! i) \<inter> cells (ps ! j) = {}" if "i < length ps" "j < i" for i j
    using that by (simp add: sorted_wrt_iff_nth_less)
  then show ?thesis using s by (auto simp: arena_ok_def MemoryUsage_def)
qed

text \<open>An allocator that puts a block behind all blocks in use.\<close>

definition bump_new :: "region list \<Rightarrow> nat \<Rightarrow> nat" where
  "bump_new bs n = 8 * (\<Sum>(p, n) \<leftarrow> bs. p + n + 1)"

lemma bump_new_fresh: "fresh_blocks bump_new"
proof -
  have le: "p + k \<le> bump_new bs n" if "(p, k) \<in> set bs" for bs p k n
    using member_le_sum_list [of "p + k + 1" "map (\<lambda>(p, n). p + n + 1) bs"] that by (force simp: bump_new_def)
  have "cells b \<inter> cells (bump_new bs n, n) = {}" if "b \<in> set bs" for bs b n
    using le [of "fst b" "snd b" bs n] that by (auto simp: cells_def)
  then show ?thesis by (simp add: fresh_blocks_def bump_new_def)
qed

theorem Arena_regions_disjoint_witness:
  "\<exists>ps a. serve_all bump_new [Bytes 3, AlignedBytes 40, Bytes 5000] Arena_new = Some (ps, a) \<and> map snd ps = [3, 40, 5000]
    \<and> cells (ps ! 2) \<inter> cells (ps ! 1) = {} \<and> cells (ps ! 1) \<inter> cells (ps ! 0) = {}"
proof -
  have "\<forall>r \<in> set [Bytes 3, AlignedBytes 40, Bytes 5000]. 0 < request_size r \<and> request_size r < 2 ^ 63" by simp
  from Arena_regions_disjoint [OF bump_new_fresh this] obtain ps a where
      "serve_all bump_new [Bytes 3, AlignedBytes 40, Bytes 5000] Arena_new = Some (ps, a)" "map snd ps = [3, 40, 5000]"
    and apart: "\<forall>i < length ps. \<forall>j < i. cells (ps ! i) \<inter> cells (ps ! j) = {}" by auto
  moreover from this have "length ps = 3" by (metis length_map length_Cons list.size(3) numeral_3_eq_3)
  ultimately show ?thesis by auto
qed

end
