(* ===== verification/Doubles.thy ===== *)
theory Doubles
  imports Prelude
begin

section \<open>Double arithmetic\<close>

text \<open>
  A \<open>double\<close> is a finite number, an infinity or a NaN. Every operation computes the exact
  result and then rounds it; the rounding is the argument \<open>fl\<close> of the operations. With
  \<open>fl = Fin\<close> the arithmetic is exact, with \<open>fl = ieee64\<close> it is the binary64 format with
  rounding to nearest, ties to even. The sign of zero is not kept: the only zero divisors of the
  modelled code are differences of equal numbers and unsigned sums, which are positive zeros.
\<close>

datatype dbl = Fin rat | PInf | NInf | NaN

fun dneg :: "dbl \<Rightarrow> dbl" where
  "dneg (Fin x) = Fin (- x)"
| "dneg PInf = NInf"
| "dneg NInf = PInf"
| "dneg NaN = NaN"

fun dadd :: "(rat \<Rightarrow> dbl) \<Rightarrow> dbl \<Rightarrow> dbl \<Rightarrow> dbl" where
  "dadd fl (Fin x) (Fin y) = fl (x + y)"
| "dadd fl NaN _ = NaN"
| "dadd fl _ NaN = NaN"
| "dadd fl PInf NInf = NaN"
| "dadd fl NInf PInf = NaN"
| "dadd fl PInf _ = PInf"
| "dadd fl _ PInf = PInf"
| "dadd fl NInf _ = NInf"
| "dadd fl _ NInf = NInf"

definition dsub :: "(rat \<Rightarrow> dbl) \<Rightarrow> dbl \<Rightarrow> dbl \<Rightarrow> dbl" where
  "dsub fl x y = dadd fl x (dneg y)"

definition dinf :: "bool \<Rightarrow> dbl" where
  "dinf positive = (if positive then PInf else NInf)"

fun dmul :: "(rat \<Rightarrow> dbl) \<Rightarrow> dbl \<Rightarrow> dbl \<Rightarrow> dbl" where
  "dmul fl (Fin x) (Fin y) = fl (x * y)"
| "dmul fl NaN _ = NaN"
| "dmul fl _ NaN = NaN"
| "dmul fl (Fin x) PInf = (if x = 0 then NaN else dinf (0 < x))"
| "dmul fl (Fin x) NInf = (if x = 0 then NaN else dinf (x < 0))"
| "dmul fl PInf (Fin y) = (if y = 0 then NaN else dinf (0 < y))"
| "dmul fl NInf (Fin y) = (if y = 0 then NaN else dinf (y < 0))"
| "dmul fl PInf PInf = PInf"
| "dmul fl PInf NInf = NInf"
| "dmul fl NInf PInf = NInf"
| "dmul fl NInf NInf = PInf"

fun ddiv :: "(rat \<Rightarrow> dbl) \<Rightarrow> dbl \<Rightarrow> dbl \<Rightarrow> dbl" where
  "ddiv fl (Fin x) (Fin y) = (if y = 0 then (if x = 0 then NaN else dinf (0 < x)) else fl (x / y))"
| "ddiv fl NaN _ = NaN"
| "ddiv fl _ NaN = NaN"
| "ddiv fl (Fin x) _ = Fin 0"
| "ddiv fl PInf (Fin y) = dinf (0 \<le> y)"
| "ddiv fl NInf (Fin y) = dinf (y < 0)"
| "ddiv fl _ _ = NaN"

fun dlt :: "dbl \<Rightarrow> dbl \<Rightarrow> bool" where
  "dlt (Fin x) (Fin y) = (x < y)"
| "dlt NaN _ = False"
| "dlt _ NaN = False"
| "dlt NInf NInf = False"
| "dlt NInf _ = True"
| "dlt PInf _ = False"
| "dlt (Fin x) PInf = True"
| "dlt (Fin x) NInf = False"

definition disnan :: "dbl \<Rightarrow> bool" where
  "disnan x \<longleftrightarrow> x = NaN"

text \<open>Comparison with zero (\<open>x != 0\<close>): a NaN is different from every number.\<close>

definition dnonzero :: "dbl \<Rightarrow> bool" where
  "dnonzero x \<longleftrightarrow> x \<noteq> Fin 0"

fun dfloor :: "dbl \<Rightarrow> dbl" where
  "dfloor (Fin x) = Fin (of_int \<lfloor>x\<rfloor>)"
| "dfloor d = d"

fun dceil :: "dbl \<Rightarrow> dbl" where
  "dceil (Fin x) = Fin (of_int \<lceil>x\<rceil>)"
| "dceil d = d"

text \<open>
  Conversion to \<open>uint64_t\<close> truncates. Outside the range the language leaves it undefined; the
  model has the value of the x86-64 conversion instruction there, the truncated value modulo
  \<open>2 ^ 64\<close> and the integer indefinite for an infinity or NaN.
\<close>

fun dbl_to_u64 :: "dbl \<Rightarrow> u64" where
  "dbl_to_u64 (Fin x) = of_int (if 0 \<le> x then \<lfloor>x\<rfloor> else \<lceil>x\<rceil>)"
| "dbl_to_u64 _ = 0x8000000000000000"

definition u64_to_dbl :: "(rat \<Rightarrow> dbl) \<Rightarrow> u64 \<Rightarrow> dbl" where
  "u64_to_dbl fl n = fl (of_int (uint n))"

subsection \<open>Binary64 rounding\<close>

definition exp2 :: "int \<Rightarrow> rat" where
  "exp2 e = (if 0 \<le> e then 2 ^ nat e else 1 / 2 ^ nat (- e))"

definition round_half_even :: "rat \<Rightarrow> int" where
  "round_half_even x =
     (let f = \<lfloor>x\<rfloor>; d = x - of_int f in
      if d < 1 / 2 then f else if 1 / 2 < d then f + 1 else if even f then f else f + 1)"

function bit_width :: "int \<Rightarrow> int" where
  "bit_width n = (if n \<le> 0 then 0 else 1 + bit_width (n div 2))"
  by pat_completeness auto
termination
  by (relation "measure nat") auto

declare bit_width.simps [simp del]

text \<open>
  The exponent of the last place: the quotient of the widths of numerator and denominator is
  off by at most one, which the comparison repairs; below \<open>2 ^ -1022\<close> it stays at
  \<open>-1074\<close> (subnormal numbers).
\<close>

definition ulp_exp :: "rat \<Rightarrow> int" where
  "ulp_exp a =
     (let (p, q) = quotient_of a;
          e = bit_width p - bit_width q - 53;
          e' = (if 9007199254740992 \<le> a / exp2 e then e + 1
                else if a / exp2 e < 4503599627370496 then e - 1 else e)
      in max e' (-1074))"

definition ieee64 :: "rat \<Rightarrow> dbl" where
  "ieee64 x =
     (if x = 0 then Fin 0
      else let e = ulp_exp \<bar>x\<bar>; m = round_half_even (x / exp2 e)
           in if 971 < e \<or> e = 971 \<and> \<bar>m\<bar> = 9007199254740992 then dinf (0 < x)
              else Fin (of_int m * exp2 e))"

subsection \<open>Exact arithmetic\<close>

lemma dsub_Fin [simp]: "dsub fl (Fin x) (Fin y) = fl (x - y)"
  by (simp add: dsub_def)

lemma ddiv_Fin [simp]: "y \<noteq> 0 \<Longrightarrow> ddiv fl (Fin x) (Fin y) = fl (x / y)"
  by simp

end
