(* ===== verification/KeyNumbers.thy ===== *)
theory KeyNumbers
  imports Prelude Doubles
begin

section \<open>Keys as numbers (mod/util.cpp and the C library conversions it is used with)\<close>

text \<open>
  The learned index treats user keys as decimal numbers. Three conversions are in use:
  \<open>std::stoull\<close> while training, \<open>atoll\<close> for the bounds of a model, and the hand-written
  \<open>SliceToInteger\<close> for lookups. \<open>stoull\<close> throws (\<open>None\<close>) when there is no number or it does
  not fit; \<open>atoll\<close> saturates at the bounds of \<open>long long\<close>, as the C library does.
\<close>

definition is_digit :: "byte \<Rightarrow> bool" where
  "is_digit b \<longleftrightarrow> 48 \<le> b \<and> b \<le> 57"

definition is_space :: "byte \<Rightarrow> bool" where
  "is_space b \<longleftrightarrow> b = 32 \<or> 9 \<le> b \<and> b \<le> 13"

definition digits_value :: "bytes \<Rightarrow> int" where
  "digits_value ds = foldl (\<lambda>n b. 10 * n + (uint b - 48)) 0 ds"

text \<open>The subject of \<open>strtoull\<close> and \<open>strtoll\<close>: an optional sign and the digits after it.\<close>

definition number_prefix :: "bytes \<Rightarrow> bool \<times> bytes" where
  "number_prefix s =
     (case dropWhile is_space s of
        b # r \<Rightarrow> if b = 45 then (True, takeWhile is_digit r)
                 else if b = 43 then (False, takeWhile is_digit r)
                 else (False, takeWhile is_digit (b # r))
      | [] \<Rightarrow> (False, []))"

definition stoull :: "bytes \<Rightarrow> u64 option" where
  "stoull s =
     (let (negative, ds) = number_prefix s; v = digits_value ds in
      if ds = [] then None
      else if v \<ge> 2 ^ 64 then None
      else Some (if negative then - of_int v else of_int v))"

definition atoll :: "bytes \<Rightarrow> u64" where
  "atoll s =
     (let (negative, ds) = number_prefix s;
          v = (if negative then - digits_value ds else digits_value ds)
      in of_int (if v > 2 ^ 63 - 1 then 2 ^ 63 - 1 else if v < - (2 ^ 63) then - (2 ^ 63) else v))"

text \<open>\<open>char\<close> is signed, so a byte above 127 is added as a negative number.\<close>

fun SliceToInteger_loop :: "bool \<Rightarrow> u64 \<Rightarrow> bytes \<Rightarrow> u64" where
  "SliceToInteger_loop leading_zeros num [] = num"
| "SliceToInteger_loop leading_zeros num (b # rest) =
     (if leading_zeros \<and> b = 48 then SliceToInteger_loop leading_zeros num rest
      else SliceToInteger_loop False (push_bit 3 num + push_bit 1 num + scast b - 48) rest)"

definition SliceToInteger :: "bytes \<Rightarrow> u64" where
  "SliceToInteger s = SliceToInteger_loop True 0 s"

subsection \<open>On decimal keys the three conversions agree\<close>

definition digit_key :: "bytes \<Rightarrow> bool" where
  "digit_key k \<longleftrightarrow> k \<noteq> [] \<and> (\<forall>b \<in> set k. is_digit b)"

lemma foldl_digits_nonneg:
  "\<forall>b \<in> set ds. is_digit b \<Longrightarrow> 0 \<le> n \<Longrightarrow> n \<le> foldl (\<lambda>n b. 10 * n + (uint b - 48)) n ds"
proof (induction ds arbitrary: n)
  case (Cons b ds)
  have "0 \<le> uint b - 48" using Cons.prems by (simp add: is_digit_def word_le_def)
  then have "n \<le> 10 * n + (uint b - 48)" "0 \<le> 10 * n + (uint b - 48)" using Cons.prems by simp_all
  then show ?case using Cons.IH [of "10 * n + (uint b - 48)"] Cons.prems by simp
qed simp

lemma digits_value_nonneg: "\<forall>b \<in> set ds. is_digit b \<Longrightarrow> 0 \<le> digits_value ds"
  using foldl_digits_nonneg [of ds 0] by (simp add: digits_value_def)

lemma number_prefix_digit_key: "digit_key k \<Longrightarrow> number_prefix k = (False, k)"
  by (cases k) (auto simp: digit_key_def number_prefix_def is_digit_def is_space_def word_le_def
      takeWhile_eq_all_conv)

lemma stoull_digit_key: "digit_key k \<Longrightarrow> digits_value k < 2 ^ 64 \<Longrightarrow> stoull k = Some (of_int (digits_value k))"
  by (simp add: stoull_def number_prefix_digit_key) (simp add: digit_key_def)

lemma atoll_digit_key: "digit_key k \<Longrightarrow> digits_value k < 2 ^ 63 \<Longrightarrow> atoll k = of_int (digits_value k)"
  using digits_value_nonneg [of k]
  by (simp add: atoll_def number_prefix_digit_key) (auto simp: digit_key_def)

lemma times_10_shifts: "push_bit 3 num + push_bit 1 num = 10 * (num :: u64)"
  by (simp add: push_bit_eq_mult)

lemma scast_digit: "is_digit b \<Longrightarrow> (scast b :: u64) = of_int (uint b)"
proof -
  assume "is_digit b"
  then have "uint b \<le> 57" by (simp add: is_digit_def word_le_def)
  moreover have "- 128 \<le> uint b" using uint_nonnegative [of b] by linarith
  ultimately have "sint b = uint b" by (simp add: sint_uint signed_take_bit_int_eq_self)
  then show ?thesis by (metis scast_eq word_of_int_uint of_int_sint)
qed

lemma SliceToInteger_loop_digits:
  "\<forall>b \<in> set ds. is_digit b \<Longrightarrow> (lz \<Longrightarrow> n = 0) \<Longrightarrow>
    SliceToInteger_loop lz (of_int n) ds = of_int (foldl (\<lambda>n b. 10 * n + (uint b - 48)) n ds)"
proof (induction ds arbitrary: lz n)
  case (Cons b ds)
  have b: "is_digit b" using Cons.prems by simp
  have step: "push_bit 3 (of_int n) + push_bit 1 (of_int n) + scast b - 48 = (of_int (10 * n + (uint b - 48)) :: u64)"
    by (simp only: times_10_shifts scast_digit [OF b]) simp
  show ?case
  proof (cases "lz \<and> b = 48")
    case True
    then show ?thesis using Cons.IH [of True n] Cons.prems by simp
  next
    case False
    then have "SliceToInteger_loop lz (of_int n) (b # ds)
        = SliceToInteger_loop False (of_int (10 * n + (uint b - 48))) ds"
      by (simp only: SliceToInteger_loop.simps if_False step)
    then show ?thesis using Cons.IH [of False "10 * n + (uint b - 48)"] Cons.prems by simp
  qed
qed simp

lemma SliceToInteger_digit_key: "digit_key k \<Longrightarrow> SliceToInteger k = of_int (digits_value k)"
  using SliceToInteger_loop_digits [of k True 0] by (simp add: SliceToInteger_def digits_value_def digit_key_def)

end
