(* ===== verification/Logging.thy ===== *)
theory Logging
  imports KeyNumbers
begin

section \<open>Numbers and escaped strings as text (util/logging.cc)\<close>

text \<open>\<open>decimal\<close> is the conversion \<open>%llu\<close> and \<open>hex2\<close> the conversion \<open>%02x\<close> of \<open>snprintf\<close>.\<close>

function decimal :: "int \<Rightarrow> bytes" where
  "decimal n = (if n < 10 then [of_int (48 + n)] else decimal (n div 10) @ [of_int (48 + n mod 10)])"
  by pat_completeness auto
termination
  by (relation "measure nat") auto

declare decimal.simps [simp del]

definition AppendNumberTo :: "bytes \<Rightarrow> u64 \<Rightarrow> bytes" where
  "AppendNumberTo str num = str @ decimal (uint num)"

definition NumberToString :: "u64 \<Rightarrow> bytes" where
  "NumberToString num = AppendNumberTo [] num"

definition hex_digit :: "byte \<Rightarrow> byte" where
  "hex_digit d = (if d < 10 then 48 + d else 87 + d)"

definition hex2 :: "byte \<Rightarrow> bytes" where
  "hex2 c = [hex_digit (drop_bit 4 c), hex_digit (c AND 15)]"

text \<open>A \<open>char\<close> above 127 is negative, so it is not in the printable range.\<close>

definition escape_char :: "byte \<Rightarrow> bytes" where
  "escape_char c = (if 32 \<le> c \<and> c \<le> 126 then [c] else [92, 120] @ hex2 c)"

definition AppendEscapedStringTo :: "bytes \<Rightarrow> bytes \<Rightarrow> bytes" where
  "AppendEscapedStringTo str value = foldl (\<lambda>str c. str @ escape_char c) str value"

definition EscapeString :: "bytes \<Rightarrow> bytes" where
  "EscapeString value = AppendEscapedStringTo [] value"

definition kMaxUint64 :: u64 where "kMaxUint64 = - 1"

fun ConsumeDecimalNumber_loop :: "u64 \<Rightarrow> bytes \<Rightarrow> (u64 \<times> bytes) option" where
  "ConsumeDecimalNumber_loop value [] = Some (value, [])"
| "ConsumeDecimalNumber_loop value (ch # current) =
     (if ch < 48 \<or> 57 < ch then Some (value, ch # current)
      else if kMaxUint64 div 10 < value
            \<or> value = kMaxUint64 div 10 \<and> 48 + ucast (kMaxUint64 mod 10) < ch then None
      else ConsumeDecimalNumber_loop (value * 10 + ucast (ch - 48)) current)"

text \<open>The result is \<open>None\<close> where the source returns false.\<close>

definition ConsumeDecimalNumber :: "bytes \<Rightarrow> (u64 \<times> bytes) option" where
  "ConsumeDecimalNumber input =
     (case ConsumeDecimalNumber_loop 0 input of None \<Rightarrow> None
      | Some (value, current) \<Rightarrow> if length input - length current \<noteq> 0 then Some (value, current) else None)"

subsection \<open>Reading numbers\<close>

lemma kMaxUint64_div: "uint (kMaxUint64 div 10) = 1844674407370955161" "kMaxUint64 mod 10 = 5"
  by (simp_all add: kMaxUint64_def uint_div)

lemma ConsumeDecimalNumber_loop_digits:
  assumes "\<forall>b \<in> set ds. is_digit b" and "case rest of [] \<Rightarrow> True | b # _ \<Rightarrow> \<not> is_digit b"
  shows "ConsumeDecimalNumber_loop v (ds @ rest) =
    (let n = foldl (\<lambda>n b. 10 * n + (uint b - 48)) (uint v) ds in
     if n < 2 ^ 64 then Some (of_int n, rest) else None)"
  using assms(1)
proof (induction ds arbitrary: v)
  case Nil
  then show ?case using assms(2) unsigned_less [of "v", where 'a = int]
    by (cases rest) (auto simp: is_digit_def Let_def not_le word_of_int_uint)
next
  case (Cons ch ds)
  let ?n = "10 * uint v + (uint ch - 48)"
  have d: "\<not> (ch < 48 \<or> 57 < ch)" "48 \<le> uint ch" "uint ch \<le> 57"
    using Cons.prems by (auto simp: is_digit_def word_le_def not_less)
  have lt: "kMaxUint64 div 10 < v \<longleftrightarrow> 1844674407370955161 < uint v"
    "v = kMaxUint64 div 10 \<longleftrightarrow> uint v = 1844674407370955161"
    by (simp_all add: word_less_def kMaxUint64_div word_uint_eq_iff)
  have ch5: "48 + ucast (kMaxUint64 mod 10) < ch \<longleftrightarrow> 53 < uint ch" by (simp add: kMaxUint64_div word_less_def)
  have ovf: "(kMaxUint64 div 10 < v \<or> v = kMaxUint64 div 10 \<and> 48 + ucast (kMaxUint64 mod 10) < ch) \<longleftrightarrow> 2 ^ 64 \<le> ?n"
    unfolding lt ch5 using d by auto
  show ?case
  proof (cases "2 ^ 64 \<le> ?n")
    case True
    have "?n \<le> foldl (\<lambda>n b. 10 * n + (uint b - 48)) ?n ds"
      using foldl_digits_nonneg [of ds ?n] Cons.prems True by auto
    then show ?thesis using True d(1) ovf by (simp add: Let_def)
  next
    case False
    have "uint (ch - 48) = uint ch - 48" using d(2) by (simp add: uint_sub_if' word_le_def)
    then have "uint (v * 10 + ucast (ch - 48) :: u64) = ?n"
      using False d by (simp add: uint_word_ariths unsigned_ucast_eq take_bit_int_eq_self)
    moreover have "ConsumeDecimalNumber_loop v ((ch # ds) @ rest) = ConsumeDecimalNumber_loop (v * 10 + ucast (ch - 48)) (ds @ rest)"
      using d(1) False unfolding ovf [symmetric] by (simp only: append_Cons ConsumeDecimalNumber_loop.simps if_False)
    ultimately show ?thesis using Cons.IH [of "v * 10 + ucast (ch - 48)"] Cons.prems by (simp add: Let_def)
  qed
qed

lemma digits_value_snoc: "digits_value (ds @ [b]) = 10 * digits_value ds + (uint b - 48)"
  by (simp add: digits_value_def)

lemma digit_byte: "0 \<le> n \<Longrightarrow> n < 10 \<Longrightarrow> uint (of_int (48 + n) :: byte) = 48 + n"
  by (simp add: uint_word_of_int del: of_int_add)

lemma decimal_digits:
  assumes "0 \<le> n"
  shows "digits_value (decimal n) = n \<and> digit_key (decimal n)"
  using assms
proof (induction n rule: decimal.induct)
  case (1 n)
  show ?case
  proof (cases "n < 10")
    case True
    then show ?thesis using 1(2) digit_byte [of n]
      by (simp add: decimal.simps [of n] digits_value_def digit_key_def is_digit_def word_le_def del: of_int_add)
  next
    case False
    have "0 \<le> n mod 10" "n mod 10 < 10" by simp_all
    then show ?thesis using False 1 digit_byte [of "n mod 10"]
      by (simp add: decimal.simps [of n] digits_value_snoc digit_key_def is_digit_def word_le_def del: of_int_add) 
  qed
qed

lemma ConsumeDecimalNumber_digits:
  assumes "digit_key ds" and "case rest of [] \<Rightarrow> True | b # _ \<Rightarrow> \<not> is_digit b"
  shows "ConsumeDecimalNumber (ds @ rest) =
    (if digits_value ds < 2 ^ 64 then Some (of_int (digits_value ds), rest) else None)"
  using ConsumeDecimalNumber_loop_digits [OF _ assms(2), of ds 0] assms(1)
  by (simp add: ConsumeDecimalNumber_def digit_key_def digits_value_def Let_def)

text \<open>
  (C35) \<open>ConsumeDecimalNumber\<close> reads the longest run of digits at the start of its input. It fails
  exactly when there is no digit or when the number does not fit 64 bits, and otherwise gives the
  number and leaves the input behind the digits; in particular it reads back what
  \<open>NumberToString\<close> prints.
\<close>

theorem ConsumeDecimalNumber_spec:
  assumes "\<forall>b \<in> set ds. is_digit b" and "case rest of [] \<Rightarrow> True | b # _ \<Rightarrow> \<not> is_digit b"
  shows "ConsumeDecimalNumber (ds @ rest) =
      (if ds \<noteq> [] \<and> digits_value ds < 2 ^ 64 then Some (of_int (digits_value ds), rest) else None)
    \<and> ConsumeDecimalNumber (NumberToString n @ rest) = Some (n, rest)"
proof
  show "ConsumeDecimalNumber (ds @ rest) =
      (if ds \<noteq> [] \<and> digits_value ds < 2 ^ 64 then Some (of_int (digits_value ds), rest) else None)"
  proof (cases "ds = []")
    case True
    then show ?thesis using ConsumeDecimalNumber_loop_digits [OF _ assms(2), of "[]" 0]
      by (simp add: ConsumeDecimalNumber_def Let_def)
  next
    case False
    then show ?thesis using ConsumeDecimalNumber_digits [OF _ assms(2)] assms(1) by (simp add: digit_key_def)
  qed
  have "0 \<le> uint n" "uint n < 2 ^ 64" using unsigned_less [of n, where 'a = int] by simp_all
  then show "ConsumeDecimalNumber (NumberToString n @ rest) = Some (n, rest)"
    using decimal_digits [of "uint n"] ConsumeDecimalNumber_digits [OF _ assms(2), of "decimal (uint n)"]
    by (simp add: NumberToString_def AppendNumberTo_def word_of_int_uint)
qed

theorem ConsumeDecimalNumber_spec_witness:
  "ConsumeDecimalNumber ([49, 50] @ [46]) =
      (if [49, 50 :: byte] \<noteq> [] \<and> digits_value [49, 50] < 2 ^ 64 then Some (of_int (digits_value [49, 50]), [46]) else None)
    \<and> ConsumeDecimalNumber (NumberToString 7 @ [46]) = Some (7, [46])"
  by (rule ConsumeDecimalNumber_spec) (simp_all add: is_digit_def)

end
