(* ===== verification/Comparator.thy ===== *)
theory Comparator
  imports Prelude "HOL-Library.List_Lexorder"
begin

section \<open>Slices and key order (slice.h, comparator.h, util/comparator.cc)\<close>

text \<open>
  A three-way comparison returns an integer whose sign is the result. \<open>memcmp\<close> is called on
  two ranges of the same length. The interface \<open>leveldb::Comparator\<close> is the locale
  \<open>key_comparator\<close>: its laws are what the tables and the skip list rely on, and the
  clients prove their facts about sorted keys once inside it.
\<close>

fun memcmp :: "bytes \<Rightarrow> bytes \<Rightarrow> int" where
  "memcmp (x # xs) (y # ys) = (if x < y then -1 else if y < x then 1 else memcmp xs ys)"
| "memcmp _ _ = 0"

definition Slice_compare :: "bytes \<Rightarrow> bytes \<Rightarrow> int" where
  "Slice_compare a b =
     (let min_len = (if length a < length b then length a else length b);
          r = memcmp (take min_len a) (take min_len b)
      in if r = 0 then (if length a < length b then -1 else if length b < length a then 1 else r)
         else r)"

definition Slice_starts_with :: "bytes \<Rightarrow> bytes \<Rightarrow> bool" where
  "Slice_starts_with s x \<longleftrightarrow>
     length x \<le> length s \<and> memcmp (take (length x) s) (take (length x) x) = 0"

definition Slice_eq :: "bytes \<Rightarrow> bytes \<Rightarrow> bool" where
  "Slice_eq x y \<longleftrightarrow> length x = length y \<and> memcmp x y = 0"

definition Bytewise_Compare :: "bytes \<Rightarrow> bytes \<Rightarrow> int" where
  "Bytewise_Compare a b = Slice_compare a b"

fun diff_index_loop :: "bytes \<Rightarrow> bytes \<Rightarrow> nat" where
  "diff_index_loop (x # xs) (y # ys) = (if x = y then Suc (diff_index_loop xs ys) else 0)"
| "diff_index_loop _ _ = 0"

definition Bytewise_FindShortestSeparator :: "bytes \<Rightarrow> bytes \<Rightarrow> bytes" where
  "Bytewise_FindShortestSeparator start limit =
     (let min_length = min (length start) (length limit);
          diff_index = diff_index_loop (take min_length start) (take min_length limit)
      in if min_length \<le> diff_index then start
         else let diff_byte = start ! diff_index in
           if diff_byte < 0xff \<and> unat diff_byte + 1 < unat (limit ! diff_index)
           then take (diff_index + 1) (start[diff_index := diff_byte + 1])
           else start)"

fun Bytewise_FindShortSuccessor :: "bytes \<Rightarrow> bytes" where
  "Bytewise_FindShortSuccessor [] = []"
| "Bytewise_FindShortSuccessor (b # key) =
     (if b \<noteq> 0xff then [b + 1] else b # Bytewise_FindShortSuccessor key)"

subsection \<open>The comparator interface\<close>

locale key_comparator =
  fixes Compare :: "bytes \<Rightarrow> bytes \<Rightarrow> int"
    and valid :: "bytes \<Rightarrow> bool"
  assumes Compare_refl: "valid a \<Longrightarrow> Compare a a = 0"
    and Compare_flip: "valid a \<Longrightarrow> valid b \<Longrightarrow> Compare a b < 0 \<longleftrightarrow> 0 < Compare b a"
    and Compare_trans:
      "valid a \<Longrightarrow> valid b \<Longrightarrow> valid c \<Longrightarrow> Compare a b \<le> 0 \<Longrightarrow> Compare b c \<le> 0 \<Longrightarrow> Compare a c \<le> 0"
begin

lemma Compare_total: "valid a \<Longrightarrow> valid b \<Longrightarrow> Compare a b \<le> 0 \<or> Compare b a \<le> 0"
  using Compare_flip [of a b] Compare_flip [of b a] by linarith

lemma Compare_eq_sym: "valid a \<Longrightarrow> valid b \<Longrightarrow> Compare a b = 0 \<longleftrightarrow> Compare b a = 0"
  using Compare_flip [of a b] Compare_flip [of b a] by linarith

lemma Compare_ge_flip: "valid a \<Longrightarrow> valid b \<Longrightarrow> 0 \<le> Compare a b \<longleftrightarrow> Compare b a \<le> 0"
  using Compare_flip [of a b] by linarith

lemma Compare_less_trans:
  assumes "valid a" "valid b" "valid c" "Compare a b < 0" "Compare b c \<le> 0"
  shows "Compare a c < 0"
proof (rule ccontr)
  assume "\<not> Compare a c < 0"
  then have "Compare c a \<le> 0" using assms Compare_ge_flip [of a c] by simp
  then have "Compare b a \<le> 0" using assms Compare_trans [of b c a] by simp
  then show False using assms Compare_ge_flip [of a b] by simp
qed

lemma Compare_le_less_trans:
  assumes "valid a" "valid b" "valid c" "Compare a b \<le> 0" "Compare b c < 0"
  shows "Compare a c < 0"
proof (rule ccontr)
  assume "\<not> Compare a c < 0"
  then have "Compare c a \<le> 0" using assms Compare_ge_flip [of a c] by simp
  then have "Compare c b \<le> 0" using assms Compare_trans [of c a b] by simp
  then show False using assms Compare_ge_flip [of b c] by simp
qed

end

subsection \<open>The bytewise order is the lexicographic order of byte lists\<close>

lemma memcmp_eq_0: "length a = length b \<Longrightarrow> memcmp a b = 0 \<longleftrightarrow> a = b"
  by (induction a b rule: memcmp.induct) auto

lemma Slice_compare_Cons:
  "Slice_compare (x # xs) (y # ys) = (if x < y then -1 else if y < x then 1 else Slice_compare xs ys)"
  by (auto simp: Slice_compare_def Let_def)

lemma Slice_compare_Nil:
  "Slice_compare [] [] = 0" "Slice_compare [] (y # ys) = -1" "Slice_compare (x # xs) [] = 1"
  by (simp_all add: Slice_compare_def)

lemma Slice_compare_lex: "Slice_compare a b = (if a < b then -1 else if a = b then 0 else 1)"
proof (induction a arbitrary: b)
  case Nil
  then show ?case by (cases b) (simp_all add: Slice_compare_Nil)
next
  case (Cons x xs)
  then show ?case by (cases b) (auto simp: Slice_compare_Cons Slice_compare_Nil)
qed

lemma Slice_eq_iff: "Slice_eq x y \<longleftrightarrow> x = y"
  by (auto simp: Slice_eq_def memcmp_eq_0)

lemma Slice_starts_with_iff: "Slice_starts_with s x \<longleftrightarrow> (\<exists>r. s = x @ r)"
proof
  assume "Slice_starts_with s x"
  then have "take (length x) s = x"
    by (auto simp: Slice_starts_with_def memcmp_eq_0)
  then have "s = x @ drop (length x) s" by (metis append_take_drop_id)
  then show "\<exists>r. s = x @ r" ..
next
  assume "\<exists>r. s = x @ r"
  then show "Slice_starts_with s x" by (auto simp: Slice_starts_with_def memcmp_eq_0)
qed

lemma Bytewise_Compare_lex:
  "Bytewise_Compare a b = (if a < b then -1 else if a = b then 0 else 1)"
  by (simp add: Bytewise_Compare_def Slice_compare_lex)

interpretation bytewise: key_comparator Bytewise_Compare "\<lambda>_. True"
  by unfold_locales (auto simp: Bytewise_Compare_lex split: if_splits)

subsection \<open>Separators and successors\<close>

lemma diff_index_loop_spec:
  assumes "length a = length b"
  shows "diff_index_loop a b \<le> length a \<and> take (diff_index_loop a b) a = take (diff_index_loop a b) b
    \<and> (diff_index_loop a b < length a \<longrightarrow> a ! diff_index_loop a b \<noteq> b ! diff_index_loop a b)"
  using assms by (induction a b rule: diff_index_loop.induct) auto

lemma less_append_Cons: "(x :: byte) < y \<Longrightarrow> p @ x # xs < p @ y # ys"
  by (induction p) auto

lemma less_list_append: "ys \<noteq> [] \<Longrightarrow> (xs :: bytes) < xs @ ys"
  by (induction xs) (auto simp: neq_Nil_conv)

lemma byte_succ_greater: "b < b + 1" if "unat (b :: byte) < 255"
  using that by (simp add: word_less_nat_alt unat_word_ariths)

lemma unat_byte_succ: "unat (b + 1) = unat b + 1" if "unat (b :: byte) < 255"
  using that by (simp add: unat_word_ariths)

lemma byte_not_ff: "unat (b :: byte) < 255 \<longleftrightarrow> b \<noteq> 0xff"
  using unsigned_less [of b, where 'a = nat] by (auto simp: word_unat_eq_iff)

lemma FindShortestSeparator_cases:
  "Bytewise_FindShortestSeparator start limit = start
   \<or> (\<exists>p x xs y ys. start = p @ x # xs \<and> limit = p @ y # ys \<and> unat x + 1 < unat y
        \<and> Bytewise_FindShortestSeparator start limit = p @ [x + 1])"
proof -
  define m where "m = min (length start) (length limit)"
  define d where "d = diff_index_loop (take m start) (take m limit)"
  have spec: "d \<le> m" "take d (take m start) = take d (take m limit)"
    using diff_index_loop_spec [of "take m start" "take m limit"] by (auto simp: d_def m_def)
  let ?p = "take d start"
  have F: "Bytewise_FindShortestSeparator start limit =
     (if m \<le> d then start
      else if start ! d < 0xff \<and> unat (start ! d) + 1 < unat (limit ! d)
      then take (d + 1) (start[d := start ! d + 1]) else start)"
    by (simp only: Bytewise_FindShortestSeparator_def Let_def m_def d_def)
  show ?thesis
  proof (cases "d < m \<and> start ! d < 0xff \<and> unat (start ! d) + 1 < unat (limit ! d)")
    case True
    then have lt: "d < length start" "d < length limit" by (auto simp: m_def)
    have s: "start = ?p @ start ! d # drop (Suc d) start" using lt by (simp add: id_take_nth_drop)
    have "?p = take d limit" using spec True by (simp add: min_def)
    then have l: "limit = ?p @ limit ! d # drop (Suc d) limit" using lt by (simp add: id_take_nth_drop)
    have "take (d + 1) (start[d := start ! d + 1]) = ?p @ [start ! d + 1]"
      using lt by (simp add: take_Suc_conv_app_nth)
    then show ?thesis using F True s l by (metis not_less)
  next
    case False
    then show ?thesis using F by auto
  qed
qed

text \<open>
  (C32) \<open>FindShortestSeparator\<close> turns \<open>start\<close> into a string in the half-open interval from
  \<open>start\<close> to \<open>limit\<close> that is no longer than \<open>start\<close> was.
\<close>

theorem FindShortestSeparator_between:
  assumes "Bytewise_Compare start limit < 0"
  shows "Bytewise_Compare start (Bytewise_FindShortestSeparator start limit) \<le> 0
    \<and> Bytewise_Compare (Bytewise_FindShortestSeparator start limit) limit < 0
    \<and> length (Bytewise_FindShortestSeparator start limit) \<le> length start"
  using FindShortestSeparator_cases [of start limit]
proof (elim disjE exE conjE)
  assume "Bytewise_FindShortestSeparator start limit = start"
  then show ?thesis using assms by (simp add: Bytewise_Compare_lex)
next
  fix p x xs y ys
  assume *: "start = p @ x # xs" "limit = p @ y # ys" "unat x + 1 < unat y"
    "Bytewise_FindShortestSeparator start limit = p @ [x + 1]"
  then have "unat x < 255" using unsigned_less [of y, where 'a = nat] by simp
  then have "x < x + 1" "x + 1 < y"
    using *(3) byte_succ_greater unat_byte_succ by (auto simp: word_less_nat_alt)
  then have "start < p @ [x + 1]" "p @ [x + 1] < limit"
    using * by (auto intro: less_append_Cons)
  then show ?thesis using * by (simp add: Bytewise_Compare_lex)
qed

theorem FindShortestSeparator_between_witness:
  "Bytewise_Compare [1, 5, 9] [1, 8] < 0
   \<and> Bytewise_Compare [1, 5, 9] (Bytewise_FindShortestSeparator [1, 5, 9] [1, 8]) \<le> 0
   \<and> Bytewise_FindShortestSeparator [1, 5, 9] [1, 8] = [1, 6]"
  using FindShortestSeparator_between [of "[1, 5, 9]" "[1, 8]"]
  by (simp add: Bytewise_Compare_lex Bytewise_FindShortestSeparator_def)

lemma FindShortSuccessor_ge:
  "Bytewise_Compare key (Bytewise_FindShortSuccessor key) \<le> 0
    \<and> length (Bytewise_FindShortSuccessor key) \<le> length key"
proof (induction key)
  case (Cons b key)
  have "b \<noteq> 0xff \<Longrightarrow> b < b + 1" using byte_succ_greater byte_not_ff by blast
  then show ?case using Cons by (auto simp: Bytewise_Compare_lex split: if_splits)
qed (simp add: Bytewise_Compare_lex)

end
