(* ===== verification/FileName.thy ===== *)
theory FileName
  imports Logging Comparator
begin

section \<open>Names of database files (db/filename.h, db/filename.cc)\<close>

text \<open>
  The buffers of the source hold every name: a number has at most 20 digits. Numbers are padded
  to six digits by \<open>%06llu\<close>. The asserted precondition that the number is positive is a premise where it matters.
\<close>

datatype FileType = kLogFile | kDBLockFile | kTableFile | kDescriptorFile | kCurrentFile | kTempFile | kInfoLogFile

definition decimal6 :: "u64 \<Rightarrow> bytes" where
  "decimal6 number = (let ds = decimal (uint number) in replicate (6 - length ds) 48 @ ds)"

definition MakeFileName :: "bytes \<Rightarrow> u64 \<Rightarrow> string \<Rightarrow> bytes" where
  "MakeFileName dbname number suffix =
     dbname @ [47] @ decimal6 number @ [46] @ bytes_of_string suffix"

definition LogFileName :: "bytes \<Rightarrow> u64 \<Rightarrow> bytes" where
  "LogFileName dbname number = MakeFileName dbname number ''log''"

definition TableFileName :: "bytes \<Rightarrow> u64 \<Rightarrow> bytes" where
  "TableFileName dbname number = MakeFileName dbname number ''ldb''"

definition SSTTableFileName :: "bytes \<Rightarrow> u64 \<Rightarrow> bytes" where
  "SSTTableFileName dbname number = MakeFileName dbname number ''sst''"

definition DescriptorFileName :: "bytes \<Rightarrow> u64 \<Rightarrow> bytes" where
  "DescriptorFileName dbname number = dbname @ bytes_of_string ''/MANIFEST-'' @ decimal6 number"

definition CurrentFileName :: "bytes \<Rightarrow> bytes" where
  "CurrentFileName dbname = dbname @ bytes_of_string ''/CURRENT''"

definition LockFileName :: "bytes \<Rightarrow> bytes" where
  "LockFileName dbname = dbname @ bytes_of_string ''/LOCK''"

definition TempFileName :: "bytes \<Rightarrow> u64 \<Rightarrow> bytes" where
  "TempFileName dbname number = MakeFileName dbname number ''dbtmp''"

definition InfoLogFileName :: "bytes \<Rightarrow> bytes" where
  "InfoLogFileName dbname = dbname @ bytes_of_string ''/LOG''"

definition OldInfoLogFileName :: "bytes \<Rightarrow> bytes" where
  "OldInfoLogFileName dbname = dbname @ bytes_of_string ''/LOG.old''"

definition ParseFileName :: "bytes \<Rightarrow> (u64 \<times> FileType) option" where
  "ParseFileName rest =
     (if Slice_eq rest (bytes_of_string ''CURRENT'') then Some (0, kCurrentFile)
      else if Slice_eq rest (bytes_of_string ''LOCK'') then Some (0, kDBLockFile)
      else if Slice_eq rest (bytes_of_string ''LOG'') \<or> Slice_eq rest (bytes_of_string ''LOG.old'')
        then Some (0, kInfoLogFile)
      else if Slice_starts_with rest (bytes_of_string ''MANIFEST-'') then
        (case ConsumeDecimalNumber (drop (length ''MANIFEST-'') rest) of None \<Rightarrow> None
         | Some (num, rest) \<Rightarrow> if rest \<noteq> [] then None else Some (num, kDescriptorFile))
      else
        (case ConsumeDecimalNumber rest of None \<Rightarrow> None
         | Some (num, suffix) \<Rightarrow>
             if Slice_eq suffix (bytes_of_string ''.log'') then Some (num, kLogFile)
             else if Slice_eq suffix (bytes_of_string ''.sst'') \<or> Slice_eq suffix (bytes_of_string ''.ldb'')
               then Some (num, kTableFile)
             else if Slice_eq suffix (bytes_of_string ''.dbtmp'') then Some (num, kTempFile)
             else None))"

subsection \<open>Names are read back\<close>

lemma digits_value_zeros: "digits_value (replicate n 48 @ ds) = digits_value ds"
  unfolding digits_value_def by (induction n) simp_all

lemma decimal6_digits: "digit_key (decimal6 n)" "digits_value (decimal6 n) = uint n"
proof -
  have d: "digit_key (decimal (uint n))" "digits_value (decimal (uint n)) = uint n"
    using decimal_digits [of "uint n"] by simp_all
  show "digit_key (decimal6 n)" using d(1) by (auto simp: decimal6_def Let_def digit_key_def is_digit_def)
  show "digits_value (decimal6 n) = uint n" using d(2) by (simp add: decimal6_def Let_def digits_value_zeros)
qed

lemma Consume_decimal6:
  "case rest of [] \<Rightarrow> True | b # _ \<Rightarrow> \<not> is_digit b \<Longrightarrow> ConsumeDecimalNumber (decimal6 n @ rest) = Some (n, rest)"
  using ConsumeDecimalNumber_digits [OF decimal6_digits(1), of rest n] unsigned_less [of n, where 'a = int]
  by (simp add: decimal6_digits(2) word_of_int_uint)

lemma decimal6_head: "\<exists>d ds. decimal6 n = d # ds \<and> is_digit d"
  using decimal6_digits(1) [of n] by (cases "decimal6 n") (auto simp: digit_key_def)

lemma ParseFileName_number:
  "ParseFileName (decimal6 n @ [46] @ s) =
     (if [46] @ s = bytes_of_string ''.log'' then Some (n, kLogFile)
      else if [46] @ s = bytes_of_string ''.sst'' \<or> [46] @ s = bytes_of_string ''.ldb'' then Some (n, kTableFile)
      else if [46] @ s = bytes_of_string ''.dbtmp'' then Some (n, kTempFile) else None)"
proof -
  obtain d ds where d: "decimal6 n = d # ds" "is_digit d" using decimal6_head by blast
  then have "d \<noteq> 67" "d \<noteq> 76" "d \<noteq> 77" by (auto simp: is_digit_def)
  then show ?thesis using Consume_decimal6 [of "[46] @ s" n] d(1)
    by (simp add: ParseFileName_def Slice_eq_iff Slice_starts_with_iff bytes_of_string_def is_digit_def)
qed


end
