(* ===== verification/Plr.thy ===== *)
theory Plr
  imports Doubles
begin

section \<open>Greedy piecewise linear regression (mod/plr.h, mod/plr.cpp)\<close>

text \<open>
  \<open>GreedyPLR\<close> reads points with increasing \<open>x\<close> and keeps the cone of the lines that pass
  within \<open>gamma\<close> of every point of the segment under construction: \<open>rho_lower\<close> and
  \<open>rho_upper\<close> are its extreme lines and \<open>sint\<close> its apex. A point outside the cone closes the
  segment. The members of a fresh \<open>GreedyPLR\<close> other than \<open>state\<close> and \<open>gamma\<close> are
  uninitialised; they are whatever the argument \<open>junk\<close> holds.
\<close>

record point =
  px :: dbl
  py :: dbl

record line =
  la :: dbl
  lb :: dbl

definition LineCheck :: "line \<Rightarrow> bool" where
  "LineCheck l \<longleftrightarrow> (if \<not> disnan (la l) \<and> \<not> disnan (lb l) then True else False)"

record Segment =
  seg_x :: u64
  seg_k :: dbl
  seg_b :: dbl

definition get_slope :: "(rat \<Rightarrow> dbl) \<Rightarrow> point \<Rightarrow> point \<Rightarrow> dbl" where
  "get_slope fl p1 p2 = ddiv fl (dsub fl (py p2) (py p1)) (dsub fl (px p2) (px p1))"

definition get_line :: "(rat \<Rightarrow> dbl) \<Rightarrow> point \<Rightarrow> point \<Rightarrow> line" where
  "get_line fl p1 p2 =
     (let a = get_slope fl p1 p2;
          b = dadd fl (dmul fl (dneg a) (px p1)) (py p1)
      in \<lparr>la = a, lb = b\<rparr>)"

definition get_intersetction :: "(rat \<Rightarrow> dbl) \<Rightarrow> line \<Rightarrow> line \<Rightarrow> point" where
  "get_intersetction fl l1 l2 =
     (let a = la l1; b = la l2; c = lb l1; d = lb l2 in
      \<lparr>px = ddiv fl (dsub fl d c) (dsub fl a b),
       py = ddiv fl (dsub fl (dmul fl a d) (dmul fl b c)) (dsub fl a b)\<rparr>)"

definition is_above :: "(rat \<Rightarrow> dbl) \<Rightarrow> point \<Rightarrow> line \<Rightarrow> bool" where
  "is_above fl pt l \<longleftrightarrow> dlt (dadd fl (dmul fl (la l) (px pt)) (lb l)) (py pt)"

definition is_below :: "(rat \<Rightarrow> dbl) \<Rightarrow> point \<Rightarrow> line \<Rightarrow> bool" where
  "is_below fl pt l \<longleftrightarrow> dlt (py pt) (dadd fl (dmul fl (la l) (px pt)) (lb l))"

definition get_upper_bound :: "(rat \<Rightarrow> dbl) \<Rightarrow> point \<Rightarrow> dbl \<Rightarrow> point" where
  "get_upper_bound fl pt g = \<lparr>px = px pt, py = dadd fl (py pt) g\<rparr>"

definition get_lower_bound :: "(rat \<Rightarrow> dbl) \<Rightarrow> point \<Rightarrow> dbl \<Rightarrow> point" where
  "get_lower_bound fl pt g = \<lparr>px = px pt, py = dsub fl (py pt) g\<rparr>"

datatype plr_phase = need2 | need1 | ready | finished

record GreedyPLR =
  plr_state :: plr_phase
  gamma :: dbl
  last_pt :: point
  s0 :: point
  s1 :: point
  rho_lower :: line
  rho_upper :: line
  sint :: point

definition GreedyPLR_new :: "GreedyPLR \<Rightarrow> dbl \<Rightarrow> GreedyPLR" where
  "GreedyPLR_new junk g = junk\<lparr>plr_state := need2, gamma := g\<rparr>"

definition GreedyPLR_setup :: "(rat \<Rightarrow> dbl) \<Rightarrow> GreedyPLR \<Rightarrow> bool \<times> GreedyPLR" where
  "GreedyPLR_setup fl this =
     (let this = this\<lparr>rho_lower := get_line fl (get_upper_bound fl (s0 this) (gamma this))
                                              (get_lower_bound fl (s1 this) (gamma this))\<rparr> in
      if \<not> LineCheck (rho_lower this) then (False, this)
      else
        (let this = this\<lparr>rho_upper := get_line fl (get_lower_bound fl (s0 this) (gamma this))
                                                 (get_upper_bound fl (s1 this) (gamma this))\<rparr> in
         if \<not> LineCheck (rho_upper this) then (False, this)
         else (True, this\<lparr>sint := get_intersetction fl (rho_upper this) (rho_lower this)\<rparr>)))"

definition current_segment :: "(rat \<Rightarrow> dbl) \<Rightarrow> GreedyPLR \<Rightarrow> Segment" where
  "current_segment fl this =
     (let segment_start = dbl_to_u64 (px (s0 this));
          avg_slope = ddiv fl (dadd fl (la (rho_lower this)) (la (rho_upper this))) (Fin 2);
          intercept = dadd fl (dmul fl (dneg avg_slope) (px (sint this))) (py (sint this))
      in \<lparr>seg_x = segment_start, seg_k = avg_slope, seg_b = intercept\<rparr>)"

definition null_segment :: Segment where
  "null_segment = \<lparr>seg_x = 0, seg_k = Fin 0, seg_b = Fin 0\<rparr>"

definition process_ready :: "(rat \<Rightarrow> dbl) \<Rightarrow> GreedyPLR \<Rightarrow> point \<Rightarrow> bool \<Rightarrow> Segment \<times> GreedyPLR" where
  "process_ready fl this pt file =
     (if \<not> (is_above fl pt (rho_lower this) \<and> is_below fl pt (rho_upper this)) then
        (let prev_segment = current_segment fl this in
         if \<not> file \<and> (ucast (dbl_to_u64 (py pt)) :: u32) mod 2 = 1 then
           (let this = this\<lparr>s0 := last_pt this\<rparr>;
                this = this\<lparr>s1 := pt\<rparr>;
                this = snd (GreedyPLR_setup fl this);
                this = this\<lparr>plr_state := ready\<rparr>
            in (prev_segment, this))
         else (prev_segment, this\<lparr>s0 := pt, plr_state := need1\<rparr>))
      else
        (let s_upper = get_upper_bound fl pt (gamma this);
             s_lower = get_lower_bound fl pt (gamma this);
             this = (if is_below fl s_upper (rho_upper this)
                     then this\<lparr>rho_upper := get_line fl (sint this) s_upper\<rparr> else this);
             this = (if is_above fl s_lower (rho_lower this)
                     then this\<lparr>rho_lower := get_line fl (sint this) s_lower\<rparr> else this)
         in (null_segment, this)))"

definition GreedyPLR_process :: "(rat \<Rightarrow> dbl) \<Rightarrow> GreedyPLR \<Rightarrow> point \<Rightarrow> bool \<Rightarrow> Segment \<times> GreedyPLR" where
  "GreedyPLR_process fl this pt file =
     (let s = null_segment;
          (s, this) =
            (case plr_state this of
               need2 \<Rightarrow> (s, this\<lparr>s0 := pt, plr_state := need1\<rparr>)
             | need1 \<Rightarrow>
                 (let this = this\<lparr>s1 := pt\<rparr>; (ok, this) = GreedyPLR_setup fl this
                  in if ok then (s, this\<lparr>plr_state := ready\<rparr>) else (s, this))
             | ready \<Rightarrow> process_ready fl this pt file
             | finished \<Rightarrow> (s, this))
      in (s, this\<lparr>last_pt := pt\<rparr>))"

definition GreedyPLR_finish :: "(rat \<Rightarrow> dbl) \<Rightarrow> GreedyPLR \<Rightarrow> Segment \<times> GreedyPLR" where
  "GreedyPLR_finish fl this =
     (case plr_state this of
        need2 \<Rightarrow> (null_segment, this\<lparr>plr_state := finished\<rparr>)
      | need1 \<Rightarrow>
          (\<lparr>seg_x = dbl_to_u64 (px (s0 this)), seg_k = Fin 0, seg_b = py (s0 this)\<rparr>,
           this\<lparr>plr_state := finished\<rparr>)
      | ready \<Rightarrow> (let this = this\<lparr>plr_state := finished\<rparr> in (current_segment fl this, this))
      | finished \<Rightarrow> (null_segment, this))"

definition keep_segment :: "Segment \<Rightarrow> bool" where
  "keep_segment seg \<longleftrightarrow> seg_x seg \<noteq> 0 \<or> dnonzero (seg_k seg) \<or> dnonzero (seg_b seg)"

text \<open>
  \<open>PLR::train\<close>: the loop over the keys, numbered from \<open>i\<close>. \<open>stoull\<close> may throw, which
  ends the training with \<open>None\<close>. For a level (\<open>file\<close> false) every tenth key the loop looks
  at \<open>compaction_awaiting\<close> and gives up with no segments; \<open>awaiting i\<close> is what it sees after
  key \<open>i\<close>.
\<close>

fun train_loop ::
    "(rat \<Rightarrow> dbl) \<Rightarrow> ('k \<Rightarrow> u64 option) \<Rightarrow> bool \<Rightarrow> (nat \<Rightarrow> bool) \<Rightarrow> nat \<Rightarrow> nat \<Rightarrow> GreedyPLR
      \<Rightarrow> Segment list \<Rightarrow> 'k list \<Rightarrow> Segment list option" where
  "train_loop fl stoull file awaiting count i plr segments [] =
     (let (last, plr) = GreedyPLR_finish fl plr in
      Some (if keep_segment last then segments @ [last] else segments))"
| "train_loop fl stoull file awaiting count i plr segments (key # keys) =
     (case stoull key of None \<Rightarrow> None
      | Some n \<Rightarrow>
         (let (seg, plr) = GreedyPLR_process fl plr \<lparr>px = u64_to_dbl fl n, py = Fin (of_nat i)\<rparr> file;
              segments = (if keep_segment seg then segments @ [seg] else segments);
              count = (if \<not> file then count + 1 else count)
          in if \<not> file \<and> count mod 10 = 0 \<and> awaiting i then Some []
             else train_loop fl stoull file awaiting count (i + 1) plr segments keys))"

definition PLR_train ::
    "(rat \<Rightarrow> dbl) \<Rightarrow> ('k \<Rightarrow> u64 option) \<Rightarrow> (nat \<Rightarrow> bool) \<Rightarrow> GreedyPLR \<Rightarrow> dbl \<Rightarrow> 'k list \<Rightarrow> bool
      \<Rightarrow> Segment list option" where
  "PLR_train fl stoull awaiting junk g keys file =
     train_loop fl stoull file awaiting 0 0 (GreedyPLR_new junk g) [] keys"

subsection \<open>Exact arithmetic keeps every point within gamma of its segment\<close>

abbreviation P :: "rat \<Rightarrow> rat \<Rightarrow> point" where
  "P x y \<equiv> \<lparr>px = Fin x, py = Fin y\<rparr>"

abbreviation L :: "rat \<Rightarrow> rat \<Rightarrow> line" where
  "L a b \<equiv> \<lparr>la = Fin a, lb = Fin b\<rparr>"

lemma get_line_exact:
  "x1 \<noteq> x2 \<Longrightarrow> get_line Fin (P x1 y1) (P x2 y2) = L ((y2 - y1) / (x2 - x1)) (- ((y2 - y1) / (x2 - x1)) * x1 + y1)"
  by (simp add: get_line_def get_slope_def Let_def)

lemma get_intersetction_exact:
  "a \<noteq> b \<Longrightarrow> get_intersetction Fin (L a c) (L b d) = P ((d - c) / (a - b)) ((a * d - b * c) / (a - b))"
  by (simp add: get_intersetction_def Let_def)

lemma bounds_exact:
  "get_upper_bound Fin (P x y) (Fin g) = P x (y + g)" "get_lower_bound Fin (P x y) (Fin g) = P x (y - g)"
  by (simp_all add: get_upper_bound_def get_lower_bound_def)

lemma above_below_exact:
  "is_above Fin (P x y) (L a b) \<longleftrightarrow> a * x + b < y" "is_below Fin (P x y) (L a b) \<longleftrightarrow> y < a * x + b"
  by (simp_all add: is_above_def is_below_def)

lemmas plr_exact = get_line_exact get_intersetction_exact bounds_exact above_below_exact

text \<open>
  The cone of a segment: both extreme lines meet at the apex \<open>(X, Y)\<close>, which lies after the first
  point and before all others, and both stay within \<open>g\<close> of every point.
\<close>

definition cone_at :: "rat \<Rightarrow> (rat \<times> rat) list \<Rightarrow> rat \<Rightarrow> rat \<Rightarrow> rat \<Rightarrow> rat \<Rightarrow> rat \<Rightarrow> rat \<Rightarrow> bool" where
  "cone_at g pts X Y l lo u up \<longleftrightarrow>
     l < u \<and> l * X + lo = Y \<and> u * X + up = Y \<and> pts \<noteq> []
     \<and> (case hd pts of (x0, y0) \<Rightarrow> x0 < X \<and> y0 < Y \<and> l * x0 + lo \<le> y0 + g \<and> y0 - g \<le> u * x0 + up)
     \<and> (\<forall>(x, y) \<in> set (tl pts). X < x \<and> y - g \<le> l * x + lo \<and> u * x + up \<le> y + g)"

definition cone :: "rat \<Rightarrow> (rat \<times> rat) list \<Rightarrow> GreedyPLR \<Rightarrow> bool" where
  "cone g pts st \<longleftrightarrow>
     gamma st = Fin g
     \<and> (\<exists>X Y l lo u up. sint st = P X Y \<and> rho_lower st = L l lo \<and> rho_upper st = L u up
          \<and> s0 st = P (fst (hd pts)) (snd (hd pts)) \<and> cone_at g pts X Y l lo u up)"

lemma setup_cone:
  assumes "s0 st = P x0 y0" and "s1 st = P x1 y1" and "gamma st = Fin g" and "x0 < x1" and "y0 < y1" and "0 < g"
  shows "\<exists>st'. GreedyPLR_setup Fin st = (True, st') \<and> plr_state st' = plr_state st
    \<and> cone g [(x0, y0), (x1, y1)] st'"
proof -
  define d where "d = x1 - x0"
  define l where "l = ((y1 - g) - (y0 + g)) / d"
  define u where "u = ((y1 + g) - (y0 - g)) / d"
  define lo where "lo = - l * x0 + (y0 + g)"
  define up where "up = - u * x0 + (y0 - g)"
  define X where "X = (lo - up) / (u - l)"
  define Y where "Y = (u * lo - l * up) / (u - l)"
  have d: "0 < d" and x1: "x1 = x0 + d" using assms(4) by (simp_all add: d_def)
  have ld: "l * d = y1 - y0 - 2 * g" and ud: "u * d = y1 - y0 + 2 * g"
    using d by (simp_all add: l_def u_def)
  have "(u - l) * d = 4 * g" using ld ud by (simp add: algebra_simps)
  then have lt: "l < u" using d assms(6)
    by (metis add_less_same_cancel2 diff_gt_0_iff_gt linorder_not_less mult_nonneg_nonpos2 zero_less_mult_pos2 mult_pos_pos zero_less_numeral)
  have lu: "lo - up = (u - l) * x0 + 2 * g" by (simp add: lo_def up_def algebra_simps)
  have "lo - up = (u - l) * (x0 + d / 2)"
    using lu \<open>(u - l) * d = 4 * g\<close> by (simp add: algebra_simps)
  then have X: "X = x0 + d / 2" using lt by (simp add: X_def)
  have lX: "l * X + lo = Y" and uX: "u * X + up = Y"
    using lt by (simp_all add: X_def Y_def field_simps)
  have "x0 \<noteq> x1" using assms(4) by simp
  then have "get_line Fin (P x0 (y0 + g)) (P x1 (y1 - g)) = L l lo"
    and "get_line Fin (P x0 (y0 - g)) (P x1 (y1 + g)) = L u up"
    by (simp_all add: get_line_exact l_def lo_def u_def up_def d_def)
  moreover have "get_intersetction Fin (L u up) (L l lo) = P X Y"
    using lt by (simp add: get_intersetction_exact X_def Y_def)
  ultimately have S: "GreedyPLR_setup Fin st = (True, st\<lparr>rho_lower := L l lo, rho_upper := L u up, sint := P X Y\<rparr>)"
    using assms(1-3) by (simp add: GreedyPLR_setup_def Let_def bounds_exact LineCheck_def disnan_def)
  have "cone_at g [(x0, y0), (x1, y1)] X Y l lo u up"
    using lt lX uX X d ld ud assms(5,6) by (simp add: cone_at_def x1 lo_def up_def algebra_simps)
  then show ?thesis using S assms(1,3) by (simp add: cone_def)
qed

lemma cone_at_narrow:
  assumes c: "cone_at g pts X Y l lo u up" and g: "0 < g" and X: "X < x"
    and in1: "l * x + lo < y" and in2: "y < u * x + up"
    and u': "u' * (x - X) = (if y + g < u * x + up then y + g - Y else u * (x - X))"
    and l': "l' * (x - X) = (if l * x + lo < y - g then y - g - Y else l * (x - X))"
  shows "cone_at g (pts @ [(x, y)]) X Y l' (Y - l' * X) u' (Y - u' * X)"
proof -
  have at: "l * X + lo = Y" "u * X + up = Y" "l < u" using c by (auto simp: cone_at_def)
  have ux: "u' * (x - X) + Y = min (y + g) (u * x + up)" and lx: "l' * (x - X) + Y = max (y - g) (l * x + lo)"
    using u' l' at by (auto simp: algebra_simps min_def max_def split: if_splits)
  have "l' * (x - X) + Y < u' * (x - X) + Y" using ux lx in1 in2 g by simp
  then have lt: "l' < u'" using X by simp
  have "u' * (x - X) \<le> u * (x - X)" "l * (x - X) \<le> l' * (x - X)"
    using ux lx at by (auto simp: algebra_simps)
  then have uu: "u' \<le> u" and ll: "l \<le> l'" using X by simp_all
  obtain x0 y0 ps where pts: "pts = (x0, y0) # ps" using c by (cases pts) (auto simp: cone_at_def)
  have c0: "x0 < X" "y0 < Y" "l * x0 + lo \<le> y0 + g" "y0 - g \<le> u * x0 + up"
    and c1: "\<forall>(x, y) \<in> set ps. X < x \<and> y - g \<le> l * x + lo \<and> u * x + up \<le> y + g"
    using c by (simp_all add: cone_at_def pts)
  have right: "y' - g \<le> l' * x' + (Y - l' * X) \<and> u' * x' + (Y - u' * X) \<le> y' + g"
    if "X < x'" "y' - g \<le> l * x' + lo" "u * x' + up \<le> y' + g" for x' y'
  proof -
    have "u' * (x' - X) \<le> u * (x' - X)" "l * (x' - X) \<le> l' * (x' - X)" using uu ll that(1) by simp_all
    then show ?thesis using that at by (simp add: algebra_simps)
  qed
  have "u * (x0 - X) \<le> u' * (x0 - X)" "l' * (x0 - X) \<le> l * (x0 - X)"
    using uu ll c0(1) by (simp_all add: mult_right_mono_neg)
  then have "l' * x0 + (Y - l' * X) \<le> y0 + g" "y0 - g \<le> u' * x0 + (Y - u' * X)"
    using c0 at by (simp_all add: algebra_simps)
  moreover have "y - g \<le> l' * x + (Y - l' * X)" "u' * x + (Y - u' * X) \<le> y + g"
    using ux lx by (simp_all add: algebra_simps)
  ultimately show ?thesis
    using lt X c0(1,2) c1 right by (auto simp: cone_at_def pts)
qed

lemma cone_inside:
  assumes "cone g pts st" and "0 < g" and "\<forall>(x', y') \<in> set pts. x' < x" and "2 \<le> length pts"
    and "is_above Fin (P x y) (rho_lower st)" and "is_below Fin (P x y) (rho_upper st)"
  shows "\<exists>st'. process_ready Fin st (P x y) file = (null_segment, st') \<and> plr_state st' = plr_state st
    \<and> cone g (pts @ [(x, y)]) st'"
proof -
  from assms(1) obtain X Y l lo u up where st: "gamma st = Fin g" "sint st = P X Y" "rho_lower st = L l lo"
      "rho_upper st = L u up" "s0 st = P (fst (hd pts)) (snd (hd pts))" and c: "cone_at g pts X Y l lo u up"
    by (auto simp: cone_def)
  obtain p1 p2 ps where pts: "pts = p1 # p2 # ps"
    using assms(4) by (cases pts; cases "tl pts") auto
  have X: "X < x" using c assms(3) by (auto simp: cone_at_def pts)
  have inside: "l * x + lo < y" "y < u * x + up"
    using assms(5,6) st by (simp_all add: plr_exact)
  have apex: "lo = Y - l * X" "up = Y - u * X" using c by (auto simp: cone_at_def)
  define u' where "u' = (if y + g < u * x + up then (y + g - Y) / (x - X) else u)"
  define l' where "l' = (if l * x + lo < y - g then (y - g - Y) / (x - X) else l)"
  have "process_ready Fin st (P x y) file
      = (null_segment, st\<lparr>rho_upper := L u' (Y - u' * X), rho_lower := L l' (Y - l' * X)\<rparr>)"
    using assms(5,6) st X apex by (simp add: process_ready_def Let_def plr_exact u'_def l'_def)
  moreover have "cone_at g (pts @ [(x, y)]) X Y l' (Y - l' * X) u' (Y - u' * X)"
    using X by (intro cone_at_narrow [OF c assms(2) X inside]) (simp_all add: u'_def l'_def)
  ultimately show ?thesis using st pts by (simp add: cone_def)
qed

lemma slope_between:
  assumes "l \<le> k" and "k \<le> u" and "l * X + lo = Y" and "u * X + up = Y"
  shows "X < x \<Longrightarrow> y - g \<le> l * x + lo \<Longrightarrow> u * x + up \<le> y + g \<Longrightarrow> \<bar>k * x + (Y - k * X) - y\<bar> \<le> (g :: rat)"
    and "x < X \<Longrightarrow> l * x + lo \<le> y + g \<Longrightarrow> y - g \<le> u * x + up \<Longrightarrow> \<bar>k * x + (Y - k * X) - y\<bar> \<le> g"
proof -
  assume x: "X < x" and b: "y - g \<le> l * x + lo" "u * x + up \<le> y + g"
  have "0 \<le> (k - l) * (x - X)" "0 \<le> (u - k) * (x - X)" using assms x by simp_all
  then show "\<bar>k * x + (Y - k * X) - y\<bar> \<le> g" using b assms(3,4) by (simp add: abs_le_iff algebra_simps)
next
  assume x: "x < X" and b: "l * x + lo \<le> y + g" "y - g \<le> u * x + up"
  have "(k - l) * (x - X) \<le> 0" "(u - k) * (x - X) \<le> 0" using assms x by (simp_all add: mult_nonneg_nonpos)
  then show "\<bar>k * x + (Y - k * X) - y\<bar> \<le> g" using b assms(3,4) by (simp add: abs_le_iff algebra_simps)
qed

lemma current_segment_fits:
  assumes "cone g pts st"
  shows "\<exists>k b. current_segment Fin st = \<lparr>seg_x = dbl_to_u64 (Fin (fst (hd pts))), seg_k = Fin k, seg_b = Fin b\<rparr>
     \<and> (\<forall>(x, y) \<in> set pts. \<bar>k * x + b - y\<bar> \<le> g) \<and> (0 \<le> snd (hd pts) \<longrightarrow> k \<noteq> 0 \<or> b \<noteq> 0)"
proof -
  from assms obtain X Y l lo u up where st: "sint st = P X Y" "rho_lower st = L l lo"
      "rho_upper st = L u up" "s0 st = P (fst (hd pts)) (snd (hd pts))" and c: "cone_at g pts X Y l lo u up"
    by (auto simp: cone_def)
  define k where "k = (l + u) / 2"
  have k: "l \<le> k" "k \<le> u" and at: "l * X + lo = Y" "u * X + up = Y"
    using c by (auto simp: k_def cone_at_def)
  have S: "current_segment Fin st = \<lparr>seg_x = dbl_to_u64 (Fin (fst (hd pts))), seg_k = Fin k, seg_b = Fin (Y - k * X)\<rparr>"
    using st by (simp add: current_segment_def Let_def k_def)
  obtain x0 y0 ps where pts: "pts = (x0, y0) # ps" using c by (cases pts) (auto simp: cone_at_def)
  have "\<bar>k * x0 + (Y - k * X) - y0\<bar> \<le> g"
    using slope_between(2) [OF k at] c by (simp add: cone_at_def pts)
  moreover have "\<forall>(x, y) \<in> set ps. \<bar>k * x + (Y - k * X) - y\<bar> \<le> g"
    using slope_between(1) [OF k at] c by (auto simp: cone_at_def pts)
  moreover have "0 \<le> snd (hd pts) \<longrightarrow> k \<noteq> 0 \<or> Y - k * X \<noteq> 0"
    using c by (auto simp: cone_at_def pts)
  ultimately show ?thesis using S by (auto simp: pts)
qed

subsection \<open>The training loop covers all points\<close>

definition segment_fits :: "rat \<Rightarrow> Segment \<Rightarrow> (rat \<times> rat) list \<Rightarrow> bool" where
  "segment_fits g s grp \<longleftrightarrow>
     grp \<noteq> [] \<and> seg_x s = dbl_to_u64 (Fin (fst (hd grp)))
     \<and> (\<exists>k b. seg_k s = Fin k \<and> seg_b s = Fin b \<and> (\<forall>(x, y) \<in> set grp. \<bar>k * x + b - y\<bar> \<le> g))"

definition plr_inv :: "rat \<Rightarrow> GreedyPLR \<Rightarrow> (rat \<times> rat) list \<Rightarrow> bool" where
  "plr_inv g st cur \<longleftrightarrow> gamma st = Fin g \<and>
     (plr_state st = need1 \<and> (\<exists>x y. cur = [(x, y)] \<and> s0 st = P x y)
      \<or> plr_state st = ready \<and> cone g cur st \<and> 2 \<le> length cur)"

lemma cone_last_pt [simp]: "cone g pts (st\<lparr>last_pt := q\<rparr>) = cone g pts st"
  by (simp add: cone_def)

lemma cone_state [simp]: "cone g pts (st\<lparr>plr_state := q\<rparr>) = cone g pts st"
  by (simp add: cone_def)

lemma plr_inv_last_pt [simp]: "plr_inv g (st\<lparr>last_pt := q\<rparr>) pts = plr_inv g st pts"
  by (simp add: plr_inv_def)

lemma current_segment_state [simp]: "current_segment fl (st\<lparr>plr_state := q\<rparr>) = current_segment fl st"
  by (simp add: current_segment_def)

lemma current_segment_kept:
  assumes "cone g pts st" and "0 \<le> snd (hd pts)"
  shows "segment_fits g (current_segment Fin st) pts \<and> keep_segment (current_segment Fin st)"
  using current_segment_fits [OF assms(1)] assms
  by (auto simp: segment_fits_def keep_segment_def dnonzero_def cone_def cone_at_def)

lemma process_step:
  assumes "plr_inv g st cur" and "0 < g" and "\<forall>(x', y') \<in> set cur. x' < x \<and> y' < y" and "0 \<le> snd (hd cur)"
  shows "\<exists>s st'. GreedyPLR_process Fin st (P x y) True = (s, st') \<and>
     (s = null_segment \<and> plr_inv g st' (cur @ [(x, y)])
      \<or> keep_segment s \<and> segment_fits g s cur \<and> plr_inv g st' [(x, y)])"
proof (cases "plr_state st")
  case need1
  then obtain x0 y0 where cur: "cur = [(x0, y0)]" and s0: "s0 st = P x0 y0" and gm: "gamma st = Fin g"
    using assms(1) by (auto simp: plr_inv_def)
  have "\<exists>st'. GreedyPLR_setup Fin (st\<lparr>s1 := P x y\<rparr>) = (True, st')
      \<and> plr_state st' = plr_state (st\<lparr>s1 := P x y\<rparr>) \<and> cone g [(x0, y0), (x, y)] st'"
    by (rule setup_cone) (use assms(2,3) cur s0 gm in simp_all)
  then obtain st' where "GreedyPLR_setup Fin (st\<lparr>s1 := P x y\<rparr>) = (True, st')" "cone g [(x0, y0), (x, y)] st'"
    by auto
  then show ?thesis using need1 cur
    by (auto simp: GreedyPLR_process_def plr_inv_def Let_def cone_def)
next
  case ready
  then have c: "cone g cur st" "2 \<le> length cur" "gamma st = Fin g" using assms(1) by (auto simp: plr_inv_def)
  show ?thesis
  proof (cases "is_above Fin (P x y) (rho_lower st) \<and> is_below Fin (P x y) (rho_upper st)")
    case True
    then obtain st' where "process_ready Fin st (P x y) True = (null_segment, st')" "plr_state st' = plr_state st"
        "cone g (cur @ [(x, y)]) st'"
      using cone_inside [OF c(1) assms(2) _ c(2), of x y True] assms(3) by fastforce
    then show ?thesis using ready c
      by (auto simp: GreedyPLR_process_def plr_inv_def Let_def cone_def)
  next
    case False
    have "process_ready Fin st (P x y) True = (current_segment Fin st, st\<lparr>s0 := P x y, plr_state := need1\<rparr>)"
      using False by (auto simp: process_ready_def Let_def)
    then show ?thesis using ready current_segment_kept [OF c(1) assms(4)] c(3)
      by (auto simp: GreedyPLR_process_def plr_inv_def Let_def)
  qed
qed (use assms(1) in \<open>auto simp: plr_inv_def\<close>)

lemma finish_fits:
  assumes "plr_inv g st cur" and "0 \<le> snd (hd cur)" and "0 < g"
    and "case last cur of (x, y) \<Rightarrow> dbl_to_u64 (Fin x) \<noteq> 0 \<or> y \<noteq> 0"
  shows "\<exists>s st'. GreedyPLR_finish Fin st = (s, st') \<and> keep_segment s \<and> segment_fits g s cur"
proof (cases "plr_state st")
  case need1
  then show ?thesis using assms
    by (auto simp: plr_inv_def GreedyPLR_finish_def keep_segment_def segment_fits_def dnonzero_def)
next
  case ready
  then show ?thesis using assms current_segment_kept [of g cur st]
    by (auto simp: plr_inv_def GreedyPLR_finish_def Let_def)
qed (use assms(1) in \<open>auto simp: plr_inv_def\<close>)

fun plr_points :: "nat \<Rightarrow> u64 list \<Rightarrow> (rat \<times> rat) list" where
  "plr_points i [] = []"
| "plr_points i (n # ns) = (of_int (uint n), of_nat i) # plr_points (i + 1) ns"

definition strict_points :: "(rat \<times> rat) list \<Rightarrow> bool" where
  "strict_points pts \<longleftrightarrow> sorted_wrt (\<lambda>(x, y) (x', y'). x < x' \<and> y < y') pts \<and> (\<forall>(x, y) \<in> set pts. 0 \<le> y)"

lemma train_loop_covers:
  assumes "map stoull keys = map Some ns" and "plr_inv g st cur" and "0 < g" and "cur \<noteq> []"
    and "strict_points (cur @ plr_points i ns)"
    and "case last (cur @ plr_points i ns) of (x, y) \<Rightarrow> dbl_to_u64 (Fin x) \<noteq> 0 \<or> y \<noteq> 0"
    and "list_all2 (segment_fits g) segs groups"
  shows "\<exists>segs' groups'. train_loop Fin stoull True awaiting count i st segs keys = Some segs'
    \<and> concat groups' = concat groups @ cur @ plr_points i ns \<and> list_all2 (segment_fits g) segs' groups'"
  using assms
proof (induction ns arbitrary: keys st cur i segs groups)
  case Nil
  then have "keys = []" by simp
  have "0 \<le> snd (hd cur)" using Nil.prems by (cases cur) (auto simp: strict_points_def)
  then obtain s st' where "GreedyPLR_finish Fin st = (s, st')" "keep_segment s" "segment_fits g s cur"
    using finish_fits [OF Nil.prems(2) _ Nil.prems(3)] Nil.prems by auto
  then show ?case using Nil.prems(7) \<open>keys = []\<close>
    by (intro exI [of _ "segs @ [s]"] exI [of _ "groups @ [cur]"]) (simp add: list_all2_appendI)
next
  case (Cons n ns)
  then obtain k ks where keys: "keys = k # ks" "stoull k = Some n" "map stoull ks = map Some ns"
    by (cases keys) auto
  let ?p = "(of_int (uint n), of_nat i) :: rat \<times> rat"
  have hd: "0 \<le> snd (hd cur)" using Cons.prems by (cases cur) (auto simp: strict_points_def)
  have lt: "\<forall>(x', y') \<in> set cur. x' < of_int (uint n) \<and> y' < of_nat i"
    using Cons.prems(5) by (fastforce simp: strict_points_def sorted_wrt_append)
  obtain s st' where pr: "GreedyPLR_process Fin st (P (of_int (uint n)) (of_nat i)) True = (s, st')"
    and alt: "s = null_segment \<and> plr_inv g st' (cur @ [?p])
      \<or> keep_segment s \<and> segment_fits g s cur \<and> plr_inv g st' [?p]"
    using process_step [OF Cons.prems(2,3) lt hd] by blast
  from alt show ?case
  proof
    assume a: "s = null_segment \<and> plr_inv g st' (cur @ [?p])"
    then show ?thesis
      using Cons.IH [of ks st' "cur @ [?p]" "i + 1" segs groups] Cons.prems keys pr
      by (simp add: u64_to_dbl_def keep_segment_def null_segment_def dnonzero_def)
  next
    assume a: "keep_segment s \<and> segment_fits g s cur \<and> plr_inv g st' [?p]"
    have "strict_points ([?p] @ plr_points (i + 1) ns)"
      using Cons.prems(5) by (auto simp: strict_points_def sorted_wrt_append)
    moreover have "list_all2 (segment_fits g) (segs @ [s]) (groups @ [cur])"
      using Cons.prems(7) a by (simp add: list_all2_appendI)
    ultimately show ?thesis
      using Cons.IH [of ks st' "[?p]" "i + 1" "segs @ [s]" "groups @ [cur]"] Cons.prems keys pr a
      by (simp add: u64_to_dbl_def)
  qed
qed

lemma dbl_to_u64_uint [simp]: "dbl_to_u64 (Fin (of_int (uint n))) = n"
  by (simp add: word_of_int_uint)

lemma uint_less_rat: "(of_int (uint a) :: rat) < of_int (uint b) \<longleftrightarrow> a < (b :: u64)"
  by (simp add: word_less_def)

lemma plr_points_snd: "(x, y) \<in> set (plr_points i ns) \<Longrightarrow> of_nat i \<le> y"
  by (induction i ns rule: plr_points.induct) fastforce+

lemma plr_points_fst: "(x, y) \<in> set (plr_points i ns) \<Longrightarrow> \<exists>n \<in> set ns. x = of_int (uint n)"
  by (induction i ns rule: plr_points.induct) auto

lemma strict_points_plr_points: "sorted_wrt (<) ns \<Longrightarrow> strict_points (plr_points i ns)"
proof (induction i ns rule: plr_points.induct)
  case (2 i n ns)
  have "of_int (uint n) < x \<and> of_nat i < y" if xy: "(x, y) \<in> set (plr_points (i + 1) ns)" for x y
  proof -
    obtain m where "m \<in> set ns" "x = of_int (uint m)" using plr_points_fst xy by blast
    moreover have "of_nat i < y" using plr_points_snd [OF xy] by simp
    ultimately show ?thesis using "2.prems" by (auto simp: word_less_def)
  qed
  moreover have "strict_points (plr_points (i + 1) ns)" using "2.IH" "2.prems" by simp
  ultimately show ?case by (auto simp: strict_points_def)
qed (simp add: strict_points_def)

lemma plr_points_Nil [simp]: "plr_points i ns = [] \<longleftrightarrow> ns = []"
  by (cases ns) simp_all

lemma last_plr_points: "ns \<noteq> [] \<Longrightarrow> last (plr_points i ns) = (of_int (uint (last ns)), of_nat (i + length ns - 1))"
  by (induction i ns rule: plr_points.induct) auto

lemma length_plr_points [simp]: "length (plr_points i ns) = length ns"
  by (induction i ns rule: plr_points.induct) auto

lemma nth_plr_points: "j < length ns \<Longrightarrow> plr_points i ns ! j = (of_int (uint (ns ! j)), of_nat (i + j))"
  by (induction i ns arbitrary: j rule: plr_points.induct) (auto simp: nth_Cons split: nat.splits)

lemma PLR_train_covers:
  assumes "map stoull keys = map Some ns" and "sorted_wrt (<) ns" and "ns \<noteq> []" and "ns \<noteq> [0]" and "0 < g"
  shows "\<exists>segs groups. PLR_train Fin stoull awaiting junk (Fin g) keys True = Some segs
    \<and> concat groups = plr_points 0 ns \<and> list_all2 (segment_fits g) segs groups"
proof -
  obtain n ns' where ns: "ns = n # ns'" using assms(3) by (cases ns) auto
  then obtain k ks where keys: "keys = k # ks" "stoull k = Some n" "map stoull ks = map Some ns'"
    using assms(1) by (cases keys) auto
  let ?p = "(of_int (uint n), 0) :: rat \<times> rat"
  let ?st = "(GreedyPLR_new junk (Fin g))\<lparr>s0 := P (of_int (uint n)) 0, plr_state := need1, last_pt := P (of_int (uint n)) 0\<rparr>"
  have inv: "plr_inv g ?st [?p]" by (simp add: plr_inv_def GreedyPLR_new_def)
  have sp: "strict_points ([?p] @ plr_points 1 ns')"
    using strict_points_plr_points [OF assms(2), of 0] ns by simp
  have "ns' = [] \<Longrightarrow> n \<noteq> 0" using assms(4) ns by auto
  then have last: "case last ([?p] @ plr_points 1 ns') of (x, y) \<Rightarrow> dbl_to_u64 (Fin x) \<noteq> 0 \<or> y \<noteq> 0"
    by (cases ns') (simp_all add: last_plr_points word_of_int_uint)
  have "PLR_train Fin stoull awaiting junk (Fin g) keys True
      = train_loop Fin stoull True awaiting 0 1 ?st [] ks"
    using keys by (simp add: PLR_train_def GreedyPLR_process_def GreedyPLR_new_def u64_to_dbl_def
        keep_segment_def null_segment_def dnonzero_def)
  then show ?thesis
    using train_loop_covers [OF keys(3) inv assms(5) _ sp last, of "[]" "[]"] ns by simp
qed


definition junk_plr :: GreedyPLR where
  "junk_plr = \<lparr>plr_state = finished, gamma = NaN, last_pt = \<lparr>px = NaN, py = NaN\<rparr>,
     s0 = \<lparr>px = NaN, py = NaN\<rparr>, s1 = \<lparr>px = NaN, py = NaN\<rparr>, rho_lower = \<lparr>la = NaN, lb = NaN\<rparr>,
     rho_upper = \<lparr>la = NaN, lb = NaN\<rparr>, sint = \<lparr>px = NaN, py = NaN\<rparr>\<rparr>"


end
