(* ===== verification/LearnedIndex.thy ===== *)
theory LearnedIndex
  imports Plr KeyNumbers Comparator
begin

section \<open>The learned index (mod/learned_index.h, mod/learned_index.cpp)\<close>

text \<open>
  A \<open>LearnedIndexData\<close> is a file model or a level model: the segments of the regression, the range
  of keys they cover, and flags that say how far learning is. The mutable members that a lookup or
  a learning run writes are threaded through explicitly. What the other threads do is an argument:
  the versions and the compaction flag a learning run observes, and what filling the keys from the
  table returns.
\<close>

record AccumulatedNumEntriesArray =
  acc_array :: "(u64 \<times> bytes) list"

definition Acc_Add :: "AccumulatedNumEntriesArray \<Rightarrow> u64 \<Rightarrow> bytes \<Rightarrow> AccumulatedNumEntriesArray" where
  "Acc_Add this num_entries key = this\<lparr>acc_array := acc_array this @ [(num_entries, key)]\<rparr>"

definition Acc_NumEntries :: "AccumulatedNumEntriesArray \<Rightarrow> u64" where
  "Acc_NumEntries this = (if acc_array this = [] then 0 else fst (last (acc_array this)))"

record LearnedIndexData =
  li_error :: dbl
  li_learned :: bool
  li_aborted :: bool
  li_learned_not_atomic :: bool
  li_learning :: bool
  li_allowed_seek :: int
  li_current_seek :: int
  li_filled :: bool
  li_is_level :: bool
  string_segments :: "Segment list"
  min_key :: u64
  max_key :: u64
  li_size :: u64
  string_keys :: "bytes list"
  num_entries_accumulated :: AccumulatedNumEntriesArray
  li_level :: int
  li_served :: int
  li_cost :: u64

definition file_model_error :: u32 where "file_model_error = 10"
definition level_model_error :: u32 where "level_model_error = 1"

text \<open>The constructor leaves the bounds and the size of the model uninitialised.\<close>

definition LearnedIndexData_new :: "u64 \<times> u64 \<times> u64 \<Rightarrow> int \<Rightarrow> bool \<Rightarrow> LearnedIndexData" where
  "LearnedIndexData_new junk allowed_seek level_model =
     \<lparr>li_error = Fin (of_int (uint (if level_model then level_model_error else file_model_error))),
      li_learned = False, li_aborted = False, li_learned_not_atomic = False, li_learning = False,
      li_allowed_seek = allowed_seek, li_current_seek = 0, li_filled = False, li_is_level = level_model,
      string_segments = [], min_key = fst junk, max_key = fst (snd junk), li_size = snd (snd junk),
      string_keys = [], num_entries_accumulated = \<lparr>acc_array = []\<rparr>, li_level = 0, li_served = 0,
      li_cost = 0\<rparr>"

subsection \<open>Prediction\<close>

function segment_search :: "Segment list \<Rightarrow> u64 \<Rightarrow> nat \<Rightarrow> nat \<Rightarrow> nat" where
  "segment_search segs target_int left right =
     (if left < right \<and> left \<noteq> right - 1 then
        (let mid = (right + left) div 2 in
         if target_int < seg_x (segs ! mid) then segment_search segs target_int left mid
         else segment_search segs target_int mid right)
      else left)"
  by pat_completeness auto
termination
  by (relation "measure (\<lambda>(segs, t, left, right). right - left)") auto

declare segment_search.simps [simp del]

definition GetPosition ::
    "(rat \<Rightarrow> dbl) \<Rightarrow> LearnedIndexData \<Rightarrow> bytes \<Rightarrow> ((u64 \<times> u64) \<times> LearnedIndexData) option" where
  "GetPosition fl this target_x =
     (if \<not> (1 < length (string_segments this)) then None
      else
        (let this = this\<lparr>li_served := li_served this + 1\<rparr>;
             size = li_size this;
             target_int = SliceToInteger target_x
         in if max_key this < target_int then Some ((size, size), this)
            else if target_int < min_key this then Some ((size, size), this)
            else
              (let left = segment_search (string_segments this) target_int 0
                            (length (string_segments this) - 1);
                   seg = string_segments this ! left;
                   result = dadd fl (dmul fl (u64_to_dbl fl target_int) (seg_k seg)) (seg_b seg);
                   result = (if li_is_level this then ddiv fl result (Fin 2) else result);
                   lower = (if dlt (Fin 0) (dsub fl result (li_error this))
                            then dbl_to_u64 (dfloor (dsub fl result (li_error this))) else 0);
                   upper = dbl_to_u64 (dceil (dadd fl result (li_error this)))
               in if size \<le> lower then Some ((size, size), this)
                  else Some ((lower, if upper < size then upper else size - 1), this))))"

definition MaxPosition :: "LearnedIndexData \<Rightarrow> u64" where
  "MaxPosition this = li_size this - 1"

definition GetError :: "LearnedIndexData \<Rightarrow> dbl" where
  "GetError this = li_error this"

subsection \<open>Learning\<close>

definition Learn ::
    "(rat \<Rightarrow> dbl) \<Rightarrow> (nat \<Rightarrow> bool) \<Rightarrow> GreedyPLR \<Rightarrow> LearnedIndexData \<Rightarrow> (bool \<times> LearnedIndexData) option" where
  "Learn fl awaiting junk this =
     (if string_keys this = [] then None
      else
        (let temp = atoll (last (string_keys this));
             this = this\<lparr>min_key := atoll (hd (string_keys this)),
                         max_key := atoll (last (string_keys this)),
                         li_size := of_nat (length (string_keys this))\<rparr>
         in case PLR_train fl stoull awaiting junk (li_error this) (string_keys this) (\<not> li_is_level this) of
              None \<Rightarrow> None
            | Some segs \<Rightarrow>
                if segs = [] then Some (False, this)
                else Some (True,
                  this\<lparr>string_segments := segs @ [\<lparr>seg_x = temp, seg_k = Fin 0, seg_b = Fin 0\<rparr>],
                       li_learned := True\<rparr>)))"

definition Learned :: "LearnedIndexData \<Rightarrow> bool \<times> LearnedIndexData" where
  "Learned this =
     (if li_learned_not_atomic this then (True, this)
      else if li_learned this then (True, this\<lparr>li_learned_not_atomic := True\<rparr>)
      else (False, this))"

text \<open>
  \<open>LevelLearn\<close>: \<open>v_count\<close> is the version the job was scheduled for, \<open>count1\<close> and \<open>count2\<close>
  the version counts it sees at its two checks, \<open>awaiting0\<close> the compaction flag before learning,
  \<open>fill\<close> the result of \<open>Version::FillLevel\<close> and \<open>elapsed\<close> the time the timer reports. The
  result holds whether a learning event is recorded and with which outcome.
\<close>

definition LevelLearn ::
    "(rat \<Rightarrow> dbl) \<Rightarrow> (nat \<Rightarrow> bool) \<Rightarrow> GreedyPLR \<Rightarrow> (LearnedIndexData \<Rightarrow> LearnedIndexData option)
      \<Rightarrow> int \<Rightarrow> int \<Rightarrow> int \<Rightarrow> int \<Rightarrow> bool \<Rightarrow> u64 \<Rightarrow> LearnedIndexData
      \<Rightarrow> (bool option \<times> LearnedIndexData) option" where
  "LevelLearn fl awaiting junk fill level v_count count1 count2 awaiting0 elapsed self =
     (let self = self\<lparr>li_is_level := True, li_level := level\<rparr> in
      if count1 = v_count then
        (case fill self of
           None \<Rightarrow> Some (Some False, self\<lparr>li_cost := elapsed\<rparr>)
         | Some self \<Rightarrow>
            (let self = self\<lparr>li_filled := True\<rparr> in
             if count2 = v_count then
               (if \<not> awaiting0 then
                  (case Learn fl awaiting junk self of None \<Rightarrow> None
                   | Some (ok, self) \<Rightarrow>
                      (let self = (if ok then self else self\<lparr>li_learning := False\<rparr>)
                       in Some (Some ok, self\<lparr>li_cost := elapsed\<rparr>)))
                else Some (Some False, self\<lparr>li_learning := False, li_cost := elapsed\<rparr>))
             else Some (Some False, self\<lparr>li_cost := elapsed\<rparr>)))
      else Some (None, self))"

text \<open>\<open>FileLearn\<close>: the event of an entered run always says it succeeded.\<close>

definition FileLearn ::
    "(rat \<Rightarrow> dbl) \<Rightarrow> (nat \<Rightarrow> bool) \<Rightarrow> GreedyPLR \<Rightarrow> (LearnedIndexData \<Rightarrow> LearnedIndexData option)
      \<Rightarrow> int \<Rightarrow> u64 \<Rightarrow> LearnedIndexData \<Rightarrow> (u64 \<times> LearnedIndexData) option" where
  "FileLearn fl awaiting junk fill level elapsed self =
     (let self = self\<lparr>li_level := level\<rparr> in
      case fill self of
        None \<Rightarrow> Some (0, self\<lparr>li_learning := False\<rparr>)
      | Some self \<Rightarrow>
          (case Learn fl awaiting junk self of None \<Rightarrow> None
           | Some (_, self) \<Rightarrow> Some (elapsed, self\<lparr>li_cost := elapsed\<rparr>)))"

subsection \<open>The table of file models\<close>

type_synonym FileLearnedIndexData = "LearnedIndexData option list"

definition GetModel ::
    "u64 \<times> u64 \<times> u64 \<Rightarrow> int \<Rightarrow> FileLearnedIndexData \<Rightarrow> nat \<Rightarrow> LearnedIndexData \<times> FileLearnedIndexData" where
  "GetModel junk file_allowed_seek data number =
     (let data = (if length data \<le> number then data @ replicate (number + 1 - length data) None else data) in
      case data ! number of
        Some m \<Rightarrow> (m, data)
      | None \<Rightarrow> (let m = LearnedIndexData_new junk file_allowed_seek False in (m, data[number := Some m])))"

subsection \<open>Positions of a level model to files\<close>

text \<open>
  \<open>adgMod::operator<=\<close> compares as many bytes as the slice has with the characters of the string,
  its terminating zero included.
\<close>

definition slice_le :: "bytes \<Rightarrow> bytes \<Rightarrow> bool" where
  "slice_le s str \<longleftrightarrow> memcmp s (take (length s) (str @ [0])) \<le> 0"

function acc_search :: "(u64 \<times> bytes) list \<Rightarrow> u64 \<Rightarrow> nat \<Rightarrow> nat \<Rightarrow> nat" where
  "acc_search array lower left right =
     (if left < right then
        (let mid = (left + right) div 2 in
         if lower < fst (array ! mid) then acc_search array lower left mid
         else acc_search array lower (mid + 1) right)
      else left)"
  by pat_completeness auto
termination
  by (relation "measure (\<lambda>(a, l, left, right). right - left)") auto

declare acc_search.simps [simp del]

function acc_scan :: "(u64 \<times> bytes) list \<Rightarrow> bytes \<Rightarrow> u64 \<Rightarrow> nat \<Rightarrow> (u64 \<times> nat) option" where
  "acc_scan array key lower pos =
     (if length array \<le> pos then None
      else if slice_le key (snd (array ! pos)) then Some (lower, pos)
      else acc_scan array key (fst (array ! pos)) (pos + 1))"
  by pat_completeness auto
termination
  by (relation "measure (\<lambda>(a, k, l, pos). length a - pos)") auto

declare acc_scan.simps [simp del]

definition acc_relative :: "(u64 \<times> bytes) list \<Rightarrow> nat \<Rightarrow> u64 \<Rightarrow> u64" where
  "acc_relative array pos p = (if 0 < pos then p - fst (array ! (pos - 1)) else p)"

definition Acc_Search ::
    "int \<Rightarrow> AccumulatedNumEntriesArray \<Rightarrow> bytes \<Rightarrow> u64 \<Rightarrow> u64 \<Rightarrow> (nat \<times> u64 \<times> u64) option" where
  "Acc_Search MOD this key lower upper =
     (let array = acc_array this in
      if MOD = 4 then
        (let lower_pos = unat (lower div fst (array ! 0));
             upper_pos = unat (upper div fst (array ! 0))
         in if lower_pos \<noteq> upper_pos then
              (case acc_scan array key lower lower_pos of None \<Rightarrow> None
               | Some (lower, pos) \<Rightarrow>
                  (let upper = min upper (fst (array ! pos) - 1)
                   in Some (pos, acc_relative array pos lower, acc_relative array pos upper)))
            else Some (lower_pos, lower mod fst (array ! 0), upper mod fst (array ! 0)))
      else
        (let left = acc_search array lower 0 (length array - 1) in
         if fst (array ! left) \<le> upper then
           (case acc_scan array key lower left of None \<Rightarrow> None
            | Some (lower, pos) \<Rightarrow>
               (let upper = min upper (fst (array ! pos) - 1)
                in Some (pos, acc_relative array pos lower, acc_relative array pos upper)))
         else Some (left, acc_relative array left lower, acc_relative array left upper)))"

definition Acc_SearchNoError :: "AccumulatedNumEntriesArray \<Rightarrow> u64 \<Rightarrow> bool \<times> nat \<times> u64" where
  "Acc_SearchNoError this position =
     (let index = unat (position div fst (acc_array this ! 0)) in
      (index < length (acc_array this), index, position mod fst (acc_array this ! 0)))"

subsection \<open>A prediction covers the position of every trained key\<close>

lemma segment_search_spec:
  assumes "left < right"
  shows "left \<le> segment_search segs t left right \<and> segment_search segs t left right < right
    \<and> (segment_search segs t left right = left \<or> seg_x (segs ! segment_search segs t left right) \<le> t)
    \<and> (segment_search segs t left right + 1 = right \<or> t < seg_x (segs ! (segment_search segs t left right + 1)))"
  using assms
proof (induction segs t left right rule: segment_search.induct)
  case (1 segs t left right)
  let ?mid = "(right + left) div 2"
  show ?case
  proof (cases "left < right \<and> left \<noteq> right - 1")
    case True
    then have m: "left < ?mid" "?mid < right" by auto
    show ?thesis
    proof (cases "t < seg_x (segs ! ?mid)")
      case t: True
      have "segment_search segs t left right = segment_search segs t left ?mid"
        using True t by (simp add: segment_search.simps [of segs t left right] Let_def)
      then show ?thesis using t m "1.IH"(1) [OF True refl t m(1)] by (simp only:) (metis order.strict_trans)
    next
      case t: False
      have "segment_search segs t left right = segment_search segs t ?mid right"
        using True t by (simp add: segment_search.simps [of segs t left right] Let_def)
      then show ?thesis using t m "1.IH"(2) [OF True refl t m(2)] by (simp only:) (metis leI order.strict_implies_order order.strict_trans2)
    qed
  next
    case False
    then have "segment_search segs t left right = left"
      by (simp only: segment_search.simps [of segs t left right] if_False)
    then show ?thesis using False "1.prems" by simp
  qed
qed

lemma sorted_wrt_concat_nth:
  assumes "sorted_wrt R (concat xss)" and "i < j" and "j < length xss" and "p \<in> set (xss ! i)" and "q \<in> set (xss ! j)"
  shows "R p q"
  using assms
proof (induction xss arbitrary: i j)
  case (Cons xs xss)
  then obtain j' where j: "j = Suc j'" by (cases j) auto
  show ?case
  proof (cases i)
    case 0
    have "q \<in> set (concat xss)" using Cons.prems j by auto
    then show ?thesis using Cons.prems 0 by (auto simp: sorted_wrt_append)
  next
    case (Suc i')
    then show ?thesis using Cons.IH [of i' j'] Cons.prems j by (simp add: sorted_wrt_append)
  qed
qed simp

lemma in_concat_nth: "p \<in> set (concat xss) \<Longrightarrow> \<exists>j < length xss. p \<in> set (xss ! j)"
  by (metis UN_E in_set_conv_nth set_concat)

lemma hd_head_sorted:
  assumes "sorted_wrt R (concat xss)" and "j < length xss" and "p \<in> set (xss ! j)"
  shows "hd (xss ! j) = p \<or> R (hd (xss ! j)) p"
proof -
  have "sorted_wrt R (xss ! j)" using assms(1,2)
    by (metis concat_append concat.simps(2) id_take_nth_drop sorted_wrt_append)
  then show ?thesis using assms(3) by (cases "xss ! j") auto
qed

text \<open>The segment the binary search selects is the one whose run holds the key.\<close>

lemma segment_search_selects:
  assumes fit: "list_all2 (segment_fits g) segs groups" and pts: "concat groups = plr_points 0 ns"
    and srt: "sorted_wrt (<) ns" and i: "i < length ns" and j: "j < length groups"
    and mem: "plr_points 0 ns ! i \<in> set (groups ! j)"
  shows "segment_search (segs @ [d]) (ns ! i) 0 (length segs) = j"
proof -
  let ?t = "ns ! i" and ?m = "segment_search (segs @ [d]) (ns ! i) 0 (length segs)"
  have len: "length segs = length groups" using fit by (simp add: list_all2_lengthD)
  have sp: "sorted_wrt (\<lambda>(x, y) (x', y'). x < x' \<and> y < y') (concat groups)"
    using strict_points_plr_points [OF srt, of 0] pts by (simp add: strict_points_def)
  have hd_in: "hd (groups ! k) \<in> set (groups ! k)" if "k < length groups" for k
    using list_all2_nthD [OF fit, of k] that len by (simp add: segment_fits_def)
  have x: "of_int (uint (seg_x (segs ! k))) = fst (hd (groups ! k))" if k: "k < length groups" for k
  proof -
    have "hd (groups ! k) \<in> set (plr_points 0 ns)" using hd_in [OF k] k
      by (auto simp: pts [symmetric])
    then obtain n :: u64 where "fst (hd (groups ! k)) = of_int (uint n)"
      using plr_points_fst [of "fst (hd (groups ! k))" "snd (hd (groups ! k))" 0 ns] by auto
    then show ?thesis using list_all2_nthD [OF fit, of k] k len by (simp add: segment_fits_def word_of_int_uint)
  qed
  have ti: "fst (plr_points 0 ns ! i) = of_int (uint ?t)" using i by (simp add: nth_plr_points)
  have below: "seg_x (segs ! k) \<le> ?t" if "k \<le> j" for k
  proof (cases "k = j")
    case True
    have "hd (groups ! j) = plr_points 0 ns ! i \<or> fst (hd (groups ! j)) < fst (plr_points 0 ns ! i)"
      using hd_head_sorted [OF sp j mem] by (auto split: prod.splits)
    then have "fst (hd (groups ! j)) \<le> fst (plr_points 0 ns ! i)" by (metis order.refl order.strict_implies_order)
    then show ?thesis using x [OF j] ti True by (metis of_int_le_iff word_le_def)
  next
    case False
    then have "fst (hd (groups ! k)) < fst (plr_points 0 ns ! i)"
      using sorted_wrt_concat_nth [OF sp _ j hd_in mem, of k] that j by (auto split: prod.splits)
    then have "(of_int (uint (seg_x (segs ! k))) :: rat) < of_int (uint ?t)"
      using x [of k] that j ti by simp
    then show ?thesis by (simp add: word_le_def)
  qed
  have above: "?t < seg_x (segs ! k)" if "j < k" "k < length groups" for k
  proof -
    have "fst (plr_points 0 ns ! i) < fst (hd (groups ! k))"
      using sorted_wrt_concat_nth [OF sp that mem hd_in [OF that(2)]] by (auto split: prod.splits)
    then have "(of_int (uint ?t) :: rat) < of_int (uint (seg_x (segs ! k)))"
      using x [OF that(2)] ti by simp
    then show ?thesis by (simp add: word_less_def)
  qed
  have spec: "?m < length segs" "?m = 0 \<or> seg_x (segs ! ?m) \<le> ?t" "?m + 1 = length segs \<or> ?t < seg_x (segs ! (?m + 1))"
  proof -
    have "0 < length segs" using j len by linarith
    from segment_search_spec [OF this, of "segs @ [d]" ?t]
    have *: "?m < length segs" "?m = 0 \<or> seg_x ((segs @ [d]) ! ?m) \<le> ?t"
      "?m + 1 = length segs \<or> ?t < seg_x ((segs @ [d]) ! (?m + 1))" by simp_all
    have n1: "(segs @ [d]) ! ?m = segs ! ?m" using *(1) by (simp only: nth_append if_True)
    have n2: "(segs @ [d]) ! (?m + 1) = segs ! (?m + 1)" if "?m + 1 \<noteq> length segs"
    proof -
      have "?m + 1 < length segs" using *(1) that by linarith
      then show ?thesis by (simp only: nth_append if_True)
    qed
    show "?m < length segs" "?m = 0 \<or> seg_x (segs ! ?m) \<le> ?t" using * n1 by (simp_all only:)
    show "?m + 1 = length segs \<or> ?t < seg_x (segs ! (?m + 1))" using *(3) n2 by metis
  qed
  have "\<not> ?m < j"
  proof
    assume "?m < j"
    then have "seg_x (segs ! (?m + 1)) \<le> ?t" "?m + 1 \<noteq> length segs" using below [of "?m + 1"] j len by simp_all
    then show False using spec(3) by simp
  qed
  moreover have "\<not> j < ?m"
  proof
    assume "j < ?m"
    then have "?t < seg_x (segs ! ?m)" "?m \<noteq> 0" using above [of ?m] spec(1) len by simp_all
    then show False using spec(2) by simp
  qed
  ultimately show ?thesis by simp
qed

text \<open>A trained model: decimal keys in increasing order, small enough for all three conversions.\<close>

definition trainable :: "bytes list \<Rightarrow> bool" where
  "trainable keys \<longleftrightarrow> (\<forall>k \<in> set keys. digit_key k \<and> digits_value k < 2 ^ 63)
     \<and> sorted_wrt (<) (map digits_value keys) \<and> 0 < length keys \<and> length keys < 2 ^ 32"

lemma trainable_conversions:
  assumes "trainable keys" and "k \<in> set keys"
  shows "stoull k = Some (of_int (digits_value k))" "atoll k = of_int (digits_value k)"
    "SliceToInteger k = of_int (digits_value k)" "uint (of_int (digits_value k) :: u64) = digits_value k"
proof -
  have k: "digit_key k" "digits_value k < 2 ^ 63" using assms by (auto simp: trainable_def)
  then have nn: "0 \<le> digits_value k" using digits_value_nonneg by (auto simp: digit_key_def)
  show "stoull k = Some (of_int (digits_value k))" "atoll k = of_int (digits_value k)"
    "SliceToInteger k = of_int (digits_value k)"
    using k by (simp_all add: stoull_digit_key atoll_digit_key SliceToInteger_digit_key)
  show "uint (of_int (digits_value k) :: u64) = digits_value k"
    using nn k(2) by (simp add: uint_word_of_int)
qed

lemma trainable_numbers:
  assumes "trainable keys"
  defines "ns \<equiv> map (\<lambda>k. of_int (digits_value k) :: u64) keys"
  shows "map stoull keys = map Some ns" "sorted_wrt (<) ns" "ns \<noteq> []" "length ns = length keys"
proof -
  show "map stoull keys = map Some ns" using trainable_conversions(1) [OF assms(1)] by (simp add: ns_def)
  have less: "(of_int (digits_value a) :: u64) < of_int (digits_value b)"
    if "a \<in> set keys" "b \<in> set keys" "digits_value a < digits_value b" for a b
    unfolding word_less_def using that(3)
    by (simp only: trainable_conversions(4) [OF assms(1) that(1)] trainable_conversions(4) [OF assms(1) that(2)])
  have "sorted_wrt (\<lambda>a b. digits_value a < digits_value b) keys"
    using assms(1) by (simp add: trainable_def sorted_wrt_map)
  then have "sorted_wrt (\<lambda>a b. (of_int (digits_value a) :: u64) < of_int (digits_value b)) keys"
    by (rule sorted_wrt_mono_rel [rotated]) (rule less)
  then show "sorted_wrt (<) ns" by (simp add: ns_def sorted_wrt_map)
  show "ns \<noteq> []" "length ns = length keys" using assms(1) by (auto simp: ns_def trainable_def)
qed

lemma Learn_succeeds:
  assumes "trainable (string_keys m)" and "map digits_value (string_keys m) \<noteq> [0]"
    and "\<not> li_is_level m" and "li_error m = Fin g" and "0 < g"
  defines "ns \<equiv> map (\<lambda>k. of_int (digits_value k) :: u64) (string_keys m)"
  obtains segs groups d where
    "Learn Fin awaiting junk m = Some (True, m\<lparr>min_key := hd ns, max_key := last ns,
       li_size := of_nat (length ns), string_segments := segs @ [d], li_learned := True\<rparr>)"
    "segs \<noteq> []" "concat groups = plr_points 0 ns" "list_all2 (segment_fits g) segs groups"
proof -
  note num = trainable_numbers [OF assms(1), folded ns_def]
  have ne: "string_keys m \<noteq> []" using assms(1) by (auto simp: trainable_def)
  have "ns \<noteq> [0]"
  proof
    assume "ns = [0]"
    then obtain k where k: "string_keys m = [k]" "(of_int (digits_value k) :: u64) = 0"
      by (auto simp: ns_def map_eq_Cons_conv)
    then have "digits_value k = 0" using trainable_conversions(4) [OF assms(1), of k] by simp
    then show False using k(1) assms(2) by simp
  qed
  from PLR_train_covers [OF num(1-3) this assms(5), of awaiting junk] obtain segs groups where
    tr: "PLR_train Fin stoull awaiting junk (Fin g) (string_keys m) True = Some segs"
      "concat groups = plr_points 0 ns" "list_all2 (segment_fits g) segs groups" by blast
  have "groups \<noteq> []" using tr(2) num(3) by (cases ns) auto
  then have segs: "segs \<noteq> []" using tr(3) by auto
  have "atoll (hd (string_keys m)) = hd ns" "atoll (last (string_keys m)) = last ns"
    using ne trainable_conversions(2) [OF assms(1)] by (simp_all add: ns_def hd_map last_map)
  then have "Learn Fin awaiting junk m = Some (True, m\<lparr>min_key := hd ns, max_key := last ns,
      li_size := of_nat (length ns),
      string_segments := segs @ [\<lparr>seg_x = last ns, seg_k = Fin 0, seg_b = Fin 0\<rparr>], li_learned := True\<rparr>)"
    using tr(1) segs ne assms(3,4) num(4) by (simp add: Learn_def)
  then show ?thesis using that segs tr(2,3) by blast
qed

lemma GetPosition_interval:
  fixes i :: nat and size :: u64 and x g :: rat
  assumes x: "\<bar>x - of_nat i\<bar> \<le> g" and g: "0 < g" "g \<le> 2 ^ 32" and i: "i < unat size"
    and size: "unat size < 2 ^ 32"
  defines "lower \<equiv> (if dlt (Fin 0) (dsub Fin (Fin x) (Fin g)) then dbl_to_u64 (dfloor (dsub Fin (Fin x) (Fin g))) else 0)"
    and "upper \<equiv> dbl_to_u64 (dceil (dadd Fin (Fin x) (Fin g)))"
  shows "unat lower \<le> i" "\<lfloor>x - g\<rfloor> \<le> int (unat lower)" "i \<le> unat upper" "int (unat upper) = \<lceil>x + g\<rceil>"
proof -
  have b: "x - g \<le> of_nat i" "of_nat i \<le> x + g" "x + g \<le> of_nat i + 2 * g" using x by (simp_all add: abs_le_iff)
  have i': "int i < 2 ^ 32" using i size by simp
  have fl: "\<lfloor>x - g\<rfloor> \<le> int i" using b(1) by (simp add: floor_le_iff)
  obtain c where c: "\<lceil>x + g\<rceil> = c" by blast
  have "int i \<le> c" using b(2) unfolding c [symmetric] by (simp add: le_ceiling_iff)
  moreover have "c \<le> int i + 2 * 2 ^ 32"
    using b(3) g(2) unfolding c [symmetric] by (simp add: ceiling_le_iff)
  ultimately have up: "0 \<le> c" "c < 2 ^ 64" "int i \<le> c" using i' by simp_all
  have "upper = of_int c" using up(1) by (simp add: upper_def c)
  then have "uint upper = \<lceil>x + g\<rceil>" using up(1,2) by (simp add: uint_word_of_int c)
  then show "int (unat upper) = \<lceil>x + g\<rceil>" by simp
  then show "i \<le> unat upper" using up(3) c by linarith
  have "unat lower \<le> i \<and> \<lfloor>x - g\<rfloor> \<le> int (unat lower)"
  proof (cases "0 < x - g")
    case True
    obtain f where f: "\<lfloor>x - g\<rfloor> = f" by blast
    have "0 \<le> f" using True f by linarith
    moreover have "lower = of_int f" using True by (simp add: lower_def f)
    ultimately have "uint lower = \<lfloor>x - g\<rfloor>" using fl i' unfolding f by (simp add: uint_word_of_int)
    then have "int (unat lower) = \<lfloor>x - g\<rfloor>" by simp
    then show ?thesis using fl by linarith
  next
    case False
    then have "lower = 0" by (simp add: lower_def)
    then show ?thesis using False by (simp add: floor_le_iff)
  qed
  then show "unat lower \<le> i" "\<lfloor>x - g\<rfloor> \<le> int (unat lower)" by simp_all
qed

lemma sorted_u64_bounds:
  fixes ns :: "u64 list"
  assumes "sorted_wrt (<) ns" and "i < length ns"
  shows "hd ns \<le> ns ! i" "ns ! i \<le> last ns"
proof -
  have s: "sorted ns" using assms(1) by (rule strict_sorted_imp_sorted)
  have "ns \<noteq> []" using assms(2) by auto
  then show "hd ns \<le> ns ! i" "ns ! i \<le> last ns"
    using assms(2) sorted_nth_mono [OF s, of 0 i] sorted_nth_mono [OF s, of i "length ns - 1"]
    by (simp_all add: hd_conv_nth last_conv_nth)
qed

lemma trained_segment:
  assumes fit: "list_all2 (segment_fits g) segs groups" and pts: "concat groups = plr_points 0 ns"
    and srt: "sorted_wrt (<) ns" and i: "i < length ns"
  obtains j k b where "segment_search (segs @ [d]) (ns ! i) 0 (length segs) = j" "j < length segs"
    "seg_k (segs ! j) = Fin k" "seg_b (segs ! j) = Fin b" "\<bar>of_int (uint (ns ! i)) * k + b - of_nat i\<bar> \<le> g"
proof -
  let ?pt = "plr_points 0 ns ! i"
  have "length (plr_points 0 ns) = length ns" by simp
  then have "?pt \<in> set (concat groups)" unfolding pts using i by (metis nth_mem)
  from in_concat_nth [OF this] obtain j where j: "j < length groups" "?pt \<in> set (groups ! j)" by blast
  have jl: "j < length segs" using j(1) fit by (simp add: list_all2_lengthD)
  have pt: "?pt = (of_int (uint (ns ! i)), of_nat i)" using nth_plr_points [OF i, of 0] by simp
  from list_all2_nthD [OF fit jl] j(2) pt obtain k b where
    "seg_k (segs ! j) = Fin k" "seg_b (segs ! j) = Fin b"
    and all: "\<forall>(x, y) \<in> set (groups ! j). \<bar>k * x + b - y\<bar> \<le> g"
    unfolding segment_fits_def by blast
  moreover have "\<bar>k * of_int (uint (ns ! i)) + b - of_nat i\<bar> \<le> g"
    using bspec [OF all j(2)] unfolding pt by simp
  ultimately show ?thesis
    using that [of j k b, OF segment_search_selects [OF fit pts srt i j] jl] by (simp add: mult.commute)
qed

lemma GetPosition_predicts:
  assumes fit: "list_all2 (segment_fits (of_int g)) (segs) groups" and pts: "concat groups = plr_points 0 ns"
    and srt: "sorted_wrt (<) ns" and i: "i < length ns" and len: "length ns < 2 ^ 32"
    and g: "0 < g" "g \<le> 2 ^ 32" and num: "SliceToInteger key = ns ! i"
    and m: "string_segments m = segs @ [d]" "min_key m = hd ns" "max_key m = last ns"
      "li_size m = of_nat (length ns)" "\<not> li_is_level m" "li_error m = Fin (of_int g)"
  shows "\<exists>lower upper. GetPosition Fin m key = Some ((lower, upper), m\<lparr>li_served := li_served m + 1\<rparr>)
    \<and> unat lower \<le> i \<and> i \<le> unat upper \<and> unat upper < length ns
    \<and> int (unat upper) \<le> int (unat lower) + 2 * g + 1"
proof -
  from trained_segment [OF fit pts srt i, of d] obtain j k b where
    sel: "segment_search (segs @ [d]) (ns ! i) 0 (length segs) = j" and j: "j < length segs"
    and kb: "seg_k (segs ! j) = Fin k" "seg_b (segs ! j) = Fin b"
    and x: "\<bar>of_int (uint (ns ! i)) * k + b - of_nat i\<bar> \<le> of_int g" by blast
  define r where "r = of_int (uint (ns ! i)) * k + b"
  define size where "size = (of_nat (length ns) :: u64)"
  have size: "unat size = length ns" using len unfolding size_def
    by (simp add: unat_of_nat take_bit_nat_eq_self)
  define lower where "lower = (if dlt (Fin 0) (dsub Fin (Fin r) (Fin (of_int g)))
    then dbl_to_u64 (dfloor (dsub Fin (Fin r) (Fin (of_int g)))) else 0)"
  define upper where "upper = dbl_to_u64 (dceil (dadd Fin (Fin r) (Fin (of_int g))))"
  have gr: "0 < (of_int g :: rat)" "(of_int g :: rat) \<le> 2 ^ 32" using g by simp_all
  have iv: "unat lower \<le> i" "\<lfloor>r - of_int g\<rfloor> \<le> int (unat lower)" "i \<le> unat upper" "int (unat upper) = \<lceil>r + of_int g\<rceil>"
    using GetPosition_interval [OF x [folded r_def] gr, of size] i len size
    by (simp_all only: lower_def upper_def)
  have nl: "\<not> last ns < ns ! i" "\<not> ns ! i < hd ns" "\<not> size \<le> lower"
    using sorted_u64_bounds [OF srt i] iv(1) i size by (simp_all add: not_less not_le word_less_nat_alt word_le_nat_alt)
  have res: "dadd Fin (dmul Fin (u64_to_dbl Fin (ns ! i)) (seg_k ((segs @ [d]) ! j))) (seg_b ((segs @ [d]) ! j)) = Fin r"
    using j kb by (simp add: nth_append u64_to_dbl_def r_def)
  have one_less_segs: "1 < length segs + 1" using j by linarith
  have "GetPosition Fin m key = Some ((lower, if upper < size then upper else size - 1), m\<lparr>li_served := li_served m + 1\<rparr>)"
    using nl one_less_segs unfolding lower_def upper_def size_def
    by (simp add: GetPosition_def Let_def res sel num m
        del: dadd.simps dlt.simps dfloor.simps dceil.simps dbl_to_u64.simps split: if_splits)
  moreover have last: "unat (size - 1) = length ns - 1"
    using size i by (simp add: unat_sub word_le_nat_alt)
  have width: "int (unat upper) \<le> int (unat lower) + 2 * g + 1" using iv(2,4) by linarith
  define hi where "hi = (if upper < size then upper else size - 1)"
  have "i \<le> unat hi \<and> unat hi < length ns \<and> unat hi \<le> unat upper"
    using iv(3) i size last by (simp add: hi_def word_less_nat_alt) linarith
  moreover from this width have "int (unat hi) \<le> int (unat lower) + 2 * g + 1" by linarith
  ultimately show ?thesis using iv(1) unfolding hi_def by blast
qed


definition example_model :: LearnedIndexData where
  "example_model = (LearnedIndexData_new (0, 0, 0) 0 False)
     \<lparr>string_keys := map bytes_of_string [''003'', ''004'', ''005'', ''090'', ''091'']\<rparr>"


subsection \<open>A level model finds the file that holds the key\<close>

lemma acc_search_spec:
  assumes "left \<le> right" and "lower < fst (array ! right)"
  shows "left \<le> acc_search array lower left right \<and> acc_search array lower left right \<le> right
    \<and> lower < fst (array ! acc_search array lower left right)
    \<and> (acc_search array lower left right = left \<or> fst (array ! (acc_search array lower left right - 1)) \<le> lower)"
  using assms
proof (induction array lower left right rule: acc_search.induct)
  case (1 array lower left right)
  let ?mid = "(left + right) div 2" and ?r = "acc_search array lower left right"
  show ?case
  proof (cases "left < right")
    case lr: True
    then have m: "left \<le> ?mid" "?mid < right" by auto
    show ?thesis
    proof (cases "lower < fst (array ! ?mid)")
      case True
      then have "?r = acc_search array lower left ?mid"
        using lr by (simp add: acc_search.simps [of array lower left right] Let_def)
      then show ?thesis using "1.IH"(1) [OF lr refl True m(1) True] m by (simp only: simp_thms) linarith
    next
      case False
      then have r: "?r = acc_search array lower (?mid + 1) right"
        using lr by (simp add: acc_search.simps [of array lower left right] Let_def)
      have "?mid + 1 \<le> right" using m by simp
      note IH = "1.IH"(2) [OF lr refl False this "1.prems"(2), folded r]
      moreover have "fst (array ! (?r - 1)) \<le> lower"
      proof (cases "?r = ?mid + 1")
        case True
        then have "?r - 1 = ?mid" by simp
        then show ?thesis using False by (simp only: not_less)
      qed (use IH in blast)
      ultimately show ?thesis using m(1) by (simp only: simp_thms) linarith
    qed
  next
    case False
    then have "?r = left" by (simp add: acc_search.simps [of array lower left right])
    then show ?thesis using False "1.prems" by simp
  qed
qed

lemma acc_scan_finds:
  assumes "\<forall>j < length array. slice_le key (snd (array ! j)) \<longleftrightarrow> f \<le> j" and "f < length array" and "left \<le> f"
  shows "acc_scan array key lower left = Some (if left = f then lower else fst (array ! (f - 1)), f)"
  using assms
proof (induction array key lower left rule: acc_scan.induct)
  case (1 array key lower pos)
  show ?case
  proof (cases "pos = f")
    case True
    then show ?thesis using "1.prems" by (simp add: acc_scan.simps [of array key lower f])
  next
    case False
    then have le: "\<not> length array \<le> pos" "\<not> slice_le key (snd (array ! pos))" "pos + 1 \<le> f"
      using "1.prems" by auto
    have "acc_scan array key lower pos = acc_scan array key (fst (array ! pos)) (pos + 1)"
      using le(1,2) by (simp add: acc_scan.simps [of array key lower pos])
    also have "\<dots> = Some (if pos + 1 = f then fst (array ! pos) else fst (array ! (f - 1)), f)"
      by (rule "1.IH" [OF le(1,2) "1.prems"(1,2) le(3)])
    also have "(if pos + 1 = f then fst (array ! pos) else fst (array ! (f - 1))) = fst (array ! (f - 1))"
      using le(3) by auto
    finally show ?thesis using False by simp
  qed
qed

text \<open>The global position of the first entry of a file of the level.\<close>

definition file_start :: "(u64 \<times> bytes) list \<Rightarrow> nat \<Rightarrow> u64" where
  "file_start array f = (if f = 0 then 0 else fst (array ! (f - 1)))"

lemma acc_relative_file_start: "acc_relative array f p = p - file_start array f"
  by (simp add: acc_relative_def file_start_def)

lemma relative_interval:
  fixes s l p u e :: u64
  assumes "s \<le> l" "l \<le> p" "p \<le> u" "p < e"
  shows "l - s \<le> p - s \<and> p - s \<le> min u (e - 1) - s \<and> min u (e - 1) - s < e - s"
proof -
  have "p \<le> e - 1" "e - 1 < e" using assms(4) by (auto simp: word_le_nat_alt word_less_nat_alt unat_sub)
  then have m: "p \<le> min u (e - 1)" "min u (e - 1) < e" using assms(3) by (auto simp: min_def)
  then have "s \<le> min u (e - 1)" "s \<le> p" "s \<le> e" using assms by (auto intro: order.trans less_imp_le)
  then show ?thesis using m assms(1,2)
    by (simp add: word_le_nat_alt word_less_nat_alt unat_sub) linarith
qed


definition example_level :: AccumulatedNumEntriesArray where
  "example_level = \<lparr>acc_array = [(4, bytes_of_string ''13''), (9, bytes_of_string ''27''), (12, bytes_of_string ''88'')]\<rparr>"


end
