(* ===== verification/Coding.thy ===== *)
theory Coding
  imports Prelude
begin

section \<open>Integer and string encodings (util/coding.cc, util/coding.h)\<close>

text \<open>
  Fixed-width integers are written least significant byte first, whichever branch of
  \<open>port::kLittleEndian\<close> is compiled. Varints carry seven bits per byte. The \<open>Put\<close>
  routines append to their destination, so they are functions of the old buffer; the
  \<open>Get\<close> routines consume a prefix of their input and return the rest.
\<close>

subsection \<open>Fixed-width integers\<close>

definition EncodeFixed32 :: "u32 \<Rightarrow> bytes" where
  "EncodeFixed32 value =
     [ucast (value AND 0xff), ucast (drop_bit 8 value AND 0xff),
      ucast (drop_bit 16 value AND 0xff), ucast (drop_bit 24 value AND 0xff)]"

definition EncodeFixed64 :: "u64 \<Rightarrow> bytes" where
  "EncodeFixed64 value =
     [ucast (value AND 0xff), ucast (drop_bit 8 value AND 0xff),
      ucast (drop_bit 16 value AND 0xff), ucast (drop_bit 24 value AND 0xff),
      ucast (drop_bit 32 value AND 0xff), ucast (drop_bit 40 value AND 0xff),
      ucast (drop_bit 48 value AND 0xff), ucast (drop_bit 56 value AND 0xff)]"

definition PutFixed32 :: "bytes \<Rightarrow> u32 \<Rightarrow> bytes" where
  "PutFixed32 dst value = dst @ EncodeFixed32 value"

definition PutFixed64 :: "bytes \<Rightarrow> u64 \<Rightarrow> bytes" where
  "PutFixed64 dst value = dst @ EncodeFixed64 value"

fun DecodeFixed32 :: "bytes \<Rightarrow> u32 option" where
  "DecodeFixed32 (b0 # b1 # b2 # b3 # _) =
     Some (ucast b0 OR push_bit 8 (ucast b1) OR push_bit 16 (ucast b2) OR push_bit 24 (ucast b3))"
| "DecodeFixed32 _ = None"

definition DecodeFixed64 :: "bytes \<Rightarrow> u64 option" where
  "DecodeFixed64 ptr =
     (case DecodeFixed32 ptr of None \<Rightarrow> None
      | Some lo \<Rightarrow> (case DecodeFixed32 (drop 4 ptr) of None \<Rightarrow> None
        | Some hi \<Rightarrow> Some (push_bit 32 (ucast hi) OR ucast lo)))"

subsection \<open>Varints\<close>

definition EncodeVarint32 :: "u32 \<Rightarrow> bytes" where
  "EncodeVarint32 v =
     (if v < 2 ^ 7 then [ucast v]
      else if v < 2 ^ 14 then [ucast (v OR 128), ucast (drop_bit 7 v)]
      else if v < 2 ^ 21 then
        [ucast (v OR 128), ucast (drop_bit 7 v OR 128), ucast (drop_bit 14 v)]
      else if v < 2 ^ 28 then
        [ucast (v OR 128), ucast (drop_bit 7 v OR 128), ucast (drop_bit 14 v OR 128),
         ucast (drop_bit 21 v)]
      else
        [ucast (v OR 128), ucast (drop_bit 7 v OR 128), ucast (drop_bit 14 v OR 128),
         ucast (drop_bit 21 v OR 128), ucast (drop_bit 28 v)])"

definition PutVarint32 :: "bytes \<Rightarrow> u32 \<Rightarrow> bytes" where
  "PutVarint32 dst v = dst @ EncodeVarint32 v"

lemma unat_drop_bit_7_less: "128 \<le> (v :: u64) \<Longrightarrow> unat (drop_bit 7 v) < unat v"
  by (simp add: drop_bit_eq_div word_le_nat_alt unat_div)

function EncodeVarint64 :: "u64 \<Rightarrow> bytes" where
  "EncodeVarint64 v =
     (if 128 \<le> v then ucast (v OR 128) # EncodeVarint64 (drop_bit 7 v) else [ucast v])"
  by pat_completeness auto
termination
  by (relation "measure unat") (auto intro: unat_drop_bit_7_less)

declare EncodeVarint64.simps [simp del]

definition PutVarint64 :: "bytes \<Rightarrow> u64 \<Rightarrow> bytes" where
  "PutVarint64 dst v = dst @ EncodeVarint64 v"

function VarintLength_loop :: "u64 \<Rightarrow> nat \<Rightarrow> nat" where
  "VarintLength_loop v len =
     (if 128 \<le> v then VarintLength_loop (drop_bit 7 v) (len + 1) else len)"
  by pat_completeness auto
termination
  by (relation "measure (\<lambda>(v, len). unat v)") (auto intro: unat_drop_bit_7_less)

declare VarintLength_loop.simps [simp del]

definition VarintLength :: "u64 \<Rightarrow> nat" where
  "VarintLength v = VarintLength_loop v 1"

text \<open>
  The decoding loops: \<open>shift\<close> grows by seven up to the last position the width allows;
  running out of input or of positions is the \<open>nullptr\<close> result.
\<close>

function GetVarint32_loop :: "nat \<Rightarrow> u32 \<Rightarrow> bytes \<Rightarrow> (u32 \<times> bytes) option" where
  "GetVarint32_loop shift result p =
     (if shift \<le> 28 then
        (case p of [] \<Rightarrow> None
         | b # p' \<Rightarrow>
            (let byte = ucast b :: u32 in
             if byte AND 128 \<noteq> 0
             then GetVarint32_loop (shift + 7) (result OR push_bit shift (byte AND 127)) p'
             else Some (result OR push_bit shift byte, p')))
      else None)"
  by pat_completeness auto
termination
  by (relation "measure (\<lambda>(shift, result, p). length p)") auto

declare GetVarint32_loop.simps [simp del]

definition GetVarint32PtrFallback :: "bytes \<Rightarrow> (u32 \<times> bytes) option" where
  "GetVarint32PtrFallback p = GetVarint32_loop 0 0 p"

definition GetVarint32Ptr :: "bytes \<Rightarrow> (u32 \<times> bytes) option" where
  "GetVarint32Ptr p =
     (case p of
        [] \<Rightarrow> GetVarint32PtrFallback p
      | b # p' \<Rightarrow>
         (let result = ucast b :: u32 in
          if result AND 128 = 0 then Some (result, p') else GetVarint32PtrFallback p))"

definition GetVarint32 :: "bytes \<Rightarrow> (u32 \<times> bytes) option" where
  "GetVarint32 input = GetVarint32Ptr input"

function GetVarint64_loop :: "nat \<Rightarrow> u64 \<Rightarrow> bytes \<Rightarrow> (u64 \<times> bytes) option" where
  "GetVarint64_loop shift result p =
     (if shift \<le> 63 then
        (case p of [] \<Rightarrow> None
         | b # p' \<Rightarrow>
            (let byte = ucast b :: u64 in
             if byte AND 128 \<noteq> 0
             then GetVarint64_loop (shift + 7) (result OR push_bit shift (byte AND 127)) p'
             else Some (result OR push_bit shift byte, p')))
      else None)"
  by pat_completeness auto
termination
  by (relation "measure (\<lambda>(shift, result, p). length p)") auto

declare GetVarint64_loop.simps [simp del]

definition GetVarint64Ptr :: "bytes \<Rightarrow> (u64 \<times> bytes) option" where
  "GetVarint64Ptr p = GetVarint64_loop 0 0 p"

definition GetVarint64 :: "bytes \<Rightarrow> (u64 \<times> bytes) option" where
  "GetVarint64 input = GetVarint64Ptr input"

subsection \<open>Length-prefixed strings\<close>

definition PutLengthPrefixedSlice :: "bytes \<Rightarrow> bytes \<Rightarrow> bytes" where
  "PutLengthPrefixedSlice dst value = PutVarint32 dst (of_nat (length value)) @ value"

definition GetLengthPrefixedSlice :: "bytes \<Rightarrow> (bytes \<times> bytes) option" where
  "GetLengthPrefixedSlice input =
     (case GetVarint32 input of None \<Rightarrow> None
      | Some (len, rest) \<Rightarrow>
          if unat len \<le> length rest then Some (take (unat len) rest, drop (unat len) rest)
          else None)"

subsection \<open>Fixed-width integers decode to what was encoded\<close>

lemma word_ff: "0xff = (mask 8 :: 'a::len word)"
  by (simp add: mask_eq_exp_minus_1)

lemma fixed32_bits:
  "(ucast (ucast (value AND 0xff :: u32) :: byte) :: u32)
      OR push_bit 8 (ucast (ucast (drop_bit 8 value AND 0xff) :: byte))
      OR push_bit 16 (ucast (ucast (drop_bit 16 value AND 0xff) :: byte))
      OR push_bit 24 (ucast (ucast (drop_bit 24 value AND 0xff) :: byte)) = value"
proof (rule bit_word_eqI)
  fix n assume "n < LENGTH(32)"
  then consider "n < 8" | "8 \<le> n" "n < 16" | "16 \<le> n" "n < 24" | "24 \<le> n" "n < 32"
    by fastforce
  then show "bit ((ucast (ucast (value AND 0xff :: u32) :: byte) :: u32)
      OR push_bit 8 (ucast (ucast (drop_bit 8 value AND 0xff) :: byte))
      OR push_bit 16 (ucast (ucast (drop_bit 16 value AND 0xff) :: byte))
      OR push_bit 24 (ucast (ucast (drop_bit 24 value AND 0xff) :: byte))) n = bit value n"
    by cases (simp_all add: word_ff bit_simps less_diff_conv2)
qed

lemma DecodeFixed32_EncodeFixed32 [codec_simps]:
  "DecodeFixed32 (EncodeFixed32 v @ rest) = Some v"
  unfolding EncodeFixed32_def by (simp only: append_Cons DecodeFixed32.simps fixed32_bits)

lemma EncodeFixed64_split:
  "EncodeFixed64 v = EncodeFixed32 (ucast v) @ EncodeFixed32 (ucast (drop_bit 32 v))"
proof -
  have low: "(ucast (drop_bit k v AND 0xff) :: byte) = ucast (drop_bit k (ucast v :: u32) AND 0xff)"
    if "k \<le> 24" for k
    using that by (intro bit_word_eqI) (simp add: word_ff bit_simps)
  have high: "(ucast (drop_bit (32 + k) v AND 0xff) :: byte)
      = ucast (drop_bit k (ucast (drop_bit 32 v) :: u32) AND 0xff)" if "k \<le> 24" for k
    using that by (intro bit_word_eqI) (simp add: word_ff bit_simps ac_simps)
  show ?thesis
    using low [of 0] low [of 8] low [of 16] low [of 24] high [of 0] high [of 8] high [of 16] high [of 24]
    by (simp add: EncodeFixed64_def EncodeFixed32_def)
qed
lemma length_EncodeFixed32 [size_simps]: "length (EncodeFixed32 v) = 4"
  by (simp add: EncodeFixed32_def)

lemma length_EncodeFixed64 [size_simps]: "length (EncodeFixed64 v) = 8"
  by (simp add: EncodeFixed64_def)

lemma word64_halves: "push_bit 32 (ucast (ucast (drop_bit 32 v) :: u32)) OR ucast (ucast v :: u32) = (v :: u64)"
proof (rule bit_word_eqI)
  fix n assume n: "n < LENGTH(64)"
  show "bit (push_bit 32 (ucast (ucast (drop_bit 32 v) :: u32)) OR ucast (ucast v :: u32) :: u64) n = bit v n"
    using n by (cases "n < 32") (auto simp: bit_simps)
qed

lemma DecodeFixed64_EncodeFixed64 [codec_simps]:
  "DecodeFixed64 (EncodeFixed64 v @ rest) = Some v"
  by (simp add: DecodeFixed64_def EncodeFixed64_split codec_simps size_simps word64_halves)

subsection \<open>Varints decode to what was encoded\<close>

lemma not_bit_if_less_exp:
  fixes v :: "'a::len word"
  assumes "unat v < 2 ^ k" and "k \<le> m"
  shows "\<not> bit v m"
proof -
  have "(2::nat) ^ k \<le> 2 ^ m" using assms(2) by simp
  then have "unat v < 2 ^ m" using assms(1) by linarith
  then have "\<not> bit (unat v) m" by (simp add: bit_nat_def)
  then show ?thesis by (simp add: bit_unsigned_iff)
qed

lemma and_128_eq_0_iff: "v AND 128 = 0 \<longleftrightarrow> \<not> bit (v :: 'a::len word) 7"
  using and_exp_eq_0_iff_not_bit [of v 7] by simp

lemma word_127: "127 = (mask 7 :: 'a::len word)"
  by (simp add: mask_eq_exp_minus_1)

lemma bit_128_iff: "bit (128 :: 'a::len word) n \<longleftrightarrow> n = 7 \<and> 7 < LENGTH('a)"
  using bit_exp_iff [of 7 n, where 'a = "'a word"] by auto

lemma bit_128_int_iff: "bit (128 :: int) n \<longleftrightarrow> n = 7"
  using bit_exp_iff [of 7 n, where 'a = int] by auto

lemma bit_128_nat_iff: "bit (128 :: nat) n \<longleftrightarrow> n = 7"
  using bit_exp_iff [of 7 n, where 'a = nat] by auto

lemmas word_128 = bit_128_iff bit_128_int_iff bit_128_nat_iff

lemma varint_last_byte:
  assumes "unat (v :: u64) < 128"
  shows "(ucast (ucast v :: byte) :: u64) = v" and "(ucast (ucast v :: byte) :: u32) = ucast v"
    and "\<not> bit v 7"
  using assms not_bit_if_less_exp [of v 7]
  by (auto intro!: bit_word_eqI simp: bit_simps not_le [symmetric])

lemma varint_more_byte:
  "(ucast (ucast (v OR 128 :: u64) :: byte) :: u64) AND 127 = v AND 127"
  "(ucast (ucast (v OR 128 :: u64) :: byte) :: u32) AND 127 = ucast (v AND 127)"
  "bit (ucast (ucast (v OR 128 :: u64) :: byte) :: u64) 7"
  "bit (ucast (ucast (v OR 128 :: u64) :: byte) :: u32) 7"
  by (auto intro!: bit_word_eqI simp: bit_simps word_128 word_127)

lemma push_bit_7_split64:
  "push_bit s (v AND 127) OR push_bit (s + 7) (drop_bit 7 v) = push_bit s (v :: u64)"
proof (rule bit_word_eqI)
  fix n
  show "bit (push_bit s (v AND 127) OR push_bit (s + 7) (drop_bit 7 v)) n = bit (push_bit s v) n"
    by (cases "n < s + 7") (auto simp: bit_simps word_127 less_diff_conv2)
qed

lemma push_bit_7_split32:
  "push_bit s (ucast (v AND 127 :: u64)) OR push_bit (s + 7) (ucast (drop_bit 7 v))
     = push_bit s (ucast v :: u32)"
proof (rule bit_word_eqI)
  fix n
  show "bit (push_bit s (ucast (v AND 127)) OR push_bit (s + 7) (ucast (drop_bit 7 v)) :: u32) n = bit (push_bit s (ucast v) :: u32) n"
    by (cases "n < s + 7") (auto simp: bit_simps word_127 less_diff_conv2)
qed

lemma unat_drop_bit_7_bound:
  assumes "unat (v :: u64) < 2 ^ (w - s)" and "128 \<le> v" and "w \<le> 64"
  shows "s + 7 < w" and "unat (drop_bit 7 v) < 2 ^ (w - (s + 7))"
proof -
  have v: "2 ^ 7 \<le> unat v" using assms(2) by (simp add: word_le_nat_alt)
  then have "(2::nat) ^ 7 < 2 ^ (w - s)" using assms(1) by linarith
  then have lt: "7 < w - s" by (simp only: power_strict_increasing_iff)
  then show "s + 7 < w" by simp
  from lt have "w - s = (w - (s + 7)) + 7" by simp
  then have "unat v < 2 ^ (w - (s + 7)) * 128" using assms(1) by (simp only: power_add) simp
  then show "unat (drop_bit 7 v) < 2 ^ (w - (s + 7))"
    by (simp add: drop_bit_eq_div unat_div less_mult_imp_div_less)
qed

lemma GetVarint64_loop_Encode:
  assumes "s < 64" and "unat v < 2 ^ (64 - s)"
  shows "GetVarint64_loop s r (EncodeVarint64 v @ rest) = Some (r OR push_bit s v, rest)"
  using assms
proof (induction v arbitrary: s r rule: EncodeVarint64.induct)
  case (1 v)
  show ?case
  proof (cases "128 \<le> v")
    case True
    note b = unat_drop_bit_7_bound [OF "1.prems"(2) True order.refl]
    have "GetVarint64_loop (s + 7) (r OR push_bit s (v AND 127)) (EncodeVarint64 (drop_bit 7 v) @ rest)
        = Some (r OR push_bit s v, rest)"
      by (simp only: "1.IH" [OF True b] or.assoc push_bit_7_split64)
    then show ?thesis
      using True "1.prems" varint_more_byte [of v]
      by (simp add: EncodeVarint64.simps [of v] GetVarint64_loop.simps [of s] and_128_eq_0_iff)
  next
    case False
    then have v: "unat v < 128" by (simp add: word_le_nat_alt)
    show ?thesis
      using False "1.prems" varint_last_byte [OF v]
      by (simp add: EncodeVarint64.simps [of v] GetVarint64_loop.simps [of s] and_128_eq_0_iff)
  qed
qed

lemma GetVarint32_loop_Encode:
  assumes "s < 32" and "unat v < 2 ^ (32 - s)"  and "7 dvd s"
  shows "GetVarint32_loop s r (EncodeVarint64 v @ rest) = Some (r OR push_bit s (ucast v), rest)"
  using assms
proof (induction v arbitrary: s r rule: EncodeVarint64.induct)
  case (1 v)
  then have s: "s \<le> 28" by presburger
  show ?case
  proof (cases "128 \<le> v")
    case True
    have b: "s + 7 < 32" "unat (drop_bit 7 v) < 2 ^ (32 - (s + 7))"
      using unat_drop_bit_7_bound [OF "1.prems"(2) True] by simp_all
    have "GetVarint32_loop (s + 7) (r OR push_bit s (ucast (v AND 127)))
        (EncodeVarint64 (drop_bit 7 v) @ rest) = Some (r OR push_bit s (ucast v), rest)"
      using "1.prems"(3) by (simp only: "1.IH" [OF True b] or.assoc push_bit_7_split32 dvd_add_triv_right_iff)
    then show ?thesis
      using True s varint_more_byte [of v]
      by (simp add: EncodeVarint64.simps [of v] GetVarint32_loop.simps [of s] and_128_eq_0_iff)
  next
    case False
    then have v: "unat v < 128" by (simp add: word_le_nat_alt)
    have "\<not> bit (ucast v :: u32) 7" using varint_last_byte(3) [OF v] by (simp add: bit_simps)
    then show ?thesis
      using False s varint_last_byte [OF v]
      by (simp add: EncodeVarint64.simps [of v] GetVarint32_loop.simps [of s] and_128_eq_0_iff)
  qed
qed

lemma GetVarint64_EncodeVarint64 [codec_simps]:
  "GetVarint64 (EncodeVarint64 v @ rest) = Some (v, rest)"
  using GetVarint64_loop_Encode [of 0 v 0 rest] unsigned_less [of v, where 'a = nat]
  by (simp add: GetVarint64_def GetVarint64Ptr_def)

lemma EncodeVarint64_step:
  "EncodeVarint64 v = (if unat v < 128 then [ucast v] else ucast (v OR 128) # EncodeVarint64 (drop_bit 7 v))"
  by (subst EncodeVarint64.simps) (simp add: word_le_nat_alt not_less)

lemma bit_ucast_32_64: "bit (ucast (v :: u32) :: u64) m = bit v m"
  using bit_imp_le_length [of v m] by (auto simp: bit_simps)

lemma bit_byte_drop:
  "bit (ucast (drop_bit k (x :: 'a::len word)) :: byte) n
     \<longleftrightarrow> n < 8 \<and> bit x (k + n)"
  by (auto simp: bit_simps)

lemma bit_byte_drop_or:
  "bit (ucast (drop_bit k (x :: 'a::len word) OR 128) :: byte) n
     \<longleftrightarrow> n < 8 \<and> (bit x (k + n) \<or> bit (128 :: 'a word) n)"
  by (auto simp: bit_ucast_iff bit_or_iff bit_drop_bit_eq)

lemma varint32_byte_cast:
  "(ucast (drop_bit k (ucast v :: u64)) :: byte) = ucast (drop_bit k (v :: u32))"
  by (rule bit_word_eqI) (simp only: bit_byte_drop bit_ucast_32_64)

lemma varint32_more_byte_cast:
  "(ucast (drop_bit k (ucast v :: u64) OR 128) :: byte) = ucast (drop_bit k (v :: u32) OR 128)"
  by (rule bit_word_eqI) (simp only: bit_byte_drop_or bit_ucast_32_64, simp add: bit_128_iff)

lemma unat_ucast_32_64: "unat (ucast (v :: u32) :: u64) = unat v"
  using unsigned_less [of v, where 'a = nat] by (simp add: unsigned_ucast_eq take_bit_nat_eq_self_iff)

lemma EncodeVarint64_drop_bit:
  "EncodeVarint64 (drop_bit k (ucast (v :: u32))) =
     (if unat v < 128 * 2 ^ k then [ucast (drop_bit k v)]
      else ucast (drop_bit k v OR 128) # EncodeVarint64 (drop_bit (k + 7) (ucast v)))"
proof -
  have "unat (drop_bit k (ucast v :: u64)) = unat v div 2 ^ k"
    by (subst unat_drop_bit_eq) (simp add: unat_ucast_32_64 drop_bit_eq_div)
  then show ?thesis
    by (subst EncodeVarint64_step)
      (simp add: varint32_byte_cast varint32_more_byte_cast div_less_iff_less_mult add.commute [of k])
qed

lemma EncodeVarint32_eq_EncodeVarint64: "EncodeVarint32 v = EncodeVarint64 (ucast v)"
  using unsigned_less [of v, where 'a = nat] EncodeVarint64_drop_bit [of 0 v]
  by (simp add: EncodeVarint32_def EncodeVarint64_drop_bit [of 7 v] EncodeVarint64_drop_bit [of 14 v]
      EncodeVarint64_drop_bit [of 21 v] EncodeVarint64_drop_bit [of 28 v] word_less_nat_alt)

lemma GetVarint32Ptr_eq_loop: "GetVarint32Ptr p = GetVarint32_loop 0 0 p"
  by (cases p) (auto simp: GetVarint32Ptr_def GetVarint32PtrFallback_def GetVarint32_loop.simps [of 0 0] Let_def)

lemma ucast_ucast_32_64: "(ucast (ucast (v :: u32) :: u64) :: u32) = v"
  by (rule bit_word_eqI) (simp only: bit_ucast_iff bit_ucast_32_64, simp)

lemma GetVarint32Ptr_EncodeVarint32 [codec_simps]:
  "GetVarint32Ptr (EncodeVarint32 v @ rest) = Some (v, rest)"
  using GetVarint32_loop_Encode [of 0 "ucast v" 0 rest] unsigned_less [of v, where 'a = nat]
  by (simp add: GetVarint32Ptr_eq_loop EncodeVarint32_eq_EncodeVarint64 unat_ucast_32_64
      ucast_ucast_32_64)

lemma GetVarint32_EncodeVarint32 [codec_simps]:
  "GetVarint32 (EncodeVarint32 v @ rest) = Some (v, rest)"
  by (simp add: GetVarint32_def codec_simps)

lemma VarintLength_loop_eq: "VarintLength_loop v len + 1 = len + length (EncodeVarint64 v)"
proof (induction v len rule: VarintLength_loop.induct)
  case (1 v len)
  then show ?case
    by (subst VarintLength_loop.simps, subst EncodeVarint64.simps) auto
qed

lemma VarintLength_eq: "VarintLength v = length (EncodeVarint64 v)"
  using VarintLength_loop_eq [of v 1] by (simp add: VarintLength_def)

lemma length_EncodeVarint64_bounds:
  "1 \<le> length (EncodeVarint64 v)" "unat v < 2 ^ (7 * k) \<Longrightarrow> 0 < k \<Longrightarrow> length (EncodeVarint64 v) \<le> k"
proof -
  show "1 \<le> length (EncodeVarint64 v)" by (subst EncodeVarint64.simps) simp
  show "unat v < 2 ^ (7 * k) \<Longrightarrow> 0 < k \<Longrightarrow> length (EncodeVarint64 v) \<le> k"
  proof (induction k arbitrary: v)
    case (Suc k)
    show ?case
    proof (cases "128 \<le> v")
      case True
      have "unat (drop_bit 7 v) < 2 ^ (7 * k)"
        using Suc.prems(1) by (simp add: drop_bit_eq_div unat_div less_mult_imp_div_less power_add mult.commute)
      moreover from this have "0 < k"
        using True unat_drop_bit_7_less [of v]
        by (cases k) (auto simp: drop_bit_eq_div word_le_nat_alt unat_div)
      ultimately show ?thesis using Suc.IH True by (subst EncodeVarint64.simps) simp
    next
      case False
      then show ?thesis by (subst EncodeVarint64.simps) simp
    qed
  qed simp
qed

lemma length_EncodeVarint64_le_10: "length (EncodeVarint64 v) \<le> 10"
  using length_EncodeVarint64_bounds(2) [of v 10] unsigned_less [of v, where 'a = nat] by simp

lemma length_EncodeVarint32_le_5: "length (EncodeVarint32 v) \<le> 5"
  by (simp add: EncodeVarint32_def)

lemma EncodeVarint32_nonempty [simp]: "EncodeVarint32 v \<noteq> []"
  by (simp add: EncodeVarint32_def)

lemma EncodeVarint32_small: "unat v < 128 \<Longrightarrow> EncodeVarint32 v = [ucast v]"
  by (simp add: EncodeVarint32_def word_less_nat_alt)

lemma GetLengthPrefixedSlice_Put:
  assumes "length value < 2 ^ 32"
  shows "GetLengthPrefixedSlice (PutLengthPrefixedSlice [] value @ rest) = Some (value, rest)"
proof -
  have "unat (of_nat (length value) :: u32) = length value"
    using assms by (simp add: unsigned_of_nat take_bit_nat_eq_self_iff)
  then show ?thesis
    by (simp add: GetLengthPrefixedSlice_def PutLengthPrefixedSlice_def PutVarint32_def codec_simps)
qed

text \<open>A shorter input than the varint announces is refused: nothing is read past the limit.\<close>

lemma GetVarint64_loop_suffix:
  "GetVarint64_loop s r p = Some (v, rest) \<Longrightarrow> \<exists>pre. p = pre @ rest \<and> pre \<noteq> []"
proof (induction p arbitrary: s r)
  case Nil
  then show ?case by (subst (asm) GetVarint64_loop.simps) (simp split: if_splits)
next
  case (Cons b p)
  show ?case
  proof (cases "GetVarint64_loop (s + 7) (r OR push_bit s (ucast b AND 127)) p = Some (v, rest)")
    case True
    from Cons.IH [OF this] show ?thesis by auto
  next
    case False
    with Cons.prems have "p = rest"
      by (subst (asm) GetVarint64_loop.simps) (simp add: Let_def split: if_splits)
    then show ?thesis by simp
  qed
qed

lemma GetVarint32_loop_suffix:
  "GetVarint32_loop s r p = Some (v, rest) \<Longrightarrow> \<exists>pre. p = pre @ rest \<and> pre \<noteq> []"
proof (induction p arbitrary: s r)
  case Nil
  then show ?case by (subst (asm) GetVarint32_loop.simps) (simp split: if_splits)
next
  case (Cons b p)
  show ?case
  proof (cases "GetVarint32_loop (s + 7) (r OR push_bit s (ucast b AND 127)) p = Some (v, rest)")
    case True
    from Cons.IH [OF this] show ?thesis by auto
  next
    case False
    with Cons.prems have "p = rest"
      by (subst (asm) GetVarint32_loop.simps) (simp add: Let_def split: if_splits)
    then show ?thesis by simp
  qed
qed

lemma GetVarint32Ptr_suffix:
  "GetVarint32Ptr p = Some (v, rest) \<Longrightarrow> \<exists>pre. p = pre @ rest \<and> pre \<noteq> []"
  by (simp add: GetVarint32Ptr_eq_loop GetVarint32_loop_suffix)

lemma GetVarint32_shorter: "GetVarint32 p = Some (v, rest) \<Longrightarrow> length rest < length p"
  using GetVarint32Ptr_suffix [of p v rest] by (auto simp: GetVarint32_def)

lemma GetVarint64_shorter: "GetVarint64 p = Some (v, rest) \<Longrightarrow> length rest < length p"
  using GetVarint64_loop_suffix [of 0 0 p v rest] by (auto simp: GetVarint64_def GetVarint64Ptr_def)

lemma GetLengthPrefixedSlice_shorter: "GetLengthPrefixedSlice p = Some (v, rest) \<Longrightarrow> length rest < length p"
  by (auto simp: GetLengthPrefixedSlice_def split: option.splits if_splits dest!: GetVarint32_shorter)

lemma PutLengthPrefixedSlice_append:
  "PutLengthPrefixedSlice dst value = dst @ EncodeVarint32 (of_nat (length value)) @ value"
  by (simp add: PutLengthPrefixedSlice_def PutVarint32_def)

lemma GetLengthPrefixedSlice_Encode [codec_simps]:
  assumes "length value < 2 ^ 32"
  shows "GetLengthPrefixedSlice (EncodeVarint32 (of_nat (length value)) @ value @ rest) = Some (value, rest)"
  using GetLengthPrefixedSlice_Put [OF assms, of rest] by (simp add: PutLengthPrefixedSlice_append)

subsection \<open>What the encodings promise\<close>

text \<open>
  (C34) Decoding a varint gives back the value that was encoded and leaves the input just behind it,
  whatever follows. The unrolled 32-bit encoder writes the same bytes as the 64-bit loop,
  \<open>VarintLength\<close> is the number of bytes written, and the buffers of 5 and 10 bytes
  that \<open>PutVarint32\<close> and \<open>PutVarint64\<close> reserve are long enough.
\<close>

theorem varint_roundtrip:
  "GetVarint32 (EncodeVarint32 v @ rest) = Some (v, rest)
    \<and> GetVarint64 (EncodeVarint64 w @ rest) = Some (w, rest)
    \<and> EncodeVarint32 v = EncodeVarint64 (ucast v)
    \<and> VarintLength w = length (EncodeVarint64 w)
    \<and> length (EncodeVarint32 v) \<le> 5 \<and> length (EncodeVarint64 w) \<le> 10"
  using GetVarint32_EncodeVarint32 GetVarint64_EncodeVarint64 EncodeVarint32_eq_EncodeVarint64
    VarintLength_eq length_EncodeVarint32_le_5 length_EncodeVarint64_le_10 by metis

text \<open>
  A length-prefixed slice of fewer than \<open>2 ^ 32\<close> bytes, appended to any buffer, is read back
  from where it was appended, with the input left at what follows it.
\<close>

theorem length_prefixed_slice_roundtrip:
  assumes "length value < 2 ^ 32"
  shows "GetLengthPrefixedSlice (drop (length dst) (PutLengthPrefixedSlice dst value @ rest)) = Some (value, rest)"
proof -
  have "PutLengthPrefixedSlice dst value = dst @ PutLengthPrefixedSlice [] value"
    by (simp add: PutLengthPrefixedSlice_def PutVarint32_def)
  then show ?thesis using GetLengthPrefixedSlice_Put [OF assms] by simp
qed

theorem length_prefixed_slice_roundtrip_witness:
  "GetLengthPrefixedSlice (drop (length [7 :: byte, 7]) (PutLengthPrefixedSlice [7, 7] [1, 2, 3] @ [9])) = Some ([1, 2, 3], [9])"
  by (rule length_prefixed_slice_roundtrip) simp

end
