(* ===== verification/Crc32c.thy ===== *)
theory Crc32c
  imports Crc32cTables Coding
begin

section \<open>CRC32C checksums (util/crc32c.h, util/crc32c.cc)\<close>

text \<open>
  \<open>Extend\<close> consumes bytes up to a 4-byte boundary, then four interleaved strides of words, then
  the remaining words and bytes. \<open>crc_bit\<close> is the division step of the reflected polynomial; the
  theorem of this theory is that the table code computes the bit by bit division, at every
  alignment of the buffer. The hardware routine of the port layer is an argument.
\<close>

definition kCRC32Xor :: u32 where "kCRC32Xor = 0xffffffff"

definition STEP1 :: "u32 \<Rightarrow> byte \<Rightarrow> u32" where
  "STEP1 l b = kByteExtensionTable ! unat ((l AND 0xff) XOR ucast b) XOR drop_bit 8 l"

definition ReadUint32LE :: "bytes \<Rightarrow> u32" where
  "ReadUint32LE buffer = the (DecodeFixed32 buffer)"

definition STEP4 :: "u32 \<Rightarrow> u32 \<Rightarrow> u32" where
  "STEP4 crc w =
     w XOR kStrideExtensionTable3 ! unat (crc AND 0xff)
       XOR kStrideExtensionTable2 ! unat (drop_bit 8 crc AND 0xff)
       XOR kStrideExtensionTable1 ! unat (drop_bit 16 crc AND 0xff)
       XOR kStrideExtensionTable0 ! unat (drop_bit 24 crc)"

function STEP16_loop :: "u32 \<times> u32 \<times> u32 \<times> u32 \<Rightarrow> bytes \<Rightarrow> (u32 \<times> u32 \<times> u32 \<times> u32) \<times> bytes" where
  "STEP16_loop (crc0, crc1, crc2, crc3) p =
     (if 16 \<le> length p then
        STEP16_loop
          (STEP4 crc0 (ReadUint32LE p), STEP4 crc1 (ReadUint32LE (drop 4 p)),
           STEP4 crc2 (ReadUint32LE (drop 8 p)), STEP4 crc3 (ReadUint32LE (drop 12 p)))
          (drop 16 p)
      else ((crc0, crc1, crc2, crc3), p))"
  by pat_completeness auto
termination
  by (relation "measure (\<lambda>(c, p). length p)") auto

declare STEP16_loop.simps [simp del]

function word_loop :: "u32 \<times> u32 \<times> u32 \<times> u32 \<Rightarrow> bytes \<Rightarrow> (u32 \<times> u32 \<times> u32 \<times> u32) \<times> bytes" where
  "word_loop (crc0, crc1, crc2, crc3) p =
     (if 4 \<le> length p then word_loop (crc1, crc2, crc3, STEP4 crc0 (ReadUint32LE p)) (drop 4 p)
      else ((crc0, crc1, crc2, crc3), p))"
  by pat_completeness auto
termination
  by (relation "measure (\<lambda>(c, p). length p)") auto

declare word_loop.simps [simp del]

definition byte_shift :: "u32 \<Rightarrow> u32" where
  "byte_shift w = drop_bit 8 w XOR kByteExtensionTable ! unat (w AND 0xff)"

definition STEP4W :: "u32 \<Rightarrow> u32 \<Rightarrow> u32" where
  "STEP4W l w = byte_shift (byte_shift (byte_shift (byte_shift (w XOR l))))"

text \<open>The distance from an address to the next multiple of four.\<close>

definition RoundUp4 :: "u64 \<Rightarrow> u64" where
  "RoundUp4 pointer = (pointer + 3) AND NOT 3"

definition Extend_portable :: "u64 \<Rightarrow> u32 \<Rightarrow> bytes \<Rightarrow> u32" where
  "Extend_portable address crc data =
     (let l = crc XOR kCRC32Xor;
          x = unat (RoundUp4 address - address);
          (l, p) = (if x \<le> length data then (foldl STEP1 l (take x data), drop x data) else (l, data));
          (l, p) =
            (if 16 \<le> length p then
               (let (crcs, p') = STEP16_loop
                      (ReadUint32LE p XOR l, ReadUint32LE (drop 4 p), ReadUint32LE (drop 8 p), ReadUint32LE (drop 12 p))
                      (drop 16 p);
                    ((crc0, crc1, crc2, crc3), p') = word_loop crcs p'
                in (STEP4W (STEP4W (STEP4W (STEP4W 0 crc0) crc1) crc2) crc3, p'))
             else (l, p))
      in foldl STEP1 l p XOR kCRC32Xor)"

definition kTestCRCValue :: u32 where "kTestCRCValue = 0xdcbc59fa"

definition CanAccelerateCRC32C :: "(u32 \<Rightarrow> bytes \<Rightarrow> u32) \<Rightarrow> bool" where
  "CanAccelerateCRC32C AcceleratedCRC32C \<longleftrightarrow>
     AcceleratedCRC32C 0 (bytes_of_string ''TestCRCBuffer'') = kTestCRCValue"

definition Extend :: "(u32 \<Rightarrow> bytes \<Rightarrow> u32) \<Rightarrow> u64 \<Rightarrow> u32 \<Rightarrow> bytes \<Rightarrow> u32" where
  "Extend AcceleratedCRC32C address crc data =
     (if CanAccelerateCRC32C AcceleratedCRC32C then AcceleratedCRC32C crc data
      else Extend_portable address crc data)"

definition kMaskDelta :: u32 where "kMaskDelta = 0xa282ead8"

definition Mask :: "u32 \<Rightarrow> u32" where
  "Mask crc = (drop_bit 15 crc OR push_bit 17 crc) + kMaskDelta"

definition Unmask :: "u32 \<Rightarrow> u32" where
  "Unmask masked_crc =
     (let rot = masked_crc - kMaskDelta in drop_bit 17 rot OR push_bit 15 rot)"

subsection \<open>Division bit by bit\<close>

definition crc_bit :: "u32 \<Rightarrow> u32" where
  "crc_bit x = (if bit x 0 then drop_bit 1 x XOR 0x82f63b78 else drop_bit 1 x)"

definition crc_bits :: "nat \<Rightarrow> u32 \<Rightarrow> u32" where
  "crc_bits n x = (crc_bit ^^ n) x"

definition crc_bytes :: "u32 \<Rightarrow> bytes \<Rightarrow> u32" where
  "crc_bytes l data = foldl (\<lambda>l b. crc_bits 8 (l XOR ucast b)) l data"

definition crc32c :: "u32 \<Rightarrow> bytes \<Rightarrow> u32" where
  "crc32c crc data = crc_bytes (crc XOR kCRC32Xor) data XOR kCRC32Xor"

subsection \<open>The division step is linear\<close>

lemma crc_bit_xor: "crc_bit (x XOR y) = crc_bit x XOR crc_bit y"
  by (auto simp: crc_bit_def bit_xor_iff drop_bit_xor xor.assoc xor.left_commute xor.commute)

lemma crc_bits_xor: "crc_bits n (x XOR y) = crc_bits n x XOR crc_bits n y"
  unfolding crc_bits_def by (induction n) (simp_all add: crc_bit_xor)

lemma crc_bits_0 [simp]: "crc_bits n 0 = 0"
  unfolding crc_bits_def by (induction n) (simp_all add: crc_bit_def)

lemma crc_bits_add: "crc_bits (m + n) x = crc_bits m (crc_bits n x)"
  by (simp add: crc_bits_def funpow_add)

lemma crc_bits_shift: "\<forall>i < n. \<not> bit x i \<Longrightarrow> crc_bits n x = drop_bit n x"
proof (induction n)
  case (Suc n)
  then have IH: "crc_bits n x = drop_bit n x" and b: "\<not> bit x n" by simp_all
  have "crc_bits (Suc n) x = crc_bit (drop_bit n x)" by (simp add: crc_bits_def flip: IH)
  also have "\<dots> = drop_bit (Suc n) x" using b by (simp add: crc_bit_def bit_drop_bit_eq drop_bit_drop_bit)
  finally show ?case .
qed (simp add: crc_bits_def)

lemma bit_255_iff: "bit (255 :: u32) n \<longleftrightarrow> n < 8" "bit (255 :: int) n \<longleftrightarrow> n < 8" "bit (255 :: nat) n \<longleftrightarrow> n < 8"
proof -
  have eq: "(255 :: u32) = mask 8" "(255 :: int) = mask 8" "(255 :: nat) = mask 8" by (simp_all add: mask_eq_exp_minus_1)
  show "bit (255 :: u32) n \<longleftrightarrow> n < 8" "bit (255 :: int) n \<longleftrightarrow> n < 8" "bit (255 :: nat) n \<longleftrightarrow> n < 8"
    by (simp_all only: eq bit_mask_iff possible_bit_word possible_bit_int possible_bit_nat) auto
qed

lemma low_byte_xor: "x = (x AND 0xff) XOR push_bit 8 (drop_bit 8 x)" for x :: u32
  by (rule bit_eqI) (auto simp: bit_simps bit_255_iff)

lemma crc_bits_8: "crc_bits 8 x = crc_bits 8 (x AND 0xff) XOR drop_bit 8 x"
proof -
  have "crc_bits 8 (push_bit 8 (drop_bit 8 x)) = drop_bit 8 (push_bit 8 (drop_bit 8 x))"
    by (rule crc_bits_shift) (simp add: bit_simps)
  also have "\<dots> = drop_bit 8 x"
  proof (rule bit_eqI)
    fix n
    show "bit (drop_bit 8 (push_bit 8 (drop_bit 8 x))) n = bit (drop_bit 8 x) n"
      using bit_imp_le_length [of x "8 + n"] by (auto simp: bit_simps)
  qed
  finally show ?thesis using crc_bits_xor [of 8 "x AND 0xff"] low_byte_xor [of x] by metis
qed

subsection \<open>The tables hold the steps of whole bytes\<close>

lemma of_nat_add_xor:
  assumes "i < 2 ^ n" and "n < 32"
  shows "(of_nat (i + 2 ^ n) :: u32) = of_nat i XOR of_nat (2 ^ n)"
proof -
  have "(of_nat i :: u32) AND of_nat (2 ^ n) = 0"
  proof (rule bit_eqI)
    fix k
    have "\<not> bit i n" using assms(1) by (metis bit_take_bit_iff less_irrefl take_bit_nat_eq_self)
    then show "bit ((of_nat i :: u32) AND of_nat (2 ^ n)) k = bit (0 :: u32) k"
      by (auto simp: bit_simps bit_exp_iff)
  qed
  then have "of_nat i + of_nat (2 ^ n) = (of_nat i :: u32) XOR of_nat (2 ^ n)"
    by (rule disjunctive_add_eq_xor)
  then show ?thesis by (simp only: of_nat_add)
qed

lemma span_linear:
  fixes f :: "u32 \<Rightarrow> u32"
  assumes "\<And>x y. f (x XOR y) = f x XOR f y" and "f 0 = 0" and "n \<le> 32"
  shows "span (map (\<lambda>k. f (of_nat (2 ^ k))) [0..<n]) = map (\<lambda>i. f (of_nat i)) [0..<2 ^ n]"
  using assms(3)
proof (induction n)
  case 0
  then show ?case using assms(2) by (simp add: span_def)
next
  case (Suc n)
  let ?t = "map (\<lambda>i. f (of_nat i)) [0..<2 ^ n]"
  have "[0..<2 ^ Suc n] = [0..<2 ^ n] @ map (\<lambda>i. i + 2 ^ n) [0..<2 ^ n :: nat]"
    unfolding map_add_upt using upt_add_eq_append [of 0 "2 ^ n" "2 ^ n"] by (simp add: mult_2)
  moreover have "map (\<lambda>i. f (of_nat (i + 2 ^ n))) [0..<2 ^ n] = map (\<lambda>x. x XOR f (of_nat (2 ^ n))) ?t"
    using Suc.prems assms(1) of_nat_add_xor [of _ n] by (simp del: of_nat_add)
  ultimately have "map (\<lambda>i. f (of_nat i)) [0..<2 ^ Suc n] = ?t @ map (\<lambda>x. x XOR f (of_nat (2 ^ n))) ?t"
    by (simp only: map_append map_map o_def)
  moreover have "span (map (\<lambda>k. f (of_nat (2 ^ k))) [0..<Suc n]) = ?t @ map (\<lambda>x. x XOR f (of_nat (2 ^ n))) ?t"
    using Suc.IH Suc.prems by (simp add: span_def)
  ultimately show ?case by simp
qed

lemma nth_table:
  fixes f :: "u32 \<Rightarrow> u32"
  assumes "table = span (map (\<lambda>k. f (of_nat (2 ^ k))) [0..<8])" and "\<And>x y. f (x XOR y) = f x XOR f y" and "f 0 = 0"
    and "x < 256"
  shows "table ! unat (x :: u32) = f x"
proof -
  have "unat x < 2 ^ 8" using assms(4) by (simp add: word_less_nat_alt)
  then show ?thesis using span_linear [OF assms(2,3), of 8] assms(1) by simp
qed

text \<open>A step maps a power of two to the one below, so the highest power determines the others.\<close>

lemma crc_bits_exp: "k \<le> m \<Longrightarrow> m < 32 \<Longrightarrow> crc_bits n (2 ^ k) = crc_bits (m - k) (crc_bits n (2 ^ m))"
proof -
  assume k: "k \<le> m" "m < 32"
  have "crc_bits (m - k) (2 ^ m) = drop_bit (m - k) (2 ^ m)"
    by (rule crc_bits_shift) (use k in \<open>auto simp: bit_exp_iff\<close>)
  also have "\<dots> = 2 ^ k" by (rule bit_eqI) (use k in \<open>auto simp: bit_simps\<close>)
  finally have "crc_bits n (2 ^ k) = crc_bits (n + (m - k)) (2 ^ m)" by (simp add: crc_bits_add)
  also have "\<dots> = crc_bits (m - k) (crc_bits n (2 ^ m))" unfolding add.commute [of n] by (rule crc_bits_add)
  finally show ?thesis .
qed

lemma crc_bits_numeral: "crc_bits (numeral k) x = crc_bits (pred_numeral k) (crc_bit x)"
  by (simp add: crc_bits_def numeral_eq_Suc funpow_Suc_right del: funpow.simps)

lemma crc_bits_Suc_0: "crc_bits (Suc 0) x = crc_bit x"
  by (simp add: crc_bits_def)

lemma crc_bits_8_top: "crc_bits 8 (2 ^ 7) = 0x82f63b78"
  by (simp add: crc_bits_numeral crc_bits_Suc_0 crc_bit_def)

lemma crc_bits_128_top: "crc_bits 128 (2 ^ 31) = 0x18b8ea18"
  by (simp add: crc_bits_numeral crc_bits_Suc_0 crc_bit_def)

lemma crc_bits_128_exp_23: "crc_bits 128 (2 ^ 23) = 0x9a9f274a"
  by (subst crc_bits_exp [of 23 31]) (simp_all only: crc_bits_128_top less_numeral_simps le_numeral_simps simp_thms, simp_all add: crc_bits_numeral crc_bits_Suc_0 crc_bit_def)

lemma crc_bits_128_exp_15: "crc_bits 128 (2 ^ 15) = 0x2a03aaa3"
  by (subst crc_bits_exp [of 15 23]) (simp_all only: crc_bits_128_exp_23 less_numeral_simps le_numeral_simps simp_thms, simp_all add: crc_bits_numeral crc_bits_Suc_0 crc_bit_def)

lemma crc_bits_128_exp_7: "crc_bits 128 (2 ^ 7) = 0xb13145f8"
  by (subst crc_bits_exp [of 7 15]) (simp_all only: crc_bits_128_exp_15 less_numeral_simps le_numeral_simps simp_thms, simp_all add: crc_bits_numeral crc_bits_Suc_0 crc_bit_def)

lemma crc_basis:
  assumes "crc_bits n (2 ^ (7 + s)) = v" and "s \<le> 24"
  shows "map (\<lambda>k. crc_bits n (push_bit s (of_nat (2 ^ k)))) [0..<8]
    = [crc_bits 7 v, crc_bits 6 v, crc_bits 5 v, crc_bits 4 v, crc_bits 3 v, crc_bits 2 v, crc_bits 1 v, v]"
proof -
  have "crc_bits n (push_bit s (of_nat (2 ^ k))) = crc_bits (7 - k) v" if "k < 8" for k
    using crc_bits_exp [of "k + s" "7 + s" n] assms that by (simp add: push_bit_eq_mult power_add mult.commute)
  then have "map (\<lambda>k. crc_bits n (push_bit s (of_nat (2 ^ k)))) [0..<8] = map (\<lambda>k. crc_bits (7 - k) v) [0..<8]" by simp
  also have "\<dots> = [crc_bits 7 v, crc_bits 6 v, crc_bits 5 v, crc_bits 4 v, crc_bits 3 v, crc_bits 2 v, crc_bits 1 v, v]"
    by (simp add: upt_rec crc_bits_def)
  finally show ?thesis .
qed

lemma nth_crc_table:
  assumes "table = span [crc_bits 7 v, crc_bits 6 v, crc_bits 5 v, crc_bits 4 v, crc_bits 3 v, crc_bits 2 v, crc_bits 1 v, v]"
    and "crc_bits n (2 ^ (7 + s)) = v" and "s \<le> 24" and "x < 256"
  shows "table ! unat x = crc_bits n (push_bit s x)"
proof (rule nth_table [OF _ _ _ assms(4)])
  show "table = span (map (\<lambda>k. crc_bits n (push_bit s (of_nat (2 ^ k)))) [0..<8])"
    unfolding crc_basis [OF assms(2,3)] by (rule assms(1))
qed (simp_all add: crc_bits_xor push_bit_xor)

lemma nth_kByteExtensionTable: "x < 256 \<Longrightarrow> kByteExtensionTable ! unat x = crc_bits 8 x"
proof -
  assume x: "x < 256"
  have sp: "kByteExtensionTable = span [crc_bits 7 0x82f63b78, crc_bits 6 0x82f63b78, crc_bits 5 0x82f63b78, crc_bits 4 0x82f63b78,
      crc_bits 3 0x82f63b78, crc_bits 2 0x82f63b78, crc_bits 1 0x82f63b78, 0x82f63b78]"
    by (simp add: kByteExtensionTable_span crc_bits_numeral crc_bits_Suc_0 crc_bit_def)
  have top: "crc_bits 8 (2 ^ (7 + 0)) = 0x82f63b78" using crc_bits_8_top by simp
  show ?thesis using nth_crc_table [OF sp top le0 x] by simp
qed

lemma nth_kStrideExtensionTable0: "x < 256 \<Longrightarrow> kStrideExtensionTable0 ! unat x = crc_bits 128 (push_bit 24 x)"
proof -
  assume x: "x < 256"
  have sp: "kStrideExtensionTable0 = span [crc_bits 7 0x18b8ea18, crc_bits 6 0x18b8ea18, crc_bits 5 0x18b8ea18, crc_bits 4 0x18b8ea18,
      crc_bits 3 0x18b8ea18, crc_bits 2 0x18b8ea18, crc_bits 1 0x18b8ea18, 0x18b8ea18]"
    by (simp add: kStrideExtensionTable0_span crc_bits_numeral crc_bits_Suc_0 crc_bit_def)
  have top: "crc_bits 128 (2 ^ (7 + 24)) = 0x18b8ea18" using crc_bits_128_top by simp
  show ?thesis by (rule nth_crc_table [OF sp top _ x]) simp
qed

lemma nth_kStrideExtensionTable1: "x < 256 \<Longrightarrow> kStrideExtensionTable1 ! unat x = crc_bits 128 (push_bit 16 x)"
proof -
  assume x: "x < 256"
  have sp: "kStrideExtensionTable1 = span [crc_bits 7 0x9a9f274a, crc_bits 6 0x9a9f274a, crc_bits 5 0x9a9f274a, crc_bits 4 0x9a9f274a,
      crc_bits 3 0x9a9f274a, crc_bits 2 0x9a9f274a, crc_bits 1 0x9a9f274a, 0x9a9f274a]"
    by (simp add: kStrideExtensionTable1_span crc_bits_numeral crc_bits_Suc_0 crc_bit_def)
  have top: "crc_bits 128 (2 ^ (7 + 16)) = 0x9a9f274a" using crc_bits_128_exp_23 by simp
  show ?thesis by (rule nth_crc_table [OF sp top _ x]) simp
qed

lemma nth_kStrideExtensionTable2: "x < 256 \<Longrightarrow> kStrideExtensionTable2 ! unat x = crc_bits 128 (push_bit 8 x)"
proof -
  assume x: "x < 256"
  have sp: "kStrideExtensionTable2 = span [crc_bits 7 0x2a03aaa3, crc_bits 6 0x2a03aaa3, crc_bits 5 0x2a03aaa3, crc_bits 4 0x2a03aaa3,
      crc_bits 3 0x2a03aaa3, crc_bits 2 0x2a03aaa3, crc_bits 1 0x2a03aaa3, 0x2a03aaa3]"
    by (simp add: kStrideExtensionTable2_span crc_bits_numeral crc_bits_Suc_0 crc_bit_def)
  have top: "crc_bits 128 (2 ^ (7 + 8)) = 0x2a03aaa3" using crc_bits_128_exp_15 by simp
  show ?thesis by (rule nth_crc_table [OF sp top _ x]) simp
qed

lemma nth_kStrideExtensionTable3: "x < 256 \<Longrightarrow> kStrideExtensionTable3 ! unat x = crc_bits 128 x"
proof -
  assume x: "x < 256"
  have sp: "kStrideExtensionTable3 = span [crc_bits 7 0xb13145f8, crc_bits 6 0xb13145f8, crc_bits 5 0xb13145f8, crc_bits 4 0xb13145f8,
      crc_bits 3 0xb13145f8, crc_bits 2 0xb13145f8, crc_bits 1 0xb13145f8, 0xb13145f8]"
    by (simp add: kStrideExtensionTable3_span crc_bits_numeral crc_bits_Suc_0 crc_bit_def)
  have top: "crc_bits 128 (2 ^ (7 + 0)) = 0xb13145f8" using crc_bits_128_exp_7 by simp
  show ?thesis using nth_crc_table [OF sp top le0 x] by simp
qed

subsection \<open>The steps of the source\<close>

lemma byte_less_256: "(ucast (b :: byte) :: u32) < 256"
  using unsigned_less [of b, where 'a = nat] by (simp add: word_less_nat_alt unsigned_ucast_eq take_bit_nat_eq_self)

lemma and_ff_less: "x AND 0xff < (256 :: u32)"
proof -
  have "x AND 0xff \<le> (0xff :: u32)" by (rule word_and_le1)
  also have "\<dots> < 256" by simp
  finally show ?thesis .
qed

lemma bit_ucast_byte: "bit (ucast (b :: byte) :: u32) n \<longleftrightarrow> bit b n"
  using bit_imp_le_length [of b n] by (auto simp: bit_simps)

lemma STEP1_eq: "STEP1 l b = crc_bits 8 (l XOR ucast b)"
proof -
  have nb: "bit b n \<longrightarrow> n < 8" for n using bit_imp_le_length [of b n] by auto
  have "(l AND 0xff) XOR ucast b = (l XOR ucast b) AND 0xff"
    by (rule bit_eqI, use nb in \<open>simp only: bit_and_iff bit_xor_iff bit_ucast_byte bit_255_iff\<close>) blast
  moreover have "drop_bit 8 l = drop_bit 8 (l XOR ucast b)"
  proof (rule bit_eqI)
    fix n
    show "bit (drop_bit 8 l) n = bit (drop_bit 8 (l XOR ucast b)) n"
      using nb [of "8 + n"] by (auto simp: bit_drop_bit_eq bit_xor_iff bit_ucast_byte)
  qed
  ultimately show ?thesis
    using crc_bits_8 [of "l XOR ucast b"] nth_kByteExtensionTable [OF and_ff_less, of "l XOR ucast b"]
    by (simp add: STEP1_def)
qed

lemma byte_shift_eq: "byte_shift w = crc_bits 8 w"
  using crc_bits_8 [of w] nth_kByteExtensionTable [OF and_ff_less, of w] by (simp add: byte_shift_def xor.commute)

lemma STEP4W_eq: "STEP4W l w = crc_bits 32 (w XOR l)"
  using crc_bits_add [of 8 8] crc_bits_add [of 8 16] crc_bits_add [of 8 24] by (simp add: STEP4W_def byte_shift_eq)

lemma word_bytes_xor:
  "(x :: u32) = (x AND 0xff) XOR push_bit 8 (drop_bit 8 x AND 0xff) XOR push_bit 16 (drop_bit 16 x AND 0xff) XOR push_bit 24 (drop_bit 24 x)"
proof (rule bit_eqI)
  fix n assume n: "possible_bit TYPE(u32) n"
  show "bit x n = bit ((x AND 0xff) XOR push_bit 8 (drop_bit 8 x AND 0xff) XOR push_bit 16 (drop_bit 16 x AND 0xff) XOR push_bit 24 (drop_bit 24 x)) n"
    unfolding bit_xor_iff bit_push_bit_iff bit_and_iff bit_drop_bit_eq o_def bit_255_iff using n by (cases "n < 8"; cases "n < 16"; cases "n < 24") auto
qed

lemma STEP4_eq: "STEP4 crc w = w XOR crc_bits 128 crc"
proof -
  have "drop_bit 24 crc < 256"
    using unsigned_less [of crc, where 'a = nat] by (simp add: word_less_nat_alt drop_bit_eq_div unat_div)
  then show ?thesis
    by (subst word_bytes_xor [of crc])
      (simp add: STEP4_def crc_bits_xor nth_kStrideExtensionTable0 nth_kStrideExtensionTable1 nth_kStrideExtensionTable2
        nth_kStrideExtensionTable3 and_ff_less xor.assoc)
qed

lemma bit_ReadUint32LE:
  "ReadUint32LE (b0 # b1 # b2 # b3 # rest) = ucast b0 OR push_bit 8 (ucast b1) OR push_bit 16 (ucast b2) OR push_bit 24 (ucast b3)"
  by (simp add: ReadUint32LE_def)

lemma or_eq_xor_bytes:
  "(ucast (b0 :: byte) OR push_bit 8 (ucast (b1 :: byte)) OR push_bit 16 (ucast (b2 :: byte)) OR push_bit 24 (ucast (b3 :: byte)) :: u32)
    = ucast b0 XOR push_bit 8 (ucast b1) XOR push_bit 16 (ucast b2) XOR push_bit 24 (ucast b3)"
proof (rule bit_eqI)
  fix n
  have nb: "bit b n \<longrightarrow> n < 8" for b :: byte and n using bit_imp_le_length [of b n] by auto
  show "bit (ucast b0 OR push_bit 8 (ucast b1) OR push_bit 16 (ucast b2) OR push_bit 24 (ucast b3) :: u32) n
      = bit (ucast b0 XOR push_bit 8 (ucast b1) XOR push_bit 16 (ucast b2) XOR push_bit 24 (ucast b3) :: u32) n"
    unfolding bit_xor_iff bit_or_iff bit_push_bit_iff bit_ucast_byte
    using nb [of b0 n] nb [of b1 "n - 8"] nb [of b2 "n - 16"] nb [of b3 "n - 24"]
    by (cases "n < 8"; cases "n < 16"; cases "n < 24") auto
qed

lemma crc_bits_push_byte:
  assumes "k \<le> 24" and "k \<le> n"
  shows "crc_bits n (push_bit k (ucast (b :: byte))) = crc_bits (n - k) (ucast b)"
proof -
  have "crc_bits k (push_bit k (ucast b)) = drop_bit k (push_bit k (ucast b))"
    by (rule crc_bits_shift) (simp add: bit_simps)
  also have "\<dots> = ucast b"
  proof (rule bit_eqI)
    fix n
    show "bit (drop_bit k (push_bit k (ucast b)) :: u32) n = bit (ucast b :: u32) n"
      unfolding bit_drop_bit_eq o_def bit_push_bit_iff bit_ucast_byte using bit_imp_le_length [of b n] assms(1) by auto
  qed
  finally show ?thesis using crc_bits_add [of "n - k" k "push_bit k (ucast b)"] assms(2) by simp
qed

lemma crc_bytes_Cons: "crc_bytes l (b # data) = crc_bytes (crc_bits 8 (l XOR ucast b)) data"
  by (simp add: crc_bytes_def)

lemma crc_bytes_word:
  assumes "4 \<le> length p"
  shows "crc_bytes l p = crc_bytes (crc_bits 32 (l XOR ReadUint32LE p)) (drop 4 p)"
proof -
  from assms obtain b0 b1 b2 b3 rest where p: "p = b0 # b1 # b2 # b3 # rest"
    by (cases p rule: DecodeFixed32.cases) auto
  have "crc_bytes l p = crc_bytes (crc_bits 8 (crc_bits 8 (crc_bits 8 (crc_bits 8 (l XOR ucast b0) XOR ucast b1) XOR ucast b2) XOR ucast b3)) rest"
    by (simp add: p crc_bytes_Cons)
  also have "crc_bits 8 (crc_bits 8 (crc_bits 8 (crc_bits 8 (l XOR ucast b0) XOR ucast b1) XOR ucast b2) XOR ucast b3)
      = crc_bits 32 (l XOR ReadUint32LE p)"
  proof -
    have "crc_bits 32 (l XOR ReadUint32LE p) = crc_bits 32 l XOR crc_bits 32 (ucast b0) XOR crc_bits 24 (ucast b1)
        XOR crc_bits 16 (ucast b2) XOR crc_bits 8 (ucast b3)"
      by (simp add: p bit_ReadUint32LE or_eq_xor_bytes crc_bits_xor crc_bits_push_byte xor.assoc)
    then show ?thesis using crc_bits_add [of 8 8] crc_bits_add [of 8 16] crc_bits_add [of 8 24]
      by (simp add: crc_bits_xor xor.assoc)
  qed
  finally show ?thesis by (simp add: p numeral_eq_Suc)
qed

subsection \<open>The strides\<close>

definition stride_value :: "u32 \<times> u32 \<times> u32 \<times> u32 \<Rightarrow> u32" where
  "stride_value = (\<lambda>(c0, c1, c2, c3). crc_bits 128 c0 XOR crc_bits 96 c1 XOR crc_bits 64 c2 XOR crc_bits 32 c3)"

lemma stride_value_step:
  "crc_bits 32 (stride_value (c0, c1, c2, c3) XOR w) = stride_value (c1, c2, c3, STEP4 c0 w)"
  by (simp add: stride_value_def STEP4_eq crc_bits_xor xor.assoc xor.commute xor.left_commute flip: crc_bits_add)

lemma crc_bytes_stride:
  "4 \<le> length p \<Longrightarrow> crc_bytes (stride_value (c0, c1, c2, c3)) p
    = crc_bytes (stride_value (c1, c2, c3, STEP4 c0 (ReadUint32LE p))) (drop 4 p)"
  by (simp add: crc_bytes_word [of p] stride_value_step)

lemma word_loop_correct:
  "word_loop c p = (c', p') \<Longrightarrow> crc_bytes (stride_value c) p = crc_bytes (stride_value c') p'"
proof (induction c p arbitrary: c' p' rule: word_loop.induct)
  case (1 c0 c1 c2 c3 p)
  show ?case
  proof (cases "4 \<le> length p")
    case True
    then have "word_loop (c1, c2, c3, STEP4 c0 (ReadUint32LE p)) (drop 4 p) = (c', p')"
      using "1.prems" by (subst (asm) word_loop.simps) (simp only: if_True)
    from "1.IH" [OF True this] show ?thesis by (simp only: crc_bytes_stride [OF True])
  next
    case False
    then have "(c', p') = ((c0, c1, c2, c3), p)"
      using "1.prems" by (subst (asm) word_loop.simps) (simp only: if_False)
    then show ?thesis by simp
  qed
qed

lemma STEP16_loop_correct:
  "STEP16_loop c p = (c', p') \<Longrightarrow> crc_bytes (stride_value c) p = crc_bytes (stride_value c') p'"
proof (induction c p arbitrary: c' p' rule: STEP16_loop.induct)
  case (1 c0 c1 c2 c3 p)
  show ?case
  proof (cases "16 \<le> length p")
    case True
    then have len: "4 \<le> length p" "4 \<le> length (drop 4 p)" "4 \<le> length (drop 8 p)" "4 \<le> length (drop 12 p)" by simp_all
    from True have "STEP16_loop (STEP4 c0 (ReadUint32LE p), STEP4 c1 (ReadUint32LE (drop 4 p)),
        STEP4 c2 (ReadUint32LE (drop 8 p)), STEP4 c3 (ReadUint32LE (drop 12 p))) (drop 16 p) = (c', p')"
      using "1.prems" by (subst (asm) STEP16_loop.simps) (simp only: if_True)
    note IH = "1.IH" [OF True this]
    have d: "drop 4 (drop 4 p) = drop 8 p" "drop 4 (drop 8 p) = drop 12 p" "drop 4 (drop 12 p) = drop 16 p" by simp_all
    show ?thesis unfolding IH [symmetric] crc_bytes_stride [OF len(1)] crc_bytes_stride [OF len(2)]
        d crc_bytes_stride [OF len(3)] crc_bytes_stride [OF len(4)] by (rule refl)
  next
    case False
    then have "(c', p') = ((c0, c1, c2, c3), p)"
      using "1.prems" by (subst (asm) STEP16_loop.simps) (simp only: if_False)
    then show ?thesis by simp
  qed
qed

lemma stride_init:
  assumes "16 \<le> length p"
  shows "crc_bytes l p = crc_bytes (stride_value (ReadUint32LE p XOR l, ReadUint32LE (drop 4 p), ReadUint32LE (drop 8 p),
    ReadUint32LE (drop 12 p))) (drop 16 p)"
  using assms by (simp add: crc_bytes_word [of p] crc_bytes_word [of "drop 4 p"] crc_bytes_word [of "drop 8 p"] crc_bytes_word [of "drop 12 p"]
      stride_value_def crc_bits_xor xor.assoc xor.commute xor.left_commute flip: crc_bits_add)

lemma stride_combine: "STEP4W (STEP4W (STEP4W (STEP4W 0 c0) c1) c2) c3 = stride_value (c0, c1, c2, c3)"
  by (simp add: STEP4W_eq stride_value_def crc_bits_xor xor.assoc xor.commute xor.left_commute flip: crc_bits_add)

lemma foldl_STEP1: "foldl STEP1 l p = crc_bytes l p"
  by (simp add: crc_bytes_def STEP1_eq [abs_def])

lemma crc_bytes_append: "crc_bytes l (p @ q) = crc_bytes (crc_bytes l p) q"
  by (simp add: crc_bytes_def)

lemma Extend_portable_eq: "Extend_portable address crc data = crc32c crc data"
proof -
  define x where "x = unat (RoundUp4 address - address)"
  obtain l p where lp: "(if x \<le> length data then (foldl STEP1 (crc XOR kCRC32Xor) (take x data), drop x data)
      else (crc XOR kCRC32Xor, data)) = (l, p)" by fastforce
  then have start: "crc_bytes (crc XOR kCRC32Xor) data = crc_bytes l p"
    by (auto simp: foldl_STEP1 crc_bytes_append [symmetric] split: if_splits)
  show ?thesis
  proof (cases "16 \<le> length p")
    case True
    obtain c p1 where a: "STEP16_loop (ReadUint32LE p XOR l, ReadUint32LE (drop 4 p), ReadUint32LE (drop 8 p),
        ReadUint32LE (drop 12 p)) (drop 16 p) = (c, p1)" by fastforce
    obtain c0 c1 c2 c3 p2 where b: "word_loop c p1 = ((c0, c1, c2, c3), p2)" by (metis surj_pair)
    have "crc_bytes l p = crc_bytes (stride_value (c0, c1, c2, c3)) p2"
      unfolding stride_init [OF True] using STEP16_loop_correct [OF a] word_loop_correct [OF b] by simp
    then show ?thesis using start True
      by (simp add: Extend_portable_def Let_def x_def [symmetric] lp a b stride_combine foldl_STEP1 crc32c_def)
  next
    case False
    then show ?thesis using start
      by (simp add: Extend_portable_def Let_def x_def [symmetric] lp foldl_STEP1 crc32c_def)
  qed
qed

subsection \<open>What checksums promise\<close>

text \<open>
  (C20) The portable \<open>Extend\<close>, with its five tables, its alignment prologue, its four interleaved strides of
  words and its tail, computes the checksum of the bit by bit division by the reflected
  Castagnoli polynomial, for every start value, every data and every address of the buffer.
\<close>

theorem Extend_portable_is_crc32c:
  "Extend_portable address crc data =
     foldl (\<lambda>l b. (crc_bit ^^ 8) (l XOR ucast b)) (crc XOR kCRC32Xor) data XOR kCRC32Xor"
  unfolding Extend_portable_eq crc32c_def crc_bytes_def crc_bits_def ..

text \<open>
  The hardware routine of the port layer, when the probe accepts it, is documented to compute the
  same checksum.
\<close>

definition accelerated_ok :: "(u32 \<Rightarrow> bytes \<Rightarrow> u32) \<Rightarrow> bool" where
  "accelerated_ok AcceleratedCRC32C \<longleftrightarrow>
     (CanAccelerateCRC32C AcceleratedCRC32C \<longrightarrow> (\<forall>crc data. AcceleratedCRC32C crc data = crc32c crc data))"

lemma Extend_eq: "accelerated_ok acc \<Longrightarrow> Extend acc address crc data = crc32c crc data"
  by (auto simp: Extend_def Extend_portable_eq accelerated_ok_def)

lemma accelerated_ok_absent: "accelerated_ok (\<lambda>_ _. 0)"
  by (simp add: accelerated_ok_def CanAccelerateCRC32C_def kTestCRCValue_def)

lemma crc32c_append: "crc32c (crc32c crc a) b = crc32c crc (a @ b)"
  by (simp add: crc32c_def crc_bytes_append xor.assoc)

lemma Unmask_Mask: "Unmask (Mask crc) = crc"
proof -
  have "Unmask (Mask crc) = drop_bit 17 (drop_bit 15 crc OR push_bit 17 crc) OR push_bit 15 (drop_bit 15 crc OR push_bit 17 crc)"
    by (simp add: Unmask_def Mask_def Let_def)
  also have "\<dots> = crc"
  proof (rule bit_eqI)
    fix n assume n: "possible_bit TYPE(u32) n"
    show "bit (drop_bit 17 (drop_bit 15 crc OR push_bit 17 crc) OR push_bit 15 (drop_bit 15 crc OR push_bit 17 crc)) n = bit crc n"
      unfolding bit_or_iff bit_drop_bit_eq o_def bit_push_bit_iff
      using n bit_imp_le_length [of crc "15 + (17 + n)"] by (auto simp: not_le)
  qed
  finally show ?thesis .
qed

text \<open>What the users of the checksum rely on: it can be computed piece by piece.\<close>

locale checksum =
  fixes ext :: "u32 \<Rightarrow> bytes \<Rightarrow> u32"
  assumes ext_append: "ext (ext c a) b = ext c (a @ b)"

interpretation portable_crc: checksum "Extend (\<lambda>_ _. 0) address" for address
  by unfold_locales (simp add: Extend_eq [OF accelerated_ok_absent] crc32c_append)

text \<open>
  \<open>Extend\<close> of the checksum of one string by a second is the checksum of their
  concatenation, wherever the three buffers lie in memory, and \<open>Unmask\<close> undoes \<open>Mask\<close>.
\<close>

theorem Extend_concat_Mask:
  assumes "accelerated_ok AcceleratedCRC32C"
  shows "Extend AcceleratedCRC32C address1 (Extend AcceleratedCRC32C address2 crc a) b
      = Extend AcceleratedCRC32C address3 crc (a @ b)
    \<and> Unmask (Mask crc) = crc"
  by (simp add: Extend_eq [OF assms] crc32c_append Unmask_Mask)

theorem Extend_concat_Mask_witness:
  "Extend (\<lambda>_ _. 0) 3 (Extend (\<lambda>_ _. 0) 1 7 [1, 2, 3]) [4] = Extend (\<lambda>_ _. 0) 8 7 ([1, 2, 3] @ [4])
    \<and> Unmask (Mask 7) = 7"
  by (rule Extend_concat_Mask [OF accelerated_ok_absent])

end
