(* ===== verification/Status.thy ===== *)
theory Status
  imports Coding Logging
begin

section \<open>Status values (include/leveldb/status.h, util/status.cc)\<close>

text \<open>
  A status is a null pointer for success, and otherwise an array that holds the length of the message,
  the code and the message. \<open>memcpy\<close> of the length is the little-endian encoding of the machine. A
  read past the end of the array is \<open>None\<close>.
\<close>

datatype Code = kOk | kNotFound | kCorruption | kNotSupported | kInvalidArgument | kIOError

fun Code_byte :: "Code \<Rightarrow> byte" where
  "Code_byte kOk = 0"
| "Code_byte kNotFound = 1"
| "Code_byte kCorruption = 2"
| "Code_byte kNotSupported = 3"
| "Code_byte kInvalidArgument = 4"
| "Code_byte kIOError = 5"

record Status =
  status_state :: "bytes option"

definition Status_OK :: Status where
  "Status_OK = \<lparr>status_state = None\<rparr>"

definition Status_new :: "Code \<Rightarrow> bytes \<Rightarrow> bytes \<Rightarrow> Status" where
  "Status_new c msg msg2 =
     (let len1 = of_nat (length msg) :: u32;
          len2 = of_nat (length msg2) :: u32;
          size = len1 + (if len2 \<noteq> 0 then 2 + len2 else 0)
      in \<lparr>status_state = Some (EncodeFixed32 size @ [Code_byte c] @ msg
                         @ (if len2 \<noteq> 0 then [58, 32] @ msg2 else []))\<rparr>)"

definition NotFound :: "bytes \<Rightarrow> bytes \<Rightarrow> Status" where "NotFound = Status_new kNotFound"
definition Corruption :: "bytes \<Rightarrow> bytes \<Rightarrow> Status" where "Corruption = Status_new kCorruption"
definition NotSupported :: "bytes \<Rightarrow> bytes \<Rightarrow> Status" where "NotSupported = Status_new kNotSupported"
definition InvalidArgument :: "bytes \<Rightarrow> bytes \<Rightarrow> Status" where "InvalidArgument = Status_new kInvalidArgument"
definition IOError :: "bytes \<Rightarrow> bytes \<Rightarrow> Status" where "IOError = Status_new kIOError"

definition Status_ok :: "Status \<Rightarrow> bool" where
  "Status_ok s \<longleftrightarrow> status_state s = None"

lemma Status_ok_OK [simp]: "Status_ok Status_OK"
  by (simp add: Status_ok_def Status_OK_def)

definition Status_code :: "Status \<Rightarrow> byte" where
  "Status_code s = (case status_state s of None \<Rightarrow> Code_byte kOk | Some st \<Rightarrow> st ! 4)"

definition IsNotFound :: "Status \<Rightarrow> bool" where "IsNotFound s \<longleftrightarrow> Status_code s = Code_byte kNotFound"
definition IsCorruption :: "Status \<Rightarrow> bool" where "IsCorruption s \<longleftrightarrow> Status_code s = Code_byte kCorruption"
definition IsIOError :: "Status \<Rightarrow> bool" where "IsIOError s \<longleftrightarrow> Status_code s = Code_byte kIOError"
definition IsNotSupportedError :: "Status \<Rightarrow> bool" where
  "IsNotSupportedError s \<longleftrightarrow> Status_code s = Code_byte kNotSupported"
definition IsInvalidArgument :: "Status \<Rightarrow> bool" where
  "IsInvalidArgument s \<longleftrightarrow> Status_code s = Code_byte kInvalidArgument"

definition CopyState :: "bytes \<Rightarrow> bytes option" where
  "CopyState state =
     (case DecodeFixed32 state of None \<Rightarrow> None
      | Some n \<Rightarrow> if unat n + 5 \<le> length state then Some (take (unat n + 5) state) else None)"

definition Status_copy :: "Status \<Rightarrow> Status option" where
  "Status_copy rhs =
     (case status_state rhs of None \<Rightarrow> Some Status_OK
      | Some st \<Rightarrow> map_option (\<lambda>c. \<lparr>status_state = Some c\<rparr>) (CopyState st))"

definition type_name :: "byte \<Rightarrow> bytes" where
  "type_name c =
     (if c = 0 then bytes_of_string ''OK''
      else if c = 1 then bytes_of_string ''NotFound: ''
      else if c = 2 then bytes_of_string ''Corruption: ''
      else if c = 3 then bytes_of_string ''Not implemented: ''
      else if c = 4 then bytes_of_string ''Invalid argument: ''
      else if c = 5 then bytes_of_string ''IO error: ''
      else bytes_of_string ''Unknown code('' @ (if sint c < 0 then [45] @ decimal (- sint c) else decimal (sint c))
        @ bytes_of_string ''): '')"

definition Status_ToString :: "Status \<Rightarrow> bytes option" where
  "Status_ToString s =
     (case status_state s of None \<Rightarrow> Some (bytes_of_string ''OK'')
      | Some st \<Rightarrow>
          (case DecodeFixed32 st of None \<Rightarrow> None
           | Some len \<Rightarrow>
               if unat len + 5 \<le> length st then Some (type_name (Status_code s) @ take (unat len) (drop 5 st)) else None))"

subsection \<open>What a status carries\<close>

lemma Status_ok_new [simp]: "\<not> Status_ok (Status_new c msg msg2)" "Status_ok Status_OK"
  by (simp_all add: Status_ok_def Status_new_def Status_OK_def Let_def)

lemma Status_code_new [simp]: "Status_code (Status_new c msg msg2) = Code_byte c"
  by (simp add: Status_code_def Status_new_def Let_def nth_append size_simps)

definition full_message :: "bytes \<Rightarrow> bytes \<Rightarrow> bytes" where
  "full_message msg msg2 = msg @ (if msg2 = [] then [] else [58, 32] @ msg2)"

lemma Status_new_state:
  assumes "length msg + length msg2 + 2 < 2 ^ 32"
  shows "status_state (Status_new c msg msg2)
      = Some (EncodeFixed32 (of_nat (length (full_message msg msg2))) @ [Code_byte c] @ full_message msg msg2)"
    and "unat (of_nat (length (full_message msg msg2)) :: u32) = length (full_message msg msg2)"
proof -
  have "(of_nat (length msg2) :: u32) = 0 \<longleftrightarrow> msg2 = []"
  proof -
    have "unat (of_nat (length msg2) :: u32) = length msg2"
      using assms by (simp add: unat_of_nat take_bit_nat_eq_self)
    then show ?thesis by (metis length_0_conv unat_eq_zero)
  qed
  then show "status_state (Status_new c msg msg2)
      = Some (EncodeFixed32 (of_nat (length (full_message msg msg2))) @ [Code_byte c] @ full_message msg msg2)"
    by (simp add: Status_new_def Let_def full_message_def)
  show "unat (of_nat (length (full_message msg msg2)) :: u32) = length (full_message msg msg2)"
    by (rule unat_of_nat_u32) (use assms in \<open>simp add: full_message_def\<close>)
qed

text \<open>
  An error status is not ok, keeps its code, copies without reading past its array and prints as the
  name of the code followed by the two parts of the message separated by a colon and a space, for
  messages that fit a 32-bit length.
\<close>

theorem Status_new_observations:
  assumes "length msg + length msg2 + 2 < 2 ^ 32"
  shows "\<not> Status_ok (Status_new c msg msg2) \<and> Status_code (Status_new c msg msg2) = Code_byte c
    \<and> Status_copy (Status_new c msg msg2) = Some (Status_new c msg msg2)
    \<and> Status_ToString (Status_new c msg msg2)
        = Some (type_name (Code_byte c) @ msg @ (if msg2 = [] then [] else [58, 32] @ msg2))"
proof -
  let ?m = "full_message msg msg2" and ?s = "Status_new c msg msg2"
  note st = Status_new_state(1) [OF assms, of c] Status_new_state(2) [OF assms]
  have "Status_copy ?s = Some \<lparr>status_state = status_state ?s\<rparr>"
    by (simp add: Status_copy_def st CopyState_def codec_simps size_simps)
  moreover have "Status_ToString ?s = Some (type_name (Code_byte c) @ ?m)"
    by (simp add: Status_ToString_def st codec_simps size_simps)
  ultimately show ?thesis by (simp add: full_message_def)
qed

theorem Status_new_observations_witness:
  "\<not> Status_ok (Status_new kIOError [1] [2]) \<and> Status_code (Status_new kIOError [1] [2]) = Code_byte kIOError
    \<and> Status_copy (Status_new kIOError [1] [2]) = Some (Status_new kIOError [1] [2])
    \<and> Status_ToString (Status_new kIOError [1] [2])
        = Some (type_name (Code_byte kIOError) @ [1] @ (if [2 :: byte] = [] then [] else [58, 32] @ [2]))"
  by (rule Status_new_observations) simp

end
