(* ===== verification/FileInterface.thy ===== *)
theory FileInterface
  imports Status
begin

section \<open>Interfaces of open files (include/leveldb/env.h)\<close>

text \<open>
  What the rest of the program relies on of a writable file, of a sequential file and of a random access file. A
  file is a state of some type. Appending and flushing succeed while there is room; a sequential file returns the
  next bytes of what is left, a random access file the bytes from an offset. The in-memory environment provides all three.
\<close>

locale writable_file =
  fixes Append :: "'f \<Rightarrow> bytes \<Rightarrow> Status \<times> 'f"
    and Flush :: "'f \<Rightarrow> Status \<times> 'f"
    and contents :: "'f \<Rightarrow> bytes"
    and room :: "'f \<Rightarrow> nat \<Rightarrow> bool"
  assumes Append_contents: "room f n \<Longrightarrow> length d \<le> n \<Longrightarrow>
      \<exists>f'. Append f d = (Status_OK, f') \<and> contents f' = contents f @ d \<and> room f' (n - length d)"
    and Flush_contents: "room f n \<Longrightarrow> \<exists>f'. Flush f = (Status_OK, f') \<and> contents f' = contents f \<and> room f' n"

locale sequential_file =
  fixes Read :: "'f \<Rightarrow> u64 \<Rightarrow> Status \<times> bytes \<times> 'f"
    and Skip :: "'f \<Rightarrow> u64 \<Rightarrow> Status \<times> 'f"
    and rest :: "'f \<Rightarrow> bytes"
    and valid :: "'f \<Rightarrow> bool"
  assumes Read_rest: "valid f \<Longrightarrow>
      \<exists>f'. Read f n = (Status_OK, take (unat n) (rest f), f') \<and> rest f' = drop (unat n) (rest f) \<and> valid f'"
    and Skip_rest: "valid f \<Longrightarrow> \<exists>f'. Skip f n = (Status_OK, f') \<and> rest f' = drop (unat n) (rest f) \<and> valid f'"

locale random_access_file =
  fixes RandomRead :: "'f \<Rightarrow> u64 \<Rightarrow> u64 \<Rightarrow> Status \<times> bytes"
    and contents :: "'f \<Rightarrow> bytes"
    and readable :: "'f \<Rightarrow> bool"
  assumes RandomRead_contents: "readable f \<Longrightarrow> unat offset \<le> length (contents f) \<Longrightarrow>
      RandomRead f offset n = (Status_OK, take (unat n) (drop (unat offset) (contents f)))"

end
