(* ===== verification/LogWriter.thy ===== *)
theory LogWriter
  imports Crc32c FileInterface
begin

section \<open>The log format and its writer (db/log_format.h, db/log_writer.cc)\<close>

text \<open>
  A log is a sequence of blocks of 32 KB. A record is written as one or more fragments, each with
  a header of seven bytes, and no fragment crosses a block boundary. The file is an abstract state with
  the two methods the writer calls, and the checksum is an argument; the interfaces say what the
  log relies on. A failed assertion is \<open>None\<close>.
\<close>

datatype RecordType = kZeroType | kFullType | kFirstType | kMiddleType | kLastType

fun RecordType_byte :: "RecordType \<Rightarrow> byte" where
  "RecordType_byte kZeroType = 0"
| "RecordType_byte kFullType = 1"
| "RecordType_byte kFirstType = 2"
| "RecordType_byte kMiddleType = 3"
| "RecordType_byte kLastType = 4"

definition kBlockSize :: nat where "kBlockSize = 32768"
definition kHeaderSize :: nat where "kHeaderSize = 4 + 2 + 1"

record 'f Writer =
  lw_dest :: 'f
  lw_block_offset :: nat
  lw_type_crc :: "u32 list"

definition InitTypeCrc :: "(u32 \<Rightarrow> bytes \<Rightarrow> u32) \<Rightarrow> u32 list" where
  "InitTypeCrc ext = map (\<lambda>i. ext 0 [of_nat i]) [0..<5]"

definition Writer_new :: "(u32 \<Rightarrow> bytes \<Rightarrow> u32) \<Rightarrow> 'f \<Rightarrow> 'f Writer" where
  "Writer_new ext dest = \<lparr>lw_dest = dest, lw_block_offset = 0, lw_type_crc = InitTypeCrc ext\<rparr>"

definition Writer_new_at :: "(u32 \<Rightarrow> bytes \<Rightarrow> u32) \<Rightarrow> 'f \<Rightarrow> u64 \<Rightarrow> 'f Writer" where
  "Writer_new_at ext dest dest_length =
     \<lparr>lw_dest = dest, lw_block_offset = unat (dest_length mod of_nat kBlockSize), lw_type_crc = InitTypeCrc ext\<rparr>"

definition physical_header :: "(u32 \<Rightarrow> bytes \<Rightarrow> u32) \<Rightarrow> u32 list \<Rightarrow> RecordType \<Rightarrow> bytes \<Rightarrow> bytes" where
  "physical_header ext type_crc t ptr =
     EncodeFixed32 (Mask (ext (type_crc ! unat (RecordType_byte t)) ptr))
     @ [of_nat (length ptr), of_nat (length ptr div 256), RecordType_byte t]"

definition EmitPhysicalRecord ::
    "(u32 \<Rightarrow> bytes \<Rightarrow> u32) \<Rightarrow> ('f \<Rightarrow> bytes \<Rightarrow> Status \<times> 'f) \<Rightarrow> ('f \<Rightarrow> Status \<times> 'f)
      \<Rightarrow> RecordType \<Rightarrow> bytes \<Rightarrow> 'f Writer \<Rightarrow> (Status \<times> 'f Writer) option" where
  "EmitPhysicalRecord ext Append Flush t ptr this =
     (if \<not> (length ptr \<le> 0xffff \<and> lw_block_offset this + kHeaderSize + length ptr \<le> kBlockSize) then None
      else
        (let buf = physical_header ext (lw_type_crc this) t ptr;
             (s, dest) = Append (lw_dest this) buf;
             (s, dest) =
               (if Status_ok s then
                  (let (s, dest) = Append dest ptr
                   in if Status_ok s then Flush dest else (s, dest))
                else (s, dest))
         in Some (s, this\<lparr>lw_dest := dest, lw_block_offset := lw_block_offset this + kHeaderSize + length ptr\<rparr>)))"

definition switch_block :: "('f \<Rightarrow> bytes \<Rightarrow> Status \<times> 'f) \<Rightarrow> 'f Writer \<Rightarrow> 'f Writer" where
  "switch_block Append this =
     (let leftover = kBlockSize - lw_block_offset this in
      if leftover < kHeaderSize then
        (let dest = (if 0 < leftover then snd (Append (lw_dest this) (replicate leftover 0)) else lw_dest this)
         in this\<lparr>lw_dest := dest, lw_block_offset := 0\<rparr>)
      else this)"

definition fragment_type :: "bool \<Rightarrow> bool \<Rightarrow> RecordType" where
  "fragment_type is_begin is_end =
     (if is_begin \<and> is_end then kFullType else if is_begin then kFirstType else if is_end then kLastType else kMiddleType)"

lemma Emit_offset:
  "EmitPhysicalRecord ext Append Flush t ptr this = Some (s, this') \<Longrightarrow>
     lw_block_offset this' = lw_block_offset this + kHeaderSize + length ptr"
  by (auto simp: EmitPhysicalRecord_def Let_def split: if_splits prod.splits)

function AddRecord_loop ::
    "(u32 \<Rightarrow> bytes \<Rightarrow> u32) \<Rightarrow> ('f \<Rightarrow> bytes \<Rightarrow> Status \<times> 'f) \<Rightarrow> ('f \<Rightarrow> Status \<times> 'f)
      \<Rightarrow> bool \<Rightarrow> bytes \<Rightarrow> 'f Writer \<Rightarrow> (Status \<times> 'f Writer) option" where
  "AddRecord_loop ext Append Flush is_begin ptr this =
     (if kBlockSize < lw_block_offset this then None
      else
        (let this = switch_block Append this;
             avail = kBlockSize - lw_block_offset this - kHeaderSize;
             fragment_length = (if length ptr < avail then length ptr else avail);
             is_end = (length ptr = fragment_length)
         in case EmitPhysicalRecord ext Append Flush (fragment_type is_begin is_end) (take fragment_length ptr) this of
              None \<Rightarrow> None
            | Some (s, this) \<Rightarrow>
                if Status_ok s \<and> 0 < length (drop fragment_length ptr)
                then AddRecord_loop ext Append Flush False (drop fragment_length ptr) this
                else Some (s, this)))"
  by pat_completeness auto
termination
proof (relation "measure (\<lambda>(e, a, f, b, ptr, this).
    2 * length ptr + (if lw_block_offset this = kBlockSize - kHeaderSize then 1 else 0))", goal_cases)
  case (2 ext Append Flush is_begin ptr this this1 avail fragment_length is_end p s this2)
  have emit: "EmitPhysicalRecord ext Append Flush (fragment_type is_begin is_end) (take fragment_length ptr) this1 = Some (s, this2)"
    using 2(6,7) by simp
  have off: "lw_block_offset this2 = lw_block_offset this1 + kHeaderSize + fragment_length"
    using Emit_offset [OF emit] 2(4) by simp
  show ?case
  proof (cases "fragment_length = 0")
    case True
    then have "avail = 0" using 2(4,8) by (simp split: if_splits)
    then have "lw_block_offset this1 = kBlockSize - kHeaderSize" "this1 = this"
      using 2(1,2,3) by (auto simp: switch_block_def Let_def kBlockSize_def kHeaderSize_def split: if_splits)
    then show ?thesis using True off by (simp add: kBlockSize_def kHeaderSize_def)
  next
    case False
    then show ?thesis using 2(4,8) by (auto split: if_splits)
  qed
qed simp

declare AddRecord_loop.simps [simp del]

definition AddRecord ::
    "(u32 \<Rightarrow> bytes \<Rightarrow> u32) \<Rightarrow> ('f \<Rightarrow> bytes \<Rightarrow> Status \<times> 'f) \<Rightarrow> ('f \<Rightarrow> Status \<times> 'f)
      \<Rightarrow> bytes \<Rightarrow> 'f Writer \<Rightarrow> (Status \<times> 'f Writer) option" where
  "AddRecord ext Append Flush slic this = AddRecord_loop ext Append Flush True slic this"

subsection \<open>The layout of a record\<close>

text \<open>
  The specification of the writer: the fragments of a record that starts at offset \<open>off\<close> of a block, each
  with the number of zero bytes that fill the previous block, its type and its payload, and their
  bytes in the file.
\<close>

definition trailer :: "nat \<Rightarrow> nat" where
  "trailer off = (if kBlockSize - off < kHeaderSize then kBlockSize - off else 0)"

definition next_offset :: "nat \<Rightarrow> nat" where
  "next_offset off = (if kBlockSize - off < kHeaderSize then 0 else off)"

function fragments :: "nat \<Rightarrow> bool \<Rightarrow> bytes \<Rightarrow> (nat \<times> RecordType \<times> bytes) list" where
  "fragments off is_begin ptr =
     (let avail = kBlockSize - next_offset off - kHeaderSize; n = min (length ptr) avail
      in (trailer off, fragment_type is_begin (length ptr \<le> avail), take n ptr)
         # (if avail < length ptr then fragments (next_offset off + kHeaderSize + n) False (drop n ptr) else []))"
  by pat_completeness auto
termination
  by (relation "measure (\<lambda>(off, b, ptr). 2 * length ptr + (if off = kBlockSize - kHeaderSize then 1 else 0))")
    (auto simp: next_offset_def kBlockSize_def kHeaderSize_def split: if_splits)

declare fragments.simps [simp del]

definition fragment_bytes :: "(u32 \<Rightarrow> bytes \<Rightarrow> u32) \<Rightarrow> nat \<times> RecordType \<times> bytes \<Rightarrow> bytes" where
  "fragment_bytes ext = (\<lambda>(pad, t, ptr). replicate pad 0 @ physical_header ext (InitTypeCrc ext) t ptr @ ptr)"

definition record_bytes :: "(u32 \<Rightarrow> bytes \<Rightarrow> u32) \<Rightarrow> nat \<Rightarrow> bool \<Rightarrow> bytes \<Rightarrow> bytes" where
  "record_bytes ext off is_begin ptr = concat (map (fragment_bytes ext) (fragments off is_begin ptr))"

lemma length_physical_header [simp]: "length (physical_header ext tc t ptr) = kHeaderSize"
  by (simp add: physical_header_def size_simps kHeaderSize_def)

lemma next_offset_le: "next_offset off \<le> off" "off \<le> kBlockSize \<Longrightarrow> next_offset off + kHeaderSize \<le> kBlockSize"
  by (auto simp: next_offset_def kBlockSize_def kHeaderSize_def)

lemma trailer_mod:
  assumes "off \<le> kBlockSize"
  shows "(off + (trailer off + m)) mod kBlockSize = (next_offset off + m) mod kBlockSize"
proof (cases "kBlockSize - off < kHeaderSize")
  case True
  then have "off + (trailer off + m) = m + kBlockSize" using assms by (simp add: trailer_def)
  then show ?thesis using True by (simp only: next_offset_def if_True mod_add_self2 add_0)
qed (simp add: trailer_def next_offset_def)

context writable_file
begin

lemma Emit_appends:
  assumes "room (lw_dest this) n" "kHeaderSize + length ptr \<le> n"
    "lw_block_offset this + kHeaderSize + length ptr \<le> kBlockSize"
  shows "\<exists>this'. EmitPhysicalRecord ext Append Flush t ptr this = Some (Status_OK, this')
    \<and> contents (lw_dest this') = contents (lw_dest this) @ physical_header ext (lw_type_crc this) t ptr @ ptr
    \<and> room (lw_dest this') (n - kHeaderSize - length ptr)
    \<and> lw_block_offset this' = lw_block_offset this + kHeaderSize + length ptr
    \<and> lw_type_crc this' = lw_type_crc this"
proof -
  let ?h = "physical_header ext (lw_type_crc this) t ptr"
  have le: "length ptr \<le> n - kHeaderSize" using assms(2) by linarith
  obtain f1 where f1: "Append (lw_dest this) ?h = (Status_OK, f1)" "contents f1 = contents (lw_dest this) @ ?h"
      "room f1 (n - kHeaderSize)"
    using Append_contents [OF assms(1), of ?h] assms(2) by auto
  obtain f2 where f2: "Append f1 ptr = (Status_OK, f2)" "contents f2 = contents f1 @ ptr" "room f2 (n - kHeaderSize - length ptr)"
    using Append_contents [OF f1(3), of ptr] le by auto
  obtain f3 where f3: "Flush f2 = (Status_OK, f3)" "contents f3 = contents f2" "room f3 (n - kHeaderSize - length ptr)"
    using Flush_contents [OF f2(3)] by auto
  show ?thesis using assms(3) f1 f2 f3 by (simp add: EmitPhysicalRecord_def Let_def kBlockSize_def)
qed

lemma switch_block_appends:
  assumes "room (lw_dest this) n" "trailer (lw_block_offset this) \<le> n"
  shows "contents (lw_dest (switch_block Append this)) = contents (lw_dest this) @ replicate (trailer (lw_block_offset this)) 0
    \<and> room (lw_dest (switch_block Append this)) (n - trailer (lw_block_offset this))
    \<and> lw_block_offset (switch_block Append this) = next_offset (lw_block_offset this)
    \<and> lw_type_crc (switch_block Append this) = lw_type_crc this"
  using Append_contents [OF assms(1), of "replicate (trailer (lw_block_offset this)) 0"] assms
  by (auto simp: switch_block_def Let_def trailer_def next_offset_def)

lemma AddRecord_loop_appends:
  assumes "room (lw_dest this) n" "length (record_bytes ext (lw_block_offset this) is_begin ptr) \<le> n"
    "lw_block_offset this \<le> kBlockSize" "lw_type_crc this = InitTypeCrc ext"
  shows "\<exists>this'. AddRecord_loop ext Append Flush is_begin ptr this = Some (Status_OK, this')
    \<and> contents (lw_dest this') = contents (lw_dest this) @ record_bytes ext (lw_block_offset this) is_begin ptr
    \<and> room (lw_dest this') (n - length (record_bytes ext (lw_block_offset this) is_begin ptr))
    \<and> lw_block_offset this' \<le> kBlockSize \<and> lw_type_crc this' = InitTypeCrc ext
    \<and> lw_block_offset this' mod kBlockSize
        = (lw_block_offset this + length (record_bytes ext (lw_block_offset this) is_begin ptr)) mod kBlockSize"
  using assms
proof (induction "lw_block_offset this" is_begin ptr arbitrary: this n rule: fragments.induct)
  case (1 is_begin ptr)
  let ?off = "lw_block_offset this" and ?this1 = "switch_block Append this"
  define avail where "avail = kBlockSize - next_offset ?off - kHeaderSize"
  define k where "k = min (length ptr) avail"
  let ?t = "fragment_type is_begin (length ptr \<le> avail)"
  let ?rest = "if avail < length ptr then record_bytes ext (next_offset ?off + kHeaderSize + k) False (drop k ptr) else []"
  have bytes: "record_bytes ext ?off is_begin ptr = replicate (trailer ?off) 0
      @ (physical_header ext (InitTypeCrc ext) ?t (take k ptr) @ take k ptr) @ ?rest"
    by (simp add: record_bytes_def fragments.simps [of ?off] Let_def fragment_bytes_def avail_def k_def)
  have lk: "length (take k ptr) = k" and mk: "min (length ptr) k = k" by (simp_all add: k_def)
  have le: "trailer ?off + (kHeaderSize + k) + length ?rest \<le> n"
    using 1(3) unfolding bytes length_append length_replicate length_physical_header lk by linarith
  then have le1: "kHeaderSize + k \<le> n - trailer ?off" and le2: "length ?rest \<le> n - trailer ?off - kHeaderSize - k"
    by linarith+
  have sw: "contents (lw_dest ?this1) = contents (lw_dest this) @ replicate (trailer ?off) 0"
      "room (lw_dest ?this1) (n - trailer ?off)" "lw_block_offset ?this1 = next_offset ?off" "lw_type_crc ?this1 = InitTypeCrc ext"
    using switch_block_appends [OF 1(2)] le 1(5) by auto
  have tr: "(?off + (trailer ?off + m)) mod kBlockSize = (next_offset ?off + m) mod kBlockSize" for m
    by (rule trailer_mod [OF 1(4)])
  have fits: "next_offset ?off + kHeaderSize + k \<le> kBlockSize"
    using next_offset_le(2) [OF 1(4)] by (simp add: k_def avail_def)
  obtain this2 where em: "EmitPhysicalRecord ext Append Flush ?t (take k ptr) ?this1 = Some (Status_OK, this2)"
      "contents (lw_dest this2) = contents (lw_dest ?this1) @ physical_header ext (InitTypeCrc ext) ?t (take k ptr) @ take k ptr"
      "room (lw_dest this2) (n - trailer ?off - kHeaderSize - k)" "lw_block_offset this2 = next_offset ?off + kHeaderSize + k"
      "lw_type_crc this2 = InitTypeCrc ext"
    using Emit_appends [OF sw(2), of "take k ptr" ext ?t] le1 fits unfolding lk sw(3,4) by auto
  have step: "AddRecord_loop ext Append Flush is_begin ptr this =
      (if avail < length ptr then AddRecord_loop ext Append Flush False (drop k ptr) this2 else Some (Status_OK, this2))"
  proof -
    have k: "(if length ptr < avail then length ptr else avail) = k" and e: "(length ptr = k) = (length ptr \<le> avail)"
      and l: "(0 < length (drop k ptr)) = (avail < length ptr)" by (auto simp: k_def)
    show ?thesis using 1(4) em(1)
      unfolding AddRecord_loop.simps [of ext Append Flush is_begin ptr this] Let_def sw(3) avail_def [symmetric] k e l
      by simp
  qed
  show ?case
  proof (cases "avail < length ptr")
    case True
    obtain this3 where "AddRecord_loop ext Append Flush False (drop k ptr) this2 = Some (Status_OK, this3)"
      "contents (lw_dest this3) = contents (lw_dest this2) @ ?rest"
      "room (lw_dest this3) (n - trailer ?off - kHeaderSize - k - length ?rest)"
      "lw_block_offset this3 \<le> kBlockSize" "lw_type_crc this3 = InitTypeCrc ext"
      "lw_block_offset this3 mod kBlockSize = (lw_block_offset this2 + length ?rest) mod kBlockSize"
      using 1(1) [OF avail_def k_def True em(4) [symmetric] em(3)] em(4,5) fits le2 True by auto
    then show ?thesis using True step em(2,4) sw(1) tr [of "kHeaderSize + (k + length ?rest)"]
      unfolding bytes by (simp add: mk add.assoc)
  next
    case False
    then show ?thesis using step em sw(1) fits tr [of "kHeaderSize + k"] unfolding bytes by (simp add: mk add.assoc)
  qed
qed

end

end
