(* ===== verification/MemEnv.thy ===== *)
theory MemEnv
  imports FileInterface Comparator
begin

section \<open>The in-memory environment (helpers/memenv/memenv.cc)\<close>

text \<open>
  A \<open>FileState\<close> is a reference count, a vector of blocks of 8 KB and a size. The environment maps names to
  pointers to file states; a null pointer is \<open>None\<close>. The heap maps addresses to live file states, so a
  deleted object is not in it, and an access through a null or dangling pointer has no result. Fresh memory
  is an argument: its contents are not initialised. Locks are left out: every method body runs under one.
\<close>

definition kBlockSize_mem :: nat where "kBlockSize_mem = 8192"

record FileState =
  fs_refs :: int
  fs_blocks :: "bytes list"
  fs_size :: u64

definition FileState_new :: FileState where
  "FileState_new = \<lparr>fs_refs = 0, fs_blocks = [], fs_size = 0\<rparr>"

definition Truncate :: "FileState \<Rightarrow> FileState" where
  "Truncate this = this\<lparr>fs_blocks := [], fs_size := 0\<rparr>"

function Read_loop :: "bytes list \<Rightarrow> nat \<Rightarrow> nat \<Rightarrow> nat \<Rightarrow> bytes" where
  "Read_loop blocks block block_offset bytes_to_copy =
     (if 0 < bytes_to_copy \<and> block_offset < kBlockSize_mem then
        (let avail = kBlockSize_mem - block_offset;
             avail = (if bytes_to_copy < avail then bytes_to_copy else avail)
         in take avail (drop block_offset (blocks ! block)) @ Read_loop blocks (block + 1) 0 (bytes_to_copy - avail))
      else [])"
  by pat_completeness auto
termination
  by (relation "measure (\<lambda>(b, i, k, n). n)") auto

declare Read_loop.simps [simp del]

definition FileState_Read :: "FileState \<Rightarrow> u64 \<Rightarrow> u64 \<Rightarrow> Status \<times> bytes" where
  "FileState_Read this offset n =
     (if fs_size this < offset then (IOError (bytes_of_string ''Offset greater than file size.'') [], [])
      else
        (let available = fs_size this - offset;
             n = (if available < n then available else n)
         in if n = 0 then (Status_OK, [])
            else (Status_OK,
              Read_loop (fs_blocks this) (unat (offset div of_nat kBlockSize_mem))
                (unat (offset mod of_nat kBlockSize_mem)) (unat n))))"

function FileState_Append_loop :: "bytes \<Rightarrow> FileState \<Rightarrow> bytes \<Rightarrow> FileState" where
  "FileState_Append_loop fresh this src =
     (if src = [] then this
      else
        (let offset = unat (fs_size this) mod kBlockSize_mem;
             this' = (if offset \<noteq> 0 then this else this\<lparr>fs_blocks := fs_blocks this @ [fresh]\<rparr>);
             avail = kBlockSize_mem - offset;
             avail = (if length src < avail then length src else avail);
             back = last (fs_blocks this');
             back = take offset back @ take avail src @ drop (offset + avail) back
         in FileState_Append_loop fresh
              (this'\<lparr>fs_blocks := butlast (fs_blocks this') @ [back], fs_size := fs_size this + of_nat avail\<rparr>)
              (drop avail src)))"
  by pat_completeness auto
termination
  by (relation "measure (\<lambda>(f, t, src). length src)") (auto simp: Let_def kBlockSize_mem_def)

declare FileState_Append_loop.simps [simp del]

definition FileState_Append :: "bytes \<Rightarrow> FileState \<Rightarrow> bytes \<Rightarrow> Status \<times> FileState" where
  "FileState_Append fresh this data = (Status_OK, FileState_Append_loop fresh this data)"

subsection \<open>A file is the sequence of its bytes\<close>

definition fs_contents :: "FileState \<Rightarrow> bytes" where
  "fs_contents this = take (unat (fs_size this)) (concat (fs_blocks this))"

definition fs_inv :: "FileState \<Rightarrow> bool" where
  "fs_inv this \<longleftrightarrow> (\<forall>b \<in> set (fs_blocks this). length b = kBlockSize_mem)
     \<and> length (fs_blocks this) = (unat (fs_size this) + kBlockSize_mem - 1) div kBlockSize_mem"

lemma length_concat_blocks:
  "\<forall>b \<in> set bs. length b = n \<Longrightarrow> length (concat bs) = length bs * n"
  by (induction bs) simp_all

lemma fs_inv_size:
  assumes "fs_inv this"
  shows "length (concat (fs_blocks this)) = length (fs_blocks this) * kBlockSize_mem"
    and "unat (fs_size this) \<le> length (fs_blocks this) * kBlockSize_mem"
    and "length (fs_blocks this) * kBlockSize_mem < unat (fs_size this) + kBlockSize_mem"
  using assms length_concat_blocks [of "fs_blocks this" kBlockSize_mem]
  by (auto simp: fs_inv_def kBlockSize_mem_def)

lemma length_fs_contents: "fs_inv this \<Longrightarrow> length (fs_contents this) = unat (fs_size this)"
  using fs_inv_size [of this] by (simp add: fs_contents_def)

lemma drop_concat_blocks:
  assumes "\<forall>b \<in> set bs. length b = n" and "i \<le> length bs"
  shows "drop (i * n) (concat bs) = concat (drop i bs)"
proof -
  have "concat bs = concat (take i bs) @ concat (drop i bs)" by (metis append_take_drop_id concat_append)
  moreover have "length (concat (take i bs)) = i * n"
    using length_concat_blocks [of "take i bs" n] assms by (auto dest: in_set_takeD)
  ultimately show ?thesis by (metis append_eq_conv_conj)
qed

lemma Read_loop_correct:
  assumes "\<forall>b \<in> set blocks. length b = kBlockSize_mem" and "off < kBlockSize_mem"
    and "block * kBlockSize_mem + off + n \<le> length blocks * kBlockSize_mem"
  shows "Read_loop blocks block off n = take n (drop (block * kBlockSize_mem + off) (concat blocks))"
  using assms
proof (induction blocks block off n rule: Read_loop.induct)
  case (1 blocks block off n)
  let ?K = kBlockSize_mem
  show ?case
  proof (cases "0 < n")
    case True
    define avail where "avail = (if n < ?K - off then n else ?K - off)"
    have blk: "block < length blocks"
    proof (rule ccontr)
      assume "\<not> block < length blocks"
      then have "length blocks * ?K \<le> block * ?K" by simp
      then show False using "1.prems"(3) True by linarith
    qed
    have le: "length (blocks ! block) = ?K" using "1.prems"(1) blk by simp
    have "drop (block * ?K + off) (concat blocks) = drop off (concat (drop block blocks))"
      using drop_concat_blocks [OF "1.prems"(1), of block] blk by (simp add: drop_drop [symmetric] add.commute del: drop_drop)
    also have "drop block blocks = blocks ! block # drop (Suc block) blocks" using blk by (simp add: Cons_nth_drop_Suc)
    finally have d: "drop (block * ?K + off) (concat blocks) = drop off (blocks ! block) @ concat (drop (Suc block) blocks)"
      using "1.prems"(2) le by simp
    have nxt: "concat (drop (Suc block) blocks) = drop ((block + 1) * ?K + 0) (concat blocks)"
      using drop_concat_blocks [OF "1.prems"(1), of "Suc block"] blk by simp
    have "(block + 1) * ?K + 0 + (n - avail) \<le> length blocks * ?K"
    proof (cases "n < ?K - off")
      case True
      then show ?thesis using mult_le_mono1 [of "Suc block" "length blocks" ?K] blk by (simp add: avail_def)
    next
      case False
      then show ?thesis using "1.prems"(2,3) by (simp add: avail_def)
    qed
    then have IH: "Read_loop blocks (block + 1) 0 (n - avail) = take (n - avail) (drop ((block + 1) * ?K + 0) (concat blocks))"
      using "1.IH" [OF _ refl avail_def] True "1.prems"(1,2) by (simp add: kBlockSize_mem_def)
    have "Read_loop blocks block off n = take avail (drop off (blocks ! block)) @ Read_loop blocks (block + 1) 0 (n - avail)"
      using True "1.prems"(2) unfolding avail_def by (subst Read_loop.simps) (simp add: Let_def)
    also have "\<dots> = take n (drop (block * ?K + off) (concat blocks))"
      unfolding IH d nxt using "1.prems"(2) le by (simp add: avail_def)
    finally show ?thesis .
  qed (simp add: Read_loop.simps)
qed

lemma FileState_Read_contents:
  assumes "fs_inv this"
  shows "if unat offset \<le> length (fs_contents this)
    then FileState_Read this offset n = (Status_OK, take (unat n) (drop (unat offset) (fs_contents this)))
    else IsIOError (fst (FileState_Read this offset n))"
proof (cases "fs_size this < offset")
  case True
  then show ?thesis using length_fs_contents [OF assms]
    by (simp add: FileState_Read_def IOError_def IsIOError_def word_less_nat_alt)
next
  case False
  define m where "m = (if fs_size this - offset < n then fs_size this - offset else n)"
  have off: "unat offset \<le> unat (fs_size this)" using False by (simp add: word_less_nat_alt)
  have m: "unat m = min (unat n) (unat (fs_size this) - unat offset)"
    using off by (auto simp: m_def word_less_nat_alt unat_sub word_le_nat_alt)
  let ?K = kBlockSize_mem
  have "unat (offset div of_nat ?K) * ?K + unat (offset mod of_nat ?K) = unat offset"
    by (simp add: kBlockSize_mem_def unat_div unat_mod)
  moreover have "unat offset + unat m \<le> length (fs_blocks this) * ?K"
    using m off fs_inv_size(2) [OF assms] by simp
  moreover have "unat (offset mod of_nat ?K) < ?K" by (simp add: kBlockSize_mem_def unat_mod)
  ultimately have "Read_loop (fs_blocks this) (unat (offset div of_nat ?K)) (unat (offset mod of_nat ?K)) (unat m)
      = take (unat m) (drop (unat offset) (concat (fs_blocks this)))"
    using Read_loop_correct [of "fs_blocks this"] assms by (simp add: fs_inv_def)
  also have "\<dots> = take (unat n) (drop (unat offset) (fs_contents this))"
    using m by (simp add: fs_contents_def drop_take)
  finally have r: "Read_loop (fs_blocks this) (unat (offset div of_nat ?K)) (unat (offset mod of_nat ?K)) (unat m)
      = take (unat n) (drop (unat offset) (fs_contents this))" .
  have "FileState_Read this offset n = (if m = 0 then (Status_OK, []) else (Status_OK,
      Read_loop (fs_blocks this) (unat (offset div of_nat ?K)) (unat (offset mod of_nat ?K)) (unat m)))"
    using False by (simp add: FileState_Read_def Let_def m_def)
  also have "\<dots> = (Status_OK, take (unat n) (drop (unat offset) (fs_contents this)))"
    using r by (cases "m = 0") (simp_all add: Read_loop.simps [of _ _ _ 0])
  finally have "FileState_Read this offset n = (Status_OK, take (unat n) (drop (unat offset) (fs_contents this)))" .
  then show ?thesis using off length_fs_contents [OF assms] by simp
qed

lemma append_last_block:
  assumes "concat pre @ take off back = c" and "length back = k" and "off + length d \<le> k" and "length (concat pre) + off = s"
  shows "take (s + length d) (concat (pre @ [take off back @ d @ drop (off + length d) back])) = c @ d"
  using assms by auto

lemma block_count:
  fixes s :: nat
  assumes "s mod 8192 \<noteq> 0"
  shows "(s + 8192 - 1) div 8192 = Suc (s div 8192)"
proof -
  obtain r where r: "s mod 8192 = Suc r" using assms by (cases "s mod 8192") auto
  have "s + 8192 - 1 = r + (s div 8192 + 1) * 8192" using r div_mult_mod_eq [of s 8192] by simp
  moreover have "r < 8192" using r mod_less_divisor [of 8192 s] by linarith
  ultimately show ?thesis by simp
qed

lemma append_block:
  assumes inv: "fs_inv this" and fresh: "length fresh = kBlockSize_mem"
  defines "off \<equiv> unat (fs_size this) mod kBlockSize_mem"
  obtains pre blk where "(if off \<noteq> 0 then fs_blocks this else fs_blocks this @ [fresh]) = pre @ [blk]"
    "length blk = kBlockSize_mem" "\<forall>b \<in> set pre. length b = kBlockSize_mem"
    "unat (fs_size this) = length pre * kBlockSize_mem + off" "fs_contents this = concat pre @ take off blk"
proof (cases "off = 0")
  case True
  then have "unat (fs_size this) = length (fs_blocks this) * kBlockSize_mem"
    using inv by (auto simp: fs_inv_def off_def kBlockSize_mem_def)
  then show ?thesis using that [of "fs_blocks this" fresh] True inv fresh fs_inv_size(1) [OF inv]
    by (simp add: fs_contents_def fs_inv_def)
next
  case False
  have n: "length (fs_blocks this) = Suc (unat (fs_size this) div kBlockSize_mem)"
    using inv False block_count [of "unat (fs_size this)"] unfolding fs_inv_def off_def kBlockSize_mem_def by simp
  then obtain pre blk where pb: "fs_blocks this = pre @ [blk]" by (cases "fs_blocks this" rule: rev_cases) auto
  then have len: "length blk = kBlockSize_mem" "\<forall>b \<in> set pre. length b = kBlockSize_mem"
    using inv by (auto simp: fs_inv_def)
  have s: "unat (fs_size this) = length pre * kBlockSize_mem + off" using n pb by (simp add: off_def)
  have "fs_contents this = concat pre @ take off blk"
    using length_concat_blocks [OF len(2)] by (simp add: fs_contents_def pb s)
  then show ?thesis using that [of pre blk] False pb len s by simp
qed

lemma FileState_Append_loop_contents:
  assumes "fs_inv this" and "length fresh = kBlockSize_mem" and "unat (fs_size this) + length src < 2 ^ 64"
  shows "fs_inv (FileState_Append_loop fresh this src)
    \<and> fs_contents (FileState_Append_loop fresh this src) = fs_contents this @ src
    \<and> fs_refs (FileState_Append_loop fresh this src) = fs_refs this"
  using assms
proof (induction fresh this src rule: FileState_Append_loop.induct)
  case (1 fresh this src)
  let ?K = kBlockSize_mem
  show ?case
  proof (cases "src = []")
    case False
    define off where "off = unat (fs_size this) mod ?K"
    define this' where "this' = (if off \<noteq> 0 then this else this\<lparr>fs_blocks := fs_blocks this @ [fresh]\<rparr>)"
    define avail where "avail = (if length src < ?K - off then length src else ?K - off)"
    obtain pre blk where pb: "(if off \<noteq> 0 then fs_blocks this else fs_blocks this @ [fresh]) = pre @ [blk]"
      "length blk = ?K" "\<forall>b \<in> set pre. length b = ?K" "unat (fs_size this) = length pre * ?K + off"
      "fs_contents this = concat pre @ take off blk"
      using append_block [OF "1.prems"(1,2)] unfolding off_def by blast
    have blocks: "fs_blocks this' = pre @ [blk]" using pb(1) by (simp add: this'_def split: if_splits)
    define blk' where "blk' = take off blk @ take avail src @ drop (off + avail) blk"
    define nxt where "nxt = this'\<lparr>fs_blocks := pre @ [blk'], fs_size := fs_size this + of_nat avail\<rparr>"
    have av: "0 < avail" "avail \<le> length src" "off + avail \<le> ?K" "off < ?K"
      using False by (auto simp: avail_def off_def kBlockSize_mem_def)
    have sz: "unat (fs_size nxt) = unat (fs_size this) + avail"
      using "1.prems"(3) av(2) by (simp add: nxt_def unat_word_ariths unat_of_nat_u64)
    have "length blk' = ?K" using av pb(2) by (simp add: blk'_def)
    then have inv: "fs_inv nxt" using pb(3,4) sz av by (simp add: fs_inv_def nxt_def kBlockSize_mem_def)
    have cont: "fs_contents nxt = fs_contents this @ take avail src"
      using append_last_block [OF pb(5) [symmetric] pb(2), of "take avail src" "unat (fs_size this)"] av pb(4) sz
        length_concat_blocks [OF pb(3)] by (simp add: fs_contents_def nxt_def blk'_def)
    have step: "FileState_Append_loop fresh this src = FileState_Append_loop fresh nxt (drop avail src)"
      using False pb(1) by (subst FileState_Append_loop.simps)
        (simp add: Let_def off_def [symmetric] avail_def [symmetric] nxt_def blk'_def this'_def split: if_splits)
    have refs: "fs_refs nxt = fs_refs this" by (simp add: nxt_def this'_def)
    note IH = "1.IH" [OF False off_def this'_def refl avail_def refl refl]
    have "fs_inv (FileState_Append_loop fresh nxt (drop avail src))
      \<and> fs_contents (FileState_Append_loop fresh nxt (drop avail src)) = fs_contents nxt @ drop avail src
      \<and> fs_refs (FileState_Append_loop fresh nxt (drop avail src)) = fs_refs nxt"
      using IH inv "1.prems"(2,3) sz av(2) by (simp add: blocks nxt_def blk'_def)
    then show ?thesis unfolding step using cont refs by simp
  qed (use 1 in \<open>simp add: FileState_Append_loop.simps\<close>)
qed

text \<open>
  (C22) A file state of the in-memory environment implements a byte sequence. \<open>Append\<close>, which fills the last
  block and then pushes new ones, keeps the block structure and extends the sequence by the data,
  whatever fresh memory holds. \<open>Read\<close> inside the file gives the bytes from the offset on, as many as asked
  for or as there are, and beyond the end an I/O error.
\<close>

theorem FileState_refines_bytes:
  assumes "fs_inv this" and "length fresh = kBlockSize_mem" and "unat (fs_size this) + length data < 2 ^ 64"
  shows "Status_ok (fst (FileState_Append fresh this data)) \<and> fs_inv (snd (FileState_Append fresh this data))
    \<and> fs_contents (snd (FileState_Append fresh this data)) = fs_contents this @ data
    \<and> (if unat offset \<le> length (fs_contents this)
       then FileState_Read this offset n = (Status_OK, take (unat n) (drop (unat offset) (fs_contents this)))
       else IsIOError (fst (FileState_Read this offset n)))"
  using FileState_Append_loop_contents [OF assms] FileState_Read_contents [OF assms(1)]
  by (simp add: FileState_Append_def)

definition example_file :: FileState where
  "example_file = \<lparr>fs_refs = 1, fs_blocks = [replicate 8192 7], fs_size = 8190\<rparr>"

lemma example_file_inv: "fs_inv example_file"
  by (simp add: example_file_def fs_inv_def kBlockSize_mem_def)

theorem FileState_refines_bytes_witness:
  "Status_ok (fst (FileState_Append (replicate 8192 0) example_file [1, 2, 3]))
    \<and> fs_inv (snd (FileState_Append (replicate 8192 0) example_file [1, 2, 3]))
    \<and> fs_contents (snd (FileState_Append (replicate 8192 0) example_file [1, 2, 3])) = fs_contents example_file @ [1, 2, 3]
    \<and> (if unat (8000 :: u64) \<le> length (fs_contents example_file)
       then FileState_Read example_file 8000 500 = (Status_OK, take (unat (500 :: u64)) (drop (unat (8000 :: u64)) (fs_contents example_file)))
       else IsIOError (fst (FileState_Read example_file 8000 500)))"
  by (rule FileState_refines_bytes [OF example_file_inv]) (simp_all add: kBlockSize_mem_def example_file_def)

section \<open>The file system\<close>

text \<open>
  \<open>std::map\<close> is a list sorted by name; \<open>operator[]\<close> on a missing name inserts a null pointer. The operations
  return \<open>None\<close> when they use a null or dangling pointer.
\<close>

record InMemoryEnv =
  env_heap :: "nat \<Rightarrow> FileState option"
  env_next :: nat
  env_files :: "(bytes \<times> nat option) list"

definition InMemoryEnv_new :: InMemoryEnv where
  "InMemoryEnv_new = \<lparr>env_heap = (\<lambda>_. None), env_next = 0, env_files = []\<rparr>"

fun map_set :: "bytes \<Rightarrow> 'a \<Rightarrow> (bytes \<times> 'a) list \<Rightarrow> (bytes \<times> 'a) list" where
  "map_set k v [] = [(k, v)]"
| "map_set k v ((k', v') # m) =
     (if k < k' then (k, v) # (k', v') # m else if k = k' then (k, v) # m else (k', v') # map_set k v m)"

definition map_erase :: "bytes \<Rightarrow> (bytes \<times> 'a) list \<Rightarrow> (bytes \<times> 'a) list" where
  "map_erase k m = filter (\<lambda>e. fst e \<noteq> k) m"

definition Ref :: "nat \<Rightarrow> InMemoryEnv \<Rightarrow> InMemoryEnv option" where
  "Ref a env =
     (case env_heap env a of None \<Rightarrow> None
      | Some fs \<Rightarrow> Some (env\<lparr>env_heap := (env_heap env)(a \<mapsto> fs\<lparr>fs_refs := fs_refs fs + 1\<rparr>)\<rparr>))"

text \<open>\<open>Unref\<close> deletes the object with its last reference; its assertion is a premise of having a result.\<close>

definition Unref :: "nat \<Rightarrow> InMemoryEnv \<Rightarrow> InMemoryEnv option" where
  "Unref a env =
     (case env_heap env a of None \<Rightarrow> None
      | Some fs \<Rightarrow>
          (let refs = fs_refs fs - 1 in
           if refs < 0 then None
           else Some (env\<lparr>env_heap := (env_heap env)(a := if refs \<le> 0 then None else Some (fs\<lparr>fs_refs := refs\<rparr>))\<rparr>)))"

definition file_not_found :: "bytes \<Rightarrow> Status" where
  "file_not_found fname = IOError fname (bytes_of_string ''File not found'')"

text \<open>A sequential file is a pointer with a position, the other two kinds are the pointer.\<close>

definition NewRandomAccessFile :: "bytes \<Rightarrow> InMemoryEnv \<Rightarrow> (Status \<times> nat option \<times> InMemoryEnv) option" where
  "NewRandomAccessFile fname env =
     (case map_of (env_files env) fname of None \<Rightarrow> Some (file_not_found fname, None, env)
      | Some None \<Rightarrow> None
      | Some (Some a) \<Rightarrow> map_option (\<lambda>env. (Status_OK, Some a, env)) (Ref a env))"

definition NewSequentialFile ::
    "bytes \<Rightarrow> InMemoryEnv \<Rightarrow> (Status \<times> (nat \<times> u64) option \<times> InMemoryEnv) option" where
  "NewSequentialFile fname env =
     (case map_of (env_files env) fname of None \<Rightarrow> Some (file_not_found fname, None, env)
      | Some None \<Rightarrow> None
      | Some (Some a) \<Rightarrow> map_option (\<lambda>env. (Status_OK, Some (a, 0), env)) (Ref a env))"

definition new_file :: "InMemoryEnv \<Rightarrow> nat \<times> InMemoryEnv" where
  "new_file env =
     (env_next env, env\<lparr>env_heap := (env_heap env)(env_next env \<mapsto> FileState_new), env_next := env_next env + 1\<rparr>)"

definition NewWritableFile :: "bytes \<Rightarrow> InMemoryEnv \<Rightarrow> (Status \<times> nat \<times> InMemoryEnv) option" where
  "NewWritableFile fname env =
     (case map_of (env_files env) fname of
        None \<Rightarrow>
          (let (a, env) = new_file env in
           case Ref a env of None \<Rightarrow> None
           | Some env \<Rightarrow>
               map_option (\<lambda>env. (Status_OK, a, env)) (Ref a (env\<lparr>env_files := map_set fname (Some a) (env_files env)\<rparr>)))
      | Some None \<Rightarrow> None
      | Some (Some a) \<Rightarrow>
          (case env_heap env a of None \<Rightarrow> None
           | Some fs \<Rightarrow>
               map_option (\<lambda>env. (Status_OK, a, env)) (Ref a (env\<lparr>env_heap := (env_heap env)(a \<mapsto> Truncate fs)\<rparr>))))"

definition NewAppendableFile :: "bytes \<Rightarrow> InMemoryEnv \<Rightarrow> (Status \<times> nat \<times> InMemoryEnv) option" where
  "NewAppendableFile fname env =
     (let env = (if map_of (env_files env) fname = None then env\<lparr>env_files := map_set fname None (env_files env)\<rparr> else env) in
      case the (map_of (env_files env) fname) of
        None \<Rightarrow>
          (let (a, env) = new_file env in
           case Ref a env of None \<Rightarrow> None
           | Some env \<Rightarrow> map_option (\<lambda>env. (Status_OK, a, env)) (Ref a env))
      | Some a \<Rightarrow> map_option (\<lambda>env. (Status_OK, a, env)) (Ref a env))"

definition FileExists :: "bytes \<Rightarrow> InMemoryEnv \<Rightarrow> bool" where
  "FileExists fname env \<longleftrightarrow> map_of (env_files env) fname \<noteq> None"

definition GetChildren :: "bytes \<Rightarrow> InMemoryEnv \<Rightarrow> bytes list" where
  "GetChildren dir env =
     map (\<lambda>(filename, p). drop (length dir + 1) filename)
       (filter (\<lambda>(filename, p). length dir + 1 \<le> length filename \<and> filename ! length dir = 47
          \<and> Slice_starts_with filename dir) (env_files env))"

definition DeleteFileInternal :: "bytes \<Rightarrow> InMemoryEnv \<Rightarrow> InMemoryEnv option" where
  "DeleteFileInternal fname env =
     (case map_of (env_files env) fname of None \<Rightarrow> Some env
      | Some None \<Rightarrow> None
      | Some (Some a) \<Rightarrow>
          map_option (\<lambda>env. env\<lparr>env_files := map_erase fname (env_files env)\<rparr>) (Unref a env))"

definition DeleteFile :: "bytes \<Rightarrow> InMemoryEnv \<Rightarrow> (Status \<times> InMemoryEnv) option" where
  "DeleteFile fname env =
     (if map_of (env_files env) fname = None then Some (file_not_found fname, env)
      else map_option (\<lambda>env. (Status_OK, env)) (DeleteFileInternal fname env))"

definition GetFileSize :: "bytes \<Rightarrow> InMemoryEnv \<Rightarrow> (Status \<times> u64) option" where
  "GetFileSize fname env =
     (case map_of (env_files env) fname of None \<Rightarrow> Some (file_not_found fname, 0)
      | Some None \<Rightarrow> None
      | Some (Some a) \<Rightarrow> map_option (\<lambda>fs. (Status_OK, fs_size fs)) (env_heap env a))"

text \<open>The right-hand side of the assignment is read by \<open>operator[]\<close>, which may insert a null pointer.\<close>

definition RenameFile :: "bytes \<Rightarrow> bytes \<Rightarrow> InMemoryEnv \<Rightarrow> (Status \<times> InMemoryEnv) option" where
  "RenameFile src target env =
     (if map_of (env_files env) src = None then Some (file_not_found src, env)
      else
        (case DeleteFileInternal target env of None \<Rightarrow> None
         | Some env \<Rightarrow>
             (let p = (case map_of (env_files env) src of None \<Rightarrow> None | Some p \<Rightarrow> p)
              in Some (Status_OK, env\<lparr>env_files := map_erase src (map_set target p (env_files env))\<rparr>))))"

text \<open>The methods of the open files.\<close>

definition WritableFile_Append :: "bytes \<Rightarrow> nat \<Rightarrow> bytes \<Rightarrow> InMemoryEnv \<Rightarrow> (Status \<times> InMemoryEnv) option" where
  "WritableFile_Append fresh a data env =
     (case env_heap env a of None \<Rightarrow> None
      | Some fs \<Rightarrow>
          (let (s, fs') = FileState_Append fresh fs data
           in Some (s, env\<lparr>env_heap := (env_heap env)(a \<mapsto> fs')\<rparr>)))"

definition WritableFile_Flush :: "FileState \<Rightarrow> Status \<times> FileState" where
  "WritableFile_Flush this = (Status_OK, this)"

definition SequentialFileImpl_Read :: "FileState \<times> u64 \<Rightarrow> u64 \<Rightarrow> Status \<times> bytes \<times> FileState \<times> u64" where
  "SequentialFileImpl_Read = (\<lambda>(file, pos) n.
     let (s, result) = FileState_Read file pos n
     in (s, result, file, if Status_ok s then pos + of_nat (length result) else pos))"

definition SequentialFileImpl_Skip :: "FileState \<times> u64 \<Rightarrow> u64 \<Rightarrow> Status \<times> FileState \<times> u64" where
  "SequentialFileImpl_Skip = (\<lambda>(file, pos) n.
     if fs_size file < pos then (IOError (bytes_of_string ''pos_ > file_->Size()'') [], file, pos)
     else
       (let available = fs_size file - pos;
            n = (if available < n then available else n)
        in (Status_OK, file, pos + n)))"

definition SequentialFile_Read :: "nat \<times> u64 \<Rightarrow> u64 \<Rightarrow> InMemoryEnv \<Rightarrow> (Status \<times> bytes \<times> (nat \<times> u64)) option" where
  "SequentialFile_Read file n env =
     (case env_heap env (fst file) of None \<Rightarrow> None
      | Some fs \<Rightarrow>
          (let (s, result, _, pos) = SequentialFileImpl_Read (fs, snd file) n in Some (s, result, fst file, pos)))"

definition SequentialFile_Skip :: "nat \<times> u64 \<Rightarrow> u64 \<Rightarrow> InMemoryEnv \<Rightarrow> (Status \<times> (nat \<times> u64)) option" where
  "SequentialFile_Skip file n env =
     (case env_heap env (fst file) of None \<Rightarrow> None
      | Some fs \<Rightarrow>
          (let (s, _, pos) = SequentialFileImpl_Skip (fs, snd file) n in Some (s, fst file, pos)))"

subsection \<open>The file interfaces\<close>

definition fs_room :: "FileState \<Rightarrow> nat \<Rightarrow> bool" where
  "fs_room this n \<longleftrightarrow> fs_inv this \<and> unat (fs_size this) + n < 2 ^ 64"

definition seq_rest :: "FileState \<times> u64 \<Rightarrow> bytes" where
  "seq_rest file = drop (unat (snd file)) (fs_contents (fst file))"

definition seq_valid :: "FileState \<times> u64 \<Rightarrow> bool" where
  "seq_valid file \<longleftrightarrow> fs_inv (fst file) \<and> snd file \<le> fs_size (fst file)"

definition fresh_block :: bytes where
  "fresh_block = replicate kBlockSize_mem 0"

interpretation mem_writable: writable_file "FileState_Append fresh_block" WritableFile_Flush fs_contents fs_room
proof
  fix f n and d :: bytes
  assume f: "fs_room f n" and d: "length d \<le> n"
  have "fs_inv f" "length fresh_block = kBlockSize_mem" "unat (fs_size f) + length d < 2 ^ 64"
    using f d by (auto simp: fs_room_def fresh_block_def)
  note A = FileState_Append_loop_contents [OF this]
  then have "unat (fs_size (FileState_Append_loop fresh_block f d)) = unat (fs_size f) + length d"
    using f length_fs_contents [of "FileState_Append_loop fresh_block f d"] length_fs_contents [of f] by (simp add: fs_room_def)
  then show "\<exists>f'. FileState_Append fresh_block f d = (Status_OK, f') \<and> fs_contents f' = fs_contents f @ d \<and> fs_room f' (n - length d)"
    using A f d by (simp add: FileState_Append_def fs_room_def)
next
  fix f n assume "fs_room f n"
  then show "\<exists>f'. WritableFile_Flush f = (Status_OK, f') \<and> fs_contents f' = fs_contents f \<and> fs_room f' n"
    by (simp add: WritableFile_Flush_def)
qed

lemma seq_advance:
  assumes "seq_valid (fs, pos)" and "k = min (unat n) (length (seq_rest (fs, pos)))"
  shows "seq_rest (fs, pos + of_nat k) = drop (unat n) (seq_rest (fs, pos)) \<and> seq_valid (fs, pos + of_nat k)"
proof -
  have l: "length (fs_contents fs) = unat (fs_size fs)" using assms(1) by (simp add: seq_valid_def length_fs_contents)
  have "unat pos + k \<le> unat (fs_size fs)"
    using assms unfolding seq_valid_def seq_rest_def fst_conv snd_conv length_drop l word_le_nat_alt by linarith
  moreover have "unat (fs_size fs) < 2 ^ 64" using unsigned_less [of "fs_size fs", where 'a = nat] by simp
  ultimately have u: "unat (pos + of_nat k) = unat pos + k"
    using unat_of_nat_u64 [of k] by (simp add: unat_word_ariths)
  have "drop (unat pos + k) (fs_contents fs) = drop (unat n + unat pos) (fs_contents fs)"
    using assms(2) by (auto simp: seq_rest_def min_def add.commute)
  then show ?thesis using assms(1) u \<open>unat pos + k \<le> unat (fs_size fs)\<close>
    by (simp add: seq_rest_def seq_valid_def word_le_nat_alt)
qed

interpretation mem_sequential: sequential_file SequentialFileImpl_Read SequentialFileImpl_Skip seq_rest seq_valid
proof
  fix f n assume v: "seq_valid f"
  obtain fs pos where f: "f = (fs, pos)" by (cases f)
  have "FileState_Read fs pos n = (Status_OK, take (unat n) (seq_rest (fs, pos)))"
    using FileState_Read_contents [of fs pos n] v by (simp add: f seq_valid_def seq_rest_def length_fs_contents word_le_nat_alt)
  then show "\<exists>f'. SequentialFileImpl_Read f n = (Status_OK, take (unat n) (seq_rest f), f')
      \<and> seq_rest f' = drop (unat n) (seq_rest f) \<and> seq_valid f'"
    using seq_advance [OF v [unfolded f] refl, of n] by (simp add: SequentialFileImpl_Read_def f min.commute)
next
  fix f n assume v: "seq_valid f"
  obtain fs pos where f: "f = (fs, pos)" by (cases f)
  let ?k = "if fs_size fs - pos < n then fs_size fs - pos else n"
  have uk: "unat ?k = min (unat n) (length (seq_rest (fs, pos)))"
    using v by (auto simp: f seq_valid_def seq_rest_def length_fs_contents word_less_nat_alt unat_sub)
  have k: "of_nat (min (unat n) (length (seq_rest (fs, pos)))) = ?k" by (simp flip: uk)
  then show "\<exists>f'. SequentialFileImpl_Skip f n = (Status_OK, f') \<and> seq_rest f' = drop (unat n) (seq_rest f) \<and> seq_valid f'"
    using seq_advance [OF v [unfolded f] refl, of n] v unfolding k
    by (simp add: SequentialFileImpl_Skip_def Let_def f seq_valid_def not_less [symmetric])
qed

definition RandomAccessFileImpl_Read :: "FileState \<Rightarrow> u64 \<Rightarrow> u64 \<Rightarrow> Status \<times> bytes" where
  "RandomAccessFileImpl_Read file offset n = FileState_Read file offset n"

interpretation mem_random: random_access_file RandomAccessFileImpl_Read fs_contents fs_inv
proof
  fix f and offset n :: u64
  assume "fs_inv f" "unat offset \<le> length (fs_contents f)"
  then show "RandomAccessFileImpl_Read f offset n = (Status_OK, take (unat n) (drop (unat offset) (fs_contents f)))"
    using FileState_Read_contents [of f offset n] by (simp add: RandomAccessFileImpl_Read_def)
qed

subsection \<open>References are counted\<close>

definition entry_count :: "(bytes \<times> nat option) list \<Rightarrow> nat \<Rightarrow> nat" where
  "entry_count m a = length (filter (\<lambda>e. snd e = Some a) m)"

definition refs_to :: "InMemoryEnv \<Rightarrow> nat list \<Rightarrow> nat \<Rightarrow> nat" where
  "refs_to env handles a = entry_count (env_files env) a + count_list handles a"

definition names_sorted :: "(bytes \<times> 'a) list \<Rightarrow> bool" where
  "names_sorted m \<longleftrightarrow> sorted_wrt (<) (map fst m)"

lemma map_of_map_set: "map_of (map_set k v m) = (map_of m)(k \<mapsto> v)"
  by (induction k v m rule: map_set.induct) auto

lemma keys_map_set: "fst ` set (map_set k v m) = insert k (fst ` set m)"
  by (induction k v m rule: map_set.induct) auto

lemma names_sorted_map_set: "names_sorted m \<Longrightarrow> names_sorted (map_set k v m)"
proof (induction k v m rule: map_set.induct)
  case (2 k v k' v' m)
  have "\<forall>x \<in> set (map fst (map_set k v m)). k' < x" if "\<not> k < k'" "k \<noteq> k'"
    using 2(2) that keys_map_set [of k v m] by (auto simp: names_sorted_def)
  then show ?case using 2 by (auto simp: names_sorted_def)
qed (simp add: names_sorted_def)

lemma names_sorted_map_erase: "names_sorted m \<Longrightarrow> names_sorted (map_erase k m)"
  unfolding names_sorted_def map_erase_def by (induction m) auto

lemma map_of_map_erase: "map_of (map_erase k m) = (map_of m)(k := None)"
  by (induction m) (auto simp: map_erase_def)

lemma names_sorted_key_notin:
  "names_sorted ((k, v) # m) \<Longrightarrow> k \<notin> fst ` set m"
  by (auto simp: names_sorted_def)

lemma entry_count_map_set_new:
  "map_of m k = None \<Longrightarrow> entry_count (map_set k v m) a = entry_count m a + (if v = Some a then 1 else 0)"
  by (induction k v m rule: map_set.induct) (auto simp: entry_count_def split: if_splits)

lemma map_erase_notin: "k \<notin> fst ` set m \<Longrightarrow> map_erase k m = m"
  unfolding map_erase_def by (induction m) auto

lemma entry_count_map_erase:
  "names_sorted m \<Longrightarrow> map_of m k = Some v \<Longrightarrow> entry_count m a = entry_count (map_erase k m) a + (if v = Some a then 1 else 0)"
proof (induction m)
  case (Cons e m)
  obtain k' v' where e: "e = (k', v')" by (cases e)
  show ?case
  proof (cases "k' = k")
    case True
    have "k \<notin> fst ` set m" using names_sorted_key_notin [of k v' m] Cons.prems(1) True e by simp
    then have "map_erase k (e # m) = m" using map_erase_notin [of k m] True e by (simp add: map_erase_def)
    then show ?thesis using Cons.prems True e by (simp add: entry_count_def)
  next
    case False
    then have "map_erase k (e # m) = e # map_erase k m" using e by (simp add: map_erase_def)
    moreover have "names_sorted m" using Cons.prems(1) by (simp add: names_sorted_def)
    ultimately show ?thesis using Cons False e by (simp add: entry_count_def)
  qed
qed simp

lemma entry_count_pos: "map_of m k = Some (Some a) \<Longrightarrow> 0 < entry_count m a"
  by (induction m) (auto simp: entry_count_def split: if_splits)

text \<open>A heap in which every object has at least \<open>r a\<close> references counted.\<close>

definition heap_ok :: "(nat \<Rightarrow> FileState option) \<Rightarrow> (nat \<Rightarrow> nat) \<Rightarrow> bool" where
  "heap_ok h r \<longleftrightarrow> (\<forall>a. 0 < r a \<longrightarrow> h a \<noteq> None)
     \<and> (\<forall>a fs. h a = Some fs \<longrightarrow> fs_inv fs \<and> int (r a) \<le> fs_refs fs)"

lemma heap_ok_alive: "heap_ok h r \<Longrightarrow> 0 < r a \<Longrightarrow> \<exists>fs. h a = Some fs \<and> fs_inv fs"
  unfolding heap_ok_def by blast

lemma heap_ok_le: "heap_ok h r \<Longrightarrow> (\<And>a. r' a \<le> r a) \<Longrightarrow> heap_ok h r'"
  unfolding heap_ok_def by (metis (no_types, opaque_lifting) dual_order.trans less_le_trans of_nat_le_iff)

lemma heap_ok_update:
  "heap_ok h r \<Longrightarrow> fs_inv fs \<Longrightarrow> int (r a) \<le> fs_refs fs \<Longrightarrow> heap_ok (h(a \<mapsto> fs)) r"
  by (auto simp: heap_ok_def)

lemma fs_inv_refs [simp]: "fs_inv (fs\<lparr>fs_refs := n\<rparr>) = fs_inv fs"
  by (simp add: fs_inv_def)

lemma fs_inv_empty [simp]: "fs_inv FileState_new" "fs_inv (Truncate fs)"
  by (simp_all add: fs_inv_def FileState_new_def Truncate_def kBlockSize_mem_def)

lemma heap_ok_Ref:
  assumes "heap_ok (env_heap env) r" and "env_heap env a = Some fs"
  obtains env' where "Ref a env = Some env'" "heap_ok (env_heap env') (r(a := r a + 1))"
    "env_files env' = env_files env" "env_next env' = env_next env"
    "env_heap env' = (env_heap env)(a \<mapsto> fs\<lparr>fs_refs := fs_refs fs + 1\<rparr>)"
proof -
  have "heap_ok ((env_heap env)(a \<mapsto> fs\<lparr>fs_refs := fs_refs fs + 1\<rparr>)) (r(a := r a + 1))"
    using assms by (auto simp: heap_ok_def)
  then show ?thesis using that [of "env\<lparr>env_heap := (env_heap env)(a \<mapsto> fs\<lparr>fs_refs := fs_refs fs + 1\<rparr>)\<rparr>"] assms(2)
    by (simp add: Ref_def)
qed

lemma heap_ok_Unref:
  assumes "heap_ok (env_heap env) r" and "0 < r a"
  obtains env' where "Unref a env = Some env'" "heap_ok (env_heap env') (r(a := r a - 1))"
    "env_files env' = env_files env" "env_next env' = env_next env"
    "\<forall>b. b \<noteq> a \<longrightarrow> env_heap env' b = env_heap env b"
    "\<forall>b. env_heap env b = None \<longrightarrow> env_heap env' b = None"
proof -
  obtain fs where fs: "env_heap env a = Some fs" "int (r a) \<le> fs_refs fs" "fs_inv fs"
    using assms unfolding heap_ok_def by blast
  define h where "h = (env_heap env)(a := if fs_refs fs - 1 \<le> 0 then None else Some (fs\<lparr>fs_refs := fs_refs fs - 1\<rparr>))"
  have last: "fs_refs fs \<le> 1 \<longrightarrow> r a - 1 = 0" "int (r a - 1) \<le> fs_refs fs - 1" using fs(2) assms(2) by linarith+
  have "heap_ok h (r(a := r a - 1))"
    unfolding heap_ok_def
  proof (intro conjI allI impI)
    fix b assume "0 < (r(a := r a - 1)) b"
    then show "h b \<noteq> None" using assms(1) last(1) by (cases "b = a") (auto simp: h_def heap_ok_def)
  next
    fix b fs' assume "h b = Some fs'"
    then show "fs_inv fs'" "int ((r(a := r a - 1)) b) \<le> fs_refs fs'"
      using assms(1) last(2) fs(3) by (cases "b = a"; auto simp: h_def heap_ok_def split: if_splits)+
  qed
  moreover have "Unref a env = Some (env\<lparr>env_heap := h\<rparr>)" using fs assms(2) by (simp add: Unref_def Let_def h_def)
  ultimately show ?thesis using that [of "env\<lparr>env_heap := h\<rparr>"] fs by (simp add: h_def)
qed

definition env_inv :: "InMemoryEnv \<Rightarrow> nat list \<Rightarrow> bool" where
  "env_inv env handles \<longleftrightarrow> names_sorted (env_files env) \<and> heap_ok (env_heap env) (refs_to env handles)
     \<and> (\<forall>a. env_next env \<le> a \<longrightarrow> env_heap env a = None)"

lemma env_inv_new: "env_inv InMemoryEnv_new []"
  by (simp add: env_inv_def InMemoryEnv_new_def names_sorted_def refs_to_def entry_count_def heap_ok_def)

lemma env_inv_entry:
  "env_inv env hs \<Longrightarrow> map_of (env_files env) f = Some (Some a) \<Longrightarrow> \<exists>fs. env_heap env a = Some fs \<and> fs_inv fs"
  using entry_count_pos [of "env_files env" f a] heap_ok_alive [of "env_heap env" "refs_to env hs" a]
  by (simp add: env_inv_def refs_to_def)

lemma env_inv_handle: "env_inv env hs \<Longrightarrow> a \<in> set hs \<Longrightarrow> \<exists>fs. env_heap env a = Some fs \<and> fs_inv fs"
  using count_list_0_iff [of hs a] heap_ok_alive [of "env_heap env" "refs_to env hs" a]
  by (simp add: env_inv_def refs_to_def)

lemma env_inv_Ref:
  assumes "env_inv env hs" and "env_heap env a = Some fs"
  obtains env' where "Ref a env = Some env'" "env_inv env' (a # hs)" "env_files env' = env_files env"
    "env_heap env' = (env_heap env)(a \<mapsto> fs\<lparr>fs_refs := fs_refs fs + 1\<rparr>)"
proof -
  from assms obtain env' where e: "Ref a env = Some env'" "heap_ok (env_heap env') ((refs_to env hs)(a := refs_to env hs a + 1))"
    "env_files env' = env_files env" "env_next env' = env_next env"
    "env_heap env' = (env_heap env)(a \<mapsto> fs\<lparr>fs_refs := fs_refs fs + 1\<rparr>)"
    using heap_ok_Ref [of env "refs_to env hs" a fs] by (auto simp: env_inv_def)
  have "refs_to env' (a # hs) = (refs_to env hs)(a := refs_to env hs a + 1)" using e(3) by (auto simp: refs_to_def)
  then have "env_inv env' (a # hs)" using assms e by (auto simp: env_inv_def)
  then show ?thesis using that e by blast
qed

lemma refs_to_files: "env_files env' = env_files env \<Longrightarrow> refs_to env' hs = refs_to env hs"
  by (simp add: refs_to_def fun_eq_iff)

lemma env_inv_open:
  assumes "env_inv env hs" and "map_of (env_files env) f = Some (Some a)"
  obtains env' fs where "Ref a env = Some env'" "env_inv env' (a # hs)" "env_files env' = env_files env"
    "env_heap env a = Some fs" "env_heap env' = (env_heap env)(a \<mapsto> fs\<lparr>fs_refs := fs_refs fs + 1\<rparr>)"
proof -
  obtain fs where fs: "env_heap env a = Some fs" using env_inv_entry [OF assms] by blast
  show ?thesis by (rule env_inv_Ref [OF assms(1) fs]) (use that fs in blast)
qed

lemma env_inv_DeleteFileInternal:
  assumes "env_inv env hs" and "map_of (env_files env) f \<noteq> Some None"
  obtains env' where "DeleteFileInternal f env = Some env'" "env_inv env' hs"
    "env_files env' = map_erase f (env_files env)" "\<forall>a \<in> set hs. map_option fs_contents (env_heap env' a) = map_option fs_contents (env_heap env a)"
proof (cases "map_of (env_files env) f")
  case None
  then have "map_erase f (env_files env) = env_files env"
    by (intro map_erase_notin) (auto simp: map_of_eq_None_iff)
  then show ?thesis using that [of env] None assms(1) by (simp add: DeleteFileInternal_def)
next
  case (Some p)
  then obtain a where f: "map_of (env_files env) f = Some (Some a)" using assms(2) by (cases p) auto
  have ok: "names_sorted (env_files env)" "heap_ok (env_heap env) (refs_to env hs)" using assms(1) by (simp_all add: env_inv_def)
  have pos: "0 < refs_to env hs a" using entry_count_pos [OF f] by (simp add: refs_to_def)
  obtain env1 where u: "Unref a env = Some env1" "heap_ok (env_heap env1) ((refs_to env hs)(a := refs_to env hs a - 1))"
    "env_files env1 = env_files env" "env_next env1 = env_next env" "\<forall>b. b \<noteq> a \<longrightarrow> env_heap env1 b = env_heap env b"
    "\<forall>b. env_heap env b = None \<longrightarrow> env_heap env1 b = None"
    by (rule heap_ok_Unref [OF ok(2) pos])
  define env' where "env' = env1\<lparr>env_files := map_erase f (env_files env)\<rparr>"
  have "refs_to env' hs b = ((refs_to env hs)(a := refs_to env hs a - 1)) b" for b
    using entry_count_map_erase [OF ok(1) f, of b] by (auto simp: refs_to_def env'_def)
  then have "refs_to env' hs = (refs_to env hs)(a := refs_to env hs a - 1)" by (rule ext)
  then have inv: "env_inv env' hs"
    using assms(1) u by (simp add: env_inv_def env'_def names_sorted_map_erase)
  have "map_option fs_contents (env_heap env' b) = map_option fs_contents (env_heap env b)" if bh: "b \<in> set hs" for b
  proof (cases "b = a")
    case True
    obtain fs' where "env_heap env' a = Some fs'" using env_inv_handle [OF inv bh] True by blast
    then show ?thesis using u(1) True
      by (auto simp: Unref_def env'_def Let_def fs_contents_def split: option.splits if_splits)
  qed (use u(5) in \<open>simp add: env'_def\<close>)
  then show ?thesis using that [of env'] u(1,3) f inv by (simp add: DeleteFileInternal_def env'_def)
qed

lemma env_inv_close:
  assumes "env_inv env hs" and "a \<in> set hs"
  obtains env' where "Unref a env = Some env'" "env_inv env' (remove1 a hs)"
proof -
  have pos: "0 < count_list hs a" using assms(2) count_list_0_iff [of hs a] by simp
  then have "0 < refs_to env hs a" by (simp add: refs_to_def)
  have ok: "heap_ok (env_heap env) (refs_to env hs)" using assms(1) by (simp add: env_inv_def)
  obtain env' where u: "Unref a env = Some env'" "heap_ok (env_heap env') ((refs_to env hs)(a := refs_to env hs a - 1))"
    "env_files env' = env_files env" "env_next env' = env_next env" "\<forall>b. env_heap env b = None \<longrightarrow> env_heap env' b = None"
    by (rule heap_ok_Unref [OF ok \<open>0 < refs_to env hs a\<close>])
  have "refs_to env' (remove1 a hs) = (refs_to env hs)(a := refs_to env hs a - 1)"
    using pos u(3) by (auto simp: refs_to_def fun_eq_iff)
  then show ?thesis using that u assms(1) by (simp add: env_inv_def)
qed

lemma env_inv_Append:
  assumes "env_inv env hs" and "env_heap env a = Some fs" and "length fresh = kBlockSize_mem"
    and "unat (fs_size fs) + length data < 2 ^ 64"
  obtains env' fs' where "WritableFile_Append fresh a data env = Some (Status_OK, env')" "env_inv env' hs"
    "env_files env' = env_files env" "env_heap env' = (env_heap env)(a \<mapsto> fs')" "fs_inv fs'" "fs_contents fs' = fs_contents fs @ data"
proof -
  have fs: "fs_inv fs" "int (refs_to env hs a) \<le> fs_refs fs" using assms(1,2) by (auto simp: env_inv_def heap_ok_def)
  define fs' where "fs' = FileState_Append_loop fresh fs data"
  have fs': "fs_inv fs'" "fs_contents fs' = fs_contents fs @ data" "fs_refs fs' = fs_refs fs"
    using FileState_Append_loop_contents [OF fs(1) assms(3,4)] by (simp_all add: fs'_def)
  define env' where "env' = env\<lparr>env_heap := (env_heap env)(a \<mapsto> fs')\<rparr>"
  have "env_inv env' hs"
    using assms(1,2) fs(2) fs' heap_ok_update [of "env_heap env" "refs_to env hs" fs' a] refs_to_files [of env' env hs]
    by (auto simp: env_inv_def env'_def)
  then show ?thesis using that [of env' fs'] assms(2) fs'
    by (simp add: WritableFile_Append_def FileState_Append_def env'_def fs'_def)
qed

lemma env_inv_new_file:
  assumes "env_inv env hs"
  obtains a env' where "new_file env = (a, env')" "env_inv env' hs" "env_heap env' a = Some FileState_new"
    "env_files env' = env_files env" "refs_to env' hs a = 0" "env_heap env' = (env_heap env)(a \<mapsto> FileState_new)"
proof -
  let ?a = "env_next env"
  have none: "env_heap env ?a = None" and ok: "heap_ok (env_heap env) (refs_to env hs)"
    using assms by (simp_all add: env_inv_def)
  have r: "refs_to env hs ?a = 0" using ok none by (auto simp: heap_ok_def)
  have "heap_ok ((env_heap env)(?a \<mapsto> FileState_new)) (refs_to env hs)"
    by (rule heap_ok_update [OF ok fs_inv_empty(1)]) (simp add: r FileState_new_def)
  then show ?thesis using that [of ?a "env\<lparr>env_heap := (env_heap env)(?a \<mapsto> FileState_new), env_next := ?a + 1\<rparr>"] assms r
      refs_to_files [of "env\<lparr>env_heap := (env_heap env)(?a \<mapsto> FileState_new), env_next := ?a + 1\<rparr>" env hs]
    by (simp add: new_file_def env_inv_def)
qed

lemma env_inv_add_entry:
  assumes "env_inv env (a # hs)" and "map_of (env_files env) f = None"
  shows "env_inv (env\<lparr>env_files := map_set f (Some a) (env_files env)\<rparr>) hs"
proof -
  have "refs_to (env\<lparr>env_files := map_set f (Some a) (env_files env)\<rparr>) hs = refs_to env (a # hs)"
    using entry_count_map_set_new [OF assms(2)] by (auto simp: refs_to_def)
  then show ?thesis using assms(1) by (simp add: env_inv_def names_sorted_map_set)
qed

lemma env_inv_add_null:
  assumes "env_inv env hs" and "map_of (env_files env) f = None"
  shows "env_inv (env\<lparr>env_files := map_set f None (env_files env)\<rparr>) hs"
proof -
  have "refs_to (env\<lparr>env_files := map_set f None (env_files env)\<rparr>) hs = refs_to env hs"
    using entry_count_map_set_new [OF assms(2)] by (auto simp: refs_to_def)
  then show ?thesis using assms(1) by (simp add: env_inv_def names_sorted_map_set)
qed

lemma env_inv_drop_handle: "env_inv env (a # hs) \<Longrightarrow> env_inv env hs"
  using heap_ok_le [of "env_heap env" "refs_to env (a # hs)" "refs_to env hs"]
  by (simp add: env_inv_def refs_to_def)

lemma Truncate_simps [simp]: "fs_refs (Truncate fs) = fs_refs fs" "fs_contents (Truncate fs) = []"
  by (simp_all add: Truncate_def fs_contents_def)

lemma fs_contents_refs [simp]: "fs_contents (fs\<lparr>fs_refs := n\<rparr>) = fs_contents fs"
  by (simp add: fs_contents_def)

lemma NewWritableFile_ok:
  assumes "env_inv env hs" and "map_of (env_files env) f \<noteq> Some None"
  obtains a env' fs where "NewWritableFile f env = Some (Status_OK, a, env')" "env_inv env' (a # hs)"
    "map_of (env_files env') f = Some (Some a)" "env_heap env' a = Some fs" "fs_contents fs = []"
proof (cases "map_of (env_files env) f")
  case None
  obtain a env1 where n: "new_file env = (a, env1)" "env_inv env1 hs" "env_heap env1 a = Some FileState_new" "env_files env1 = env_files env"
    by (rule env_inv_new_file [OF assms(1)])
  obtain env2 where r: "Ref a env1 = Some env2" "env_inv env2 (a # hs)" "env_files env2 = env_files env1"
      "env_heap env2 = (env_heap env1)(a \<mapsto> FileState_new\<lparr>fs_refs := fs_refs FileState_new + 1\<rparr>)"
    by (rule env_inv_Ref [OF n(2,3)])
  define env3 where "env3 = env2\<lparr>env_files := map_set f (Some a) (env_files env2)\<rparr>"
  have i3: "env_inv env3 hs" unfolding env3_def by (rule env_inv_add_entry [OF r(2)]) (simp add: r(3) n(4) None)
  obtain fs where h3: "env_heap env3 a = Some fs" "fs_contents fs = []"
    by (simp add: env3_def r(4) fs_contents_def FileState_new_def)
  obtain env4 where r4: "Ref a env3 = Some env4" "env_inv env4 (a # hs)" "env_files env4 = env_files env3"
      "env_heap env4 = (env_heap env3)(a \<mapsto> fs\<lparr>fs_refs := fs_refs fs + 1\<rparr>)"
    by (rule env_inv_Ref [OF i3 h3(1)])
  show ?thesis
    by (rule that [of a env4 "fs\<lparr>fs_refs := fs_refs fs + 1\<rparr>"])
      (use None n r r4 h3(2) in \<open>simp_all add: NewWritableFile_def env3_def map_of_map_set\<close>)
next
  case (Some p)
  then obtain a where f: "map_of (env_files env) f = Some (Some a)" using assms(2) by (cases p) auto
  obtain fs where fs: "env_heap env a = Some fs" "int (refs_to env hs a) \<le> fs_refs fs"
    using env_inv_entry [OF assms(1) f] assms(1) by (auto simp: env_inv_def heap_ok_def)
  define env1 where "env1 = env\<lparr>env_heap := (env_heap env)(a \<mapsto> Truncate fs)\<rparr>"
  have i1: "env_inv env1 hs"
    using assms(1) fs heap_ok_update [of "env_heap env" "refs_to env hs" "Truncate fs" a] refs_to_files [of env1 env hs]
    by (auto simp: env_inv_def env1_def)
  have h1: "env_heap env1 a = Some (Truncate fs)" by (simp add: env1_def)
  obtain env2 where r: "Ref a env1 = Some env2" "env_inv env2 (a # hs)" "env_files env2 = env_files env1"
      "env_heap env2 = (env_heap env1)(a \<mapsto> (Truncate fs)\<lparr>fs_refs := fs_refs (Truncate fs) + 1\<rparr>)"
    by (rule env_inv_Ref [OF i1 h1])
  show ?thesis
    by (rule that [of a env2 "(Truncate fs)\<lparr>fs_refs := fs_refs (Truncate fs) + 1\<rparr>"])
      (use f fs r in \<open>simp_all add: NewWritableFile_def env1_def\<close>)
qed

lemma NewAppendableFile_missing:
  assumes "env_inv env hs" and "map_of (env_files env) f = None"
  obtains a env' where "NewAppendableFile f env = Some (Status_OK, a, env')" "env_inv env' (a # hs)"
    "map_of (env_files env') f = Some None"
proof -
  define env0 where "env0 = env\<lparr>env_files := map_set f None (env_files env)\<rparr>"
  have i0: "env_inv env0 hs" unfolding env0_def by (rule env_inv_add_null [OF assms])
  obtain a env1 where n: "new_file env0 = (a, env1)" "env_inv env1 hs" "env_heap env1 a = Some FileState_new" "env_files env1 = env_files env0"
    by (rule env_inv_new_file [OF i0])
  obtain env2 where r: "Ref a env1 = Some env2" "env_inv env2 (a # hs)" "env_files env2 = env_files env1"
      "env_heap env2 = (env_heap env1)(a \<mapsto> FileState_new\<lparr>fs_refs := fs_refs FileState_new + 1\<rparr>)"
    by (rule env_inv_Ref [OF n(2,3)])
  then obtain fs where h2: "env_heap env2 a = Some fs" by simp
  obtain env3 where r3: "Ref a env2 = Some env3" "env_inv env3 (a # a # hs)" "env_files env3 = env_files env2"
    by (rule env_inv_Ref [OF r(2) h2])
  have "env_inv env3 (a # hs)" by (rule env_inv_drop_handle [OF r3(2)])
  then show ?thesis using that [of a env3] n r r3 assms(2)
    by (simp add: NewAppendableFile_def env0_def [symmetric] map_of_map_set) (simp add: env0_def map_of_map_set)
qed

lemma RenameFile_ok:
  assumes "env_inv env hs" and "map_of (env_files env) src = Some p" and "map_of (env_files env) target \<noteq> Some None"
  obtains env' where "RenameFile src target env = Some (Status_OK, env')" "env_inv env' hs"
    "map_of (env_files env') = (if src = target then (map_of (env_files env))(src := None)
       else (map_of (env_files env))(target \<mapsto> p, src := None))"
proof -
  obtain env1 where d: "DeleteFileInternal target env = Some env1" "env_inv env1 hs" "env_files env1 = map_erase target (env_files env)"
    by (rule env_inv_DeleteFileInternal [OF assms(1,3)])
  define q where "q = (case map_of (env_files env1) src of None \<Rightarrow> None | Some p \<Rightarrow> p)"
  define m where "m = map_set target q (env_files env1)"
  have none: "map_of (env_files env1) target = None" by (simp add: d(3) map_of_map_erase)
  have src: "map_of m src = Some q" using assms(2) d(3) by (auto simp: m_def map_of_map_set map_of_map_erase q_def)
  have sorted: "names_sorted m" using d(2) by (simp add: m_def env_inv_def names_sorted_map_set)
  have "entry_count (map_erase src m) b = entry_count (env_files env1) b" for b
    using entry_count_map_erase [OF sorted src, of b] entry_count_map_set_new [OF none, of q b] by (simp add: m_def)
  then have "refs_to (env1\<lparr>env_files := map_erase src m\<rparr>) hs = refs_to env1 hs" by (simp add: refs_to_def fun_eq_iff)
  then have "env_inv (env1\<lparr>env_files := map_erase src m\<rparr>) hs"
    using d(2) sorted by (simp add: env_inv_def names_sorted_map_erase)
  moreover have "RenameFile src target env = Some (Status_OK, env1\<lparr>env_files := map_erase src m\<rparr>)"
    using assms(2) d(1) by (simp add: RenameFile_def m_def q_def Let_def)
  moreover have "map_of (map_erase src m) = (if src = target then (map_of (env_files env))(src := None)
       else (map_of (env_files env))(target \<mapsto> p, src := None))"
    using assms(2) by (auto simp: m_def map_of_map_erase map_of_map_set d(3) q_def)
  ultimately show ?thesis using that by simp
qed

subsection \<open>The environment as a state machine\<close>

text \<open>The state is the environment with the objects that open files point to, one entry for each open file.\<close>

inductive env_step :: "InMemoryEnv \<times> nat list \<Rightarrow> InMemoryEnv \<times> nat list \<Rightarrow> bool" where
  open_sequential: "NewSequentialFile f env = Some (s, Some (a, p), env') \<Longrightarrow> env_step (env, hs) (env', a # hs)"
| open_random: "NewRandomAccessFile f env = Some (s, Some a, env') \<Longrightarrow> env_step (env, hs) (env', a # hs)"
| open_writable: "NewWritableFile f env = Some (s, a, env') \<Longrightarrow> env_step (env, hs) (env', a # hs)"
| open_appendable: "NewAppendableFile f env = Some (s, a, env') \<Longrightarrow> env_step (env, hs) (env', a # hs)"
| append: "a \<in> set hs \<Longrightarrow> length fresh = kBlockSize_mem \<Longrightarrow> env_heap env a = Some fs
    \<Longrightarrow> unat (fs_size fs) + length data < 2 ^ 64 \<Longrightarrow> WritableFile_Append fresh a data env = Some (s, env')
    \<Longrightarrow> env_step (env, hs) (env', hs)"
| close_file: "a \<in> set hs \<Longrightarrow> Unref a env = Some env' \<Longrightarrow> env_step (env, hs) (env', remove1 a hs)"
| delete_file: "DeleteFile f env = Some (s, env') \<Longrightarrow> env_step (env, hs) (env', hs)"
| rename_file: "RenameFile src target env = Some (s, env') \<Longrightarrow> env_step (env, hs) (env', hs)"

lemma open_inv:
  assumes "env_inv env hs" and "map_of (env_files env) f = Some (Some a)" and "Ref a env = Some env'"
  shows "env_inv env' (a # hs)"
  using env_inv_open [OF assms(1,2)] assms(3) by (metis option.inject)

lemma env_step_inv:
  assumes "env_step s s'" and "env_inv (fst s) (snd s)"
  shows "env_inv (fst s') (snd s')"
  using assms
proof (induction rule: env_step.induct)
  case (open_sequential f env s a p env' hs)
  then show ?case by (auto simp: NewSequentialFile_def intro: open_inv split: option.splits)
next
  case (open_random f env s a env' hs)
  then show ?case by (auto simp: NewRandomAccessFile_def intro: open_inv split: option.splits)
next
  case (open_writable f env s a env' hs)
  then have "map_of (env_files env) f \<noteq> Some None" by (auto simp: NewWritableFile_def)
  with open_writable show ?case by (auto elim: NewWritableFile_ok [of env hs f])
next
  case (open_appendable f env s a env' hs)
  show ?case
  proof (cases "map_of (env_files env) f")
    case None
    then show ?thesis using open_appendable by (auto elim: NewAppendableFile_missing [of env hs f])
  next
    case (Some p)
    show ?thesis
    proof (cases p)
      case None
      have inv: "env_inv env hs" using open_appendable(2) by simp
      obtain b env1 where n: "new_file env = (b, env1)" "env_inv env1 hs" "env_heap env1 b = Some FileState_new"
        by (rule env_inv_new_file [OF inv])
      obtain env2 where r: "Ref b env1 = Some env2" "env_inv env2 (b # hs)"
        "env_heap env2 = (env_heap env1)(b \<mapsto> FileState_new\<lparr>fs_refs := fs_refs FileState_new + 1\<rparr>)"
        by (rule env_inv_Ref [OF n(2,3)])
      then obtain fs where h: "env_heap env2 b = Some fs" by simp
      obtain env3 where r3: "Ref b env2 = Some env3" "env_inv env3 (b # b # hs)"
        by (rule env_inv_Ref [OF r(2) h])
      then show ?thesis using open_appendable(1) Some None n(1) r(1) env_inv_drop_handle [OF r3(2)]
        by (simp add: NewAppendableFile_def)
    next
      case (Some b)
      then show ?thesis using open_appendable \<open>map_of (env_files env) f = Some p\<close>
        by (auto simp: NewAppendableFile_def intro: open_inv)
    qed
  qed
next
  case (append a hs fresh env fs data s env')
  then show ?case by (auto elim: env_inv_Append [of env hs a fs fresh data])
next
  case (close_file a hs env env')
  then show ?case by (auto elim: env_inv_close [of env hs a])
next
  case (delete_file f env s env' hs)
  show ?case
  proof (cases "map_of (env_files env) f = None")
    case False
    then have "map_of (env_files env) f \<noteq> Some None" using delete_file(1) by (auto simp: DeleteFile_def DeleteFileInternal_def)
    then show ?thesis using delete_file False
      by (auto simp: DeleteFile_def elim: env_inv_DeleteFileInternal [of env hs f])
  qed (use delete_file in \<open>auto simp: DeleteFile_def\<close>)
next
  case (rename_file src target env s env' hs)
  show ?case
  proof (cases "map_of (env_files env) src")
    case (Some p)
    then have "map_of (env_files env) target \<noteq> Some None" using rename_file(1) by (auto simp: RenameFile_def DeleteFileInternal_def)
    then show ?thesis using rename_file Some by (auto elim: RenameFile_ok [of env hs src p target])
  qed (use rename_file in \<open>auto simp: RenameFile_def\<close>)
qed

lemma env_reachable_inv:
  "env_step\<^sup>*\<^sup>* (InMemoryEnv_new, []) s \<Longrightarrow> env_inv (fst s) (snd s)"
  by (induction rule: rtranclp_induct) (auto simp: env_inv_new intro: env_step_inv)


definition example_env :: InMemoryEnv where
  "example_env = \<lparr>env_heap = (\<lambda>_. None)(0 \<mapsto> \<lparr>fs_refs = 2, fs_blocks = [], fs_size = 0\<rparr>), env_next = 1, env_files = [([97], Some 0)]\<rparr>"

lemma example_env_reachable: "env_step\<^sup>*\<^sup>* (InMemoryEnv_new, []) (example_env, [0])"
proof -
  have "NewWritableFile [97] InMemoryEnv_new = Some (Status_OK, 0, example_env)"
    by (simp add: NewWritableFile_def InMemoryEnv_new_def new_file_def Ref_def FileState_new_def example_env_def)
  then have "env_step (InMemoryEnv_new, []) (example_env, [0])" by (rule env_step.open_writable)
  then show ?thesis by (rule r_into_rtranclp)
qed


text \<open>
  (C29) What is written to a new file is what a reader of the same name gets, in every reachable state and
  also when the name had contents before.
\<close>

theorem InMemoryEnv_write_read_back:
  assumes "env_step\<^sup>*\<^sup>* (InMemoryEnv_new, []) (env, hs)" and "map_of (env_files env) f \<noteq> Some None"
    and "length fresh = kBlockSize_mem" and "length data < 2 ^ 64"
  shows "\<exists>a env1 env2 file env3 file'. NewWritableFile f env = Some (Status_OK, a, env1)
    \<and> WritableFile_Append fresh a data env1 = Some (Status_OK, env2)
    \<and> NewSequentialFile f env2 = Some (Status_OK, Some file, env3)
    \<and> SequentialFile_Read file n env3 = Some (Status_OK, take (unat n) data, file')"
proof -
  have inv: "env_inv env hs" using env_reachable_inv [OF assms(1)] by simp
  obtain a env1 fs where w: "NewWritableFile f env = Some (Status_OK, a, env1)" "env_inv env1 (a # hs)"
    "map_of (env_files env1) f = Some (Some a)" "env_heap env1 a = Some fs" "fs_contents fs = []"
    by (rule NewWritableFile_ok [OF inv assms(2)])
  have "fs_inv fs" using w(2,4) by (auto simp: env_inv_def heap_ok_def)
  then have "unat (fs_size fs) = 0" using w(5) length_fs_contents by fastforce
  then have room: "unat (fs_size fs) + length data < 2 ^ 64" using assms(4) by simp
  obtain env2 fs2 where p: "WritableFile_Append fresh a data env1 = Some (Status_OK, env2)" "env_inv env2 (a # hs)"
    "env_files env2 = env_files env1" "env_heap env2 = (env_heap env1)(a \<mapsto> fs2)" "fs_inv fs2" "fs_contents fs2 = fs_contents fs @ data"
    by (rule env_inv_Append [OF w(2,4) assms(3) room])
  have f2: "map_of (env_files env2) f = Some (Some a)" using p(3) w(3) by simp
  have h2: "env_heap env2 a = Some fs2" using p(4) by simp
  obtain env3 where r: "Ref a env2 = Some env3" "env_heap env3 = (env_heap env2)(a \<mapsto> fs2\<lparr>fs_refs := fs_refs fs2 + 1\<rparr>)"
    by (rule env_inv_Ref [OF p(2) h2])
  have "FileState_Read (fs2\<lparr>fs_refs := fs_refs fs2 + 1\<rparr>) 0 n = (Status_OK, take (unat n) data)"
    using FileState_Read_contents [of "fs2\<lparr>fs_refs := fs_refs fs2 + 1\<rparr>" 0 n] p(5,6) w(5) by simp
  then show ?thesis using w(1) p(1) f2 r
    by (simp add: NewSequentialFile_def SequentialFile_Read_def SequentialFileImpl_Read_def)
qed

theorem InMemoryEnv_write_read_back_witness:
  "\<exists>a env1 env2 file env3 file'. NewWritableFile [97] example_env = Some (Status_OK, a, env1)
    \<and> WritableFile_Append (replicate 8192 0) a [1, 2, 3] env1 = Some (Status_OK, env2)
    \<and> NewSequentialFile [97] env2 = Some (Status_OK, Some file, env3)
    \<and> SequentialFile_Read file 2 env3 = Some (Status_OK, take (unat (2 :: u64)) [1, 2, 3], file')"
  by (rule InMemoryEnv_write_read_back [OF example_env_reachable]) (simp_all add: example_env_def kBlockSize_mem_def)

text \<open>
  (C30) \<open>NewAppendableFile\<close> does not create the file it is asked for. For a name that does not exist it
  returns success and a handle to a new object, but leaves a null pointer under the name, so that the
  data is not reachable through the name and opening, sizing or deleting the file uses the null pointer.
\<close>

theorem NewAppendableFile_leaves_null:
  assumes "env_step\<^sup>*\<^sup>* (InMemoryEnv_new, []) (env, hs)" and "map_of (env_files env) f = None"
  shows "\<exists>a env'. NewAppendableFile f env = Some (Status_OK, a, env') \<and> FileExists f env'
    \<and> NewSequentialFile f env' = None \<and> GetFileSize f env' = None \<and> DeleteFile f env' = None"
proof -
  have inv: "env_inv env hs" using env_reachable_inv [OF assms(1)] by simp
  obtain a env' where "NewAppendableFile f env = Some (Status_OK, a, env')" "map_of (env_files env') f = Some None"
    by (rule NewAppendableFile_missing [OF inv assms(2)])
  then show ?thesis
    by (auto simp: FileExists_def NewSequentialFile_def GetFileSize_def DeleteFile_def DeleteFileInternal_def)
qed

theorem NewAppendableFile_leaves_null_witness:
  "\<exists>a env'. NewAppendableFile [98] example_env = Some (Status_OK, a, env') \<and> FileExists [98] env'
    \<and> NewSequentialFile [98] env' = None \<and> GetFileSize [98] env' = None \<and> DeleteFile [98] env' = None"
  by (rule NewAppendableFile_leaves_null [OF example_env_reachable]) (simp add: example_env_def)

text \<open>
  Renaming moves the file: the target names what the source named, the source name is gone and every other name is
  as before. Renaming a file to its own name, however, removes it.
\<close>

theorem RenameFile_moves:
  assumes "env_step\<^sup>*\<^sup>* (InMemoryEnv_new, []) (env, hs)" and "map_of (env_files env) src = Some p"
    and "map_of (env_files env) target \<noteq> Some None"
  shows "\<exists>env'. RenameFile src target env = Some (Status_OK, env')
    \<and> map_of (env_files env') = (if src = target then (map_of (env_files env))(src := None)
        else (map_of (env_files env))(target \<mapsto> p, src := None))"
proof -
  have inv: "env_inv env hs" using env_reachable_inv [OF assms(1)] by simp
  show ?thesis by (rule RenameFile_ok [OF inv assms(2,3)]) blast
qed

theorem RenameFile_moves_witness:
  "\<exists>env'. RenameFile [97] [98] example_env = Some (Status_OK, env')
    \<and> map_of (env_files env') = (if [97] = [98 :: byte] then (map_of (env_files example_env))([97] := None)
        else (map_of (env_files example_env))([98] \<mapsto> Some 0, [97] := None))"
  by (rule RenameFile_moves [OF example_env_reachable]) (simp_all add: example_env_def)

end
