(* ===== verification/LogReader.thy ===== *)
theory LogReader
  imports LogWriter MemEnv
begin

section \<open>The log reader (db/log_reader.h, db/log_reader.cc)\<close>

text \<open>
  The reader reads whole blocks into its buffer and takes physical records from it. The reporter is the
  list of its reports, newest first, or \<open>None\<close> for a null pointer. The loop of \<open>ReadRecord\<close> reads until the
  file ends and is a partial function: \<open>None\<close> means that it runs forever.
\<close>

record 'f Reader =
  lr_file :: 'f
  lr_reporter :: "(u64 \<times> Status) list option"
  lr_checksum :: bool
  lr_buffer :: bytes
  lr_eof :: bool
  lr_last_record_offset :: u64
  lr_end_of_buffer_offset :: u64
  lr_initial_offset :: u64
  lr_resyncing :: bool

definition Reader_new :: "'f \<Rightarrow> (u64 \<times> Status) list option \<Rightarrow> bool \<Rightarrow> u64 \<Rightarrow> 'f Reader" where
  "Reader_new file reporter check initial_offset =
     \<lparr>lr_file = file, lr_reporter = reporter, lr_checksum = check, lr_buffer = [], lr_eof = False,
      lr_last_record_offset = 0, lr_end_of_buffer_offset = 0, lr_initial_offset = initial_offset,
      lr_resyncing = (0 < initial_offset)\<rparr>"

definition kEof :: u32 where "kEof = 4 + 1"
definition kBadRecord :: u32 where "kBadRecord = 4 + 2"

definition ReportDrop :: "u64 \<Rightarrow> Status \<Rightarrow> 'f Reader \<Rightarrow> 'f Reader" where
  "ReportDrop nbytes reason this =
     (case lr_reporter this of
        None \<Rightarrow> this
      | Some reports \<Rightarrow>
          if lr_initial_offset this \<le> lr_end_of_buffer_offset this - of_nat (length (lr_buffer this)) - nbytes
          then this\<lparr>lr_reporter := Some ((nbytes, reason) # reports)\<rparr> else this)"

definition ReportCorruption :: "u64 \<Rightarrow> string \<Rightarrow> 'f Reader \<Rightarrow> 'f Reader" where
  "ReportCorruption nbytes reason this = ReportDrop nbytes (Corruption (bytes_of_string reason) []) this"

definition SkipToInitialBlock :: "('f \<Rightarrow> u64 \<Rightarrow> Status \<times> 'f) \<Rightarrow> 'f Reader \<Rightarrow> bool \<times> 'f Reader" where
  "SkipToInitialBlock Skip this =
     (let offset_in_block = lr_initial_offset this mod of_nat kBlockSize;
          block_start_location = lr_initial_offset this - offset_in_block;
          block_start_location =
            (if of_nat (kBlockSize - 6) < offset_in_block then block_start_location + of_nat kBlockSize
             else block_start_location);
          this = this\<lparr>lr_end_of_buffer_offset := block_start_location\<rparr>
      in if 0 < block_start_location then
           (let (skip_status, file) = Skip (lr_file this) block_start_location;
                this = this\<lparr>lr_file := file\<rparr>
            in if \<not> Status_ok skip_status then (False, ReportDrop block_start_location skip_status this)
               else (True, this))
         else (True, this))"

definition parse_physical ::
    "(u32 \<Rightarrow> bytes \<Rightarrow> u32) \<Rightarrow> bytes \<Rightarrow> 'f Reader \<Rightarrow> u32 \<times> bytes \<times> 'f Reader" where
  "parse_physical ext result this =
     (let header = lr_buffer this;
          a = ucast (header ! 4) :: u32;
          b = ucast (header ! 5) :: u32;
          t = scast (header ! 6) :: u32;
          len = unat (a OR push_bit 8 b);
          drop_size = of_nat (length (lr_buffer this))
      in if length (lr_buffer this) < kHeaderSize + len then
           (let this = this\<lparr>lr_buffer := []\<rparr>
            in if \<not> lr_eof this then (kBadRecord, result, ReportCorruption drop_size ''bad record length'' this)
               else (kEof, result, this))
         else if t = 0 \<and> len = 0 then (kBadRecord, result, this\<lparr>lr_buffer := []\<rparr>)
         else if lr_checksum this
           \<and> map_option Unmask (DecodeFixed32 header) \<noteq> Some (ext 0 (take (1 + len) (drop 6 header)))
         then (kBadRecord, result, ReportCorruption drop_size ''checksum mismatch'' (this\<lparr>lr_buffer := []\<rparr>))
         else
           (let this = this\<lparr>lr_buffer := drop (kHeaderSize + len) (lr_buffer this)\<rparr>
            in if lr_end_of_buffer_offset this - of_nat (length (lr_buffer this)) - of_nat kHeaderSize - of_nat len
                  < lr_initial_offset this
               then (kBadRecord, [], this)
               else (t, take len (drop kHeaderSize header), this)))"

function ReadPhysicalRecord ::
    "('f \<Rightarrow> u64 \<Rightarrow> Status \<times> bytes \<times> 'f) \<Rightarrow> (u32 \<Rightarrow> bytes \<Rightarrow> u32) \<Rightarrow> bytes \<Rightarrow> 'f Reader \<Rightarrow> u32 \<times> bytes \<times> 'f Reader" where
  "ReadPhysicalRecord Read ext result this =
     (if length (lr_buffer this) < kHeaderSize then
        (if \<not> lr_eof this then
           (let (status, buffer, file) = Read (lr_file this) (of_nat kBlockSize);
                this = this\<lparr>lr_file := file, lr_buffer := buffer,
                  lr_end_of_buffer_offset := lr_end_of_buffer_offset this + of_nat (length buffer)\<rparr>
            in if \<not> Status_ok status then
                 (kEof, result, (ReportDrop (of_nat kBlockSize) status (this\<lparr>lr_buffer := []\<rparr>))\<lparr>lr_eof := True\<rparr>)
               else ReadPhysicalRecord Read ext result
                 (if length buffer < kBlockSize then this\<lparr>lr_eof := True\<rparr> else this))
         else (kEof, result, this\<lparr>lr_buffer := []\<rparr>))
      else parse_physical ext result this)"
  by pat_completeness auto
termination
  by (relation "measure (\<lambda>(r, e, x, this). if length (lr_buffer this) < kHeaderSize \<and> \<not> lr_eof this then 1 else 0)")
    (auto simp: kBlockSize_def kHeaderSize_def)

declare ReadPhysicalRecord.simps [simp del]

text \<open>One round of the loop of \<open>ReadRecord\<close>: \<open>Inl\<close> goes on with new local variables, \<open>Inr\<close> returns.\<close>

record LoopState =
  in_fragmented_record :: bool
  prospective_record_offset :: u64
  scratch :: bytes
  fragment :: bytes

definition report_partial :: "string \<Rightarrow> LoopState \<Rightarrow> 'f Reader \<Rightarrow> 'f Reader" where
  "report_partial reason l this =
     (if in_fragmented_record l \<and> scratch l \<noteq> [] then ReportCorruption (of_nat (length (scratch l))) reason this else this)"

definition dispatch_record ::
    "u32 \<Rightarrow> LoopState \<Rightarrow> 'f Reader \<Rightarrow> LoopState \<times> 'f Reader + bool \<times> bytes \<times> 'f Reader" where
  "dispatch_record record_type l this =
     (let physical_record_offset =
        lr_end_of_buffer_offset this - of_nat (length (lr_buffer this)) - of_nat kHeaderSize - of_nat (length (fragment l))
      in
        if record_type = 1 then
          Inr (True, fragment l,
            (report_partial ''partial record without end(1)'' l this)\<lparr>lr_last_record_offset := physical_record_offset\<rparr>)
        else if record_type = 2 then
          Inl (l\<lparr>in_fragmented_record := True, prospective_record_offset := physical_record_offset, scratch := fragment l\<rparr>,
            report_partial ''partial record without end(2)'' l this)
        else if record_type = 3 then
          (if \<not> in_fragmented_record l then
             Inl (l, ReportCorruption (of_nat (length (fragment l))) ''missing start of fragmented record(1)'' this)
           else Inl (l\<lparr>scratch := scratch l @ fragment l\<rparr>, this))
        else if record_type = 4 then
          (if \<not> in_fragmented_record l then
             Inl (l, ReportCorruption (of_nat (length (fragment l))) ''missing start of fragmented record(2)'' this)
           else Inr (True, scratch l @ fragment l, this\<lparr>lr_last_record_offset := prospective_record_offset l\<rparr>))
        else if record_type = kEof then Inr (False, [], this)
        else if record_type = kBadRecord then
          (if in_fragmented_record l then
             Inl (l\<lparr>in_fragmented_record := False, scratch := []\<rparr>,
               ReportCorruption (of_nat (length (scratch l))) ''error in middle of record'' this)
           else Inl (l, this))
        else
          Inl (l\<lparr>in_fragmented_record := False, scratch := []\<rparr>,
            ReportDrop (of_nat (length (fragment l) + (if in_fragmented_record l then length (scratch l) else 0)))
              (Corruption (bytes_of_string ''unknown record type '' @ NumberToString (ucast record_type)) []) this))"

definition ReadRecord_step ::
    "('f \<Rightarrow> u64 \<Rightarrow> Status \<times> bytes \<times> 'f) \<Rightarrow> (u32 \<Rightarrow> bytes \<Rightarrow> u32) \<Rightarrow> LoopState \<Rightarrow> 'f Reader
      \<Rightarrow> LoopState \<times> 'f Reader + bool \<times> bytes \<times> 'f Reader" where
  "ReadRecord_step Read ext l this =
     (let (record_type, frag, this) = ReadPhysicalRecord Read ext (fragment l) this;
          l = l\<lparr>fragment := frag\<rparr>
      in if lr_resyncing this then
           (if record_type = 3 then Inl (l, this)
            else if record_type = 4 then Inl (l, this\<lparr>lr_resyncing := False\<rparr>)
            else dispatch_record record_type l (this\<lparr>lr_resyncing := False\<rparr>))
         else dispatch_record record_type l this)"

partial_function (option) ReadRecord_loop ::
    "('f \<Rightarrow> u64 \<Rightarrow> Status \<times> bytes \<times> 'f) \<Rightarrow> (u32 \<Rightarrow> bytes \<Rightarrow> u32) \<Rightarrow> LoopState \<Rightarrow> 'f Reader
      \<Rightarrow> (bool \<times> bytes \<times> 'f Reader) option" where
  "ReadRecord_loop Read ext l this =
     (case ReadRecord_step Read ext l this of
        Inl s \<Rightarrow> ReadRecord_loop Read ext (fst s) (snd s)
      | Inr result \<Rightarrow> Some result)"

definition LoopState_new :: LoopState where
  "LoopState_new = \<lparr>in_fragmented_record = False, prospective_record_offset = 0, scratch = [], fragment = []\<rparr>"

definition ReadRecord ::
    "('f \<Rightarrow> u64 \<Rightarrow> Status \<times> bytes \<times> 'f) \<Rightarrow> ('f \<Rightarrow> u64 \<Rightarrow> Status \<times> 'f) \<Rightarrow> (u32 \<Rightarrow> bytes \<Rightarrow> u32) \<Rightarrow> 'f Reader
      \<Rightarrow> (bool \<times> bytes \<times> 'f Reader) option" where
  "ReadRecord Read Skip ext this =
     (let (ok, this) =
        (if lr_last_record_offset this < lr_initial_offset this then SkipToInitialBlock Skip this else (True, this))
      in if \<not> ok then Some (False, [], this) else ReadRecord_loop Read ext LoopState_new this)"

subsection \<open>Positions in a log\<close>

lemma length_field:
  assumes "n < 65536"
  shows "unat ((ucast (of_nat n :: byte) :: u32) OR push_bit 8 (ucast (of_nat (n div 256) :: byte))) = n"
proof -
  have "(ucast (of_nat n :: byte) :: u32) OR push_bit 8 (ucast (of_nat (n div 256) :: byte)) = of_nat n"
  proof (rule bit_eqI)
    fix i assume i: "possible_bit TYPE(u32) i"
    have d: "bit (n div 256) j = bit n (j + 8)" for j
      by (simp add: bit_iff_odd div_mult2_eq [symmetric] power_add mult.commute)
    have "\<not> bit n i" if "16 \<le> i"
    proof -
      have "n < 2 ^ i" using assms power_increasing [OF that, of "2 :: nat"] by simp
      then show ?thesis by (simp add: bit_iff_odd)
    qed
    then have "bit n i \<Longrightarrow> i < 16" by (meson not_le)
    then show "bit ((ucast (of_nat n :: byte) :: u32) OR push_bit 8 (ucast (of_nat (n div 256) :: byte))) i = bit (of_nat n :: u32) i"
      using i by (auto simp: bit_simps d)
  qed
  then show ?thesis using assms by (simp add: unat_of_nat_u32)
qed

lemma record_type_field: "(scast (RecordType_byte t) :: u32) = ucast (RecordType_byte t)"
  by (cases t) simp_all

lemma record_bytes_mod:
  assumes "off \<le> kBlockSize" shows "record_bytes ext (off mod kBlockSize) b p = record_bytes ext off b p"
proof (cases "off = kBlockSize")
  case True
  have "fragments 0 b p = fragments kBlockSize b p"
  proof -
    have n: "next_offset kBlockSize = next_offset 0" "trailer kBlockSize = trailer 0"
      by (simp_all add: trailer_def next_offset_def kBlockSize_def kHeaderSize_def)
    show ?thesis by (subst (1 2) fragments.simps) (simp only: n)
  qed
  then show ?thesis using True by (simp add: record_bytes_def)
qed (use assms in simp)

definition block_end :: "nat \<Rightarrow> nat" where
  "block_end p = p - p mod kBlockSize + kBlockSize"

lemma block_end_props:
  "p < block_end p" "block_end p \<le> p + kBlockSize" "block_end p mod kBlockSize = 0"
  "p \<le> e \<Longrightarrow> e < block_end p \<Longrightarrow> block_end e = block_end p"
  "p mod kBlockSize + n \<le> kBlockSize \<Longrightarrow> p + n \<le> block_end p"
  "p < e \<Longrightarrow> e < block_end p \<Longrightarrow> e mod kBlockSize \<noteq> 0"
proof -
  have m: "p mod kBlockSize < kBlockSize" "p mod kBlockSize \<le> p" by (simp_all add: kBlockSize_def)
  show "p < block_end p" "block_end p \<le> p + kBlockSize" using m by (auto simp: block_end_def)
  have p: "p - p mod kBlockSize = kBlockSize * (p div kBlockSize)" by (simp add: minus_mod_eq_mult_div)
  show "block_end p mod kBlockSize = 0" by (simp add: block_end_def p)
  show "p + n \<le> block_end p" if "p mod kBlockSize + n \<le> kBlockSize" using that m by (simp add: block_end_def)
  have d: "e div kBlockSize = p div kBlockSize" if "p \<le> e" "e < block_end p" for e
  proof (rule div_nat_eqI)
    show "kBlockSize * (p div kBlockSize) \<le> e" using that(1) m p by linarith
    show "e < kBlockSize * Suc (p div kBlockSize)" using that(2) by (simp add: block_end_def p)
  qed
  show "block_end e = block_end p" if "p \<le> e" "e < block_end p"
    using d [OF that] by (simp add: block_end_def minus_mod_eq_mult_div)
  show "e mod kBlockSize \<noteq> 0" if "p < e" "e < block_end p"
  proof
    assume "e mod kBlockSize = 0"
    then have "e = kBlockSize * (p div kBlockSize)" using d [of e] that by (metis add_0_right less_imp_le mult_div_mod_eq)
    then show False using that(1) m p by linarith
  qed
qed

locale log_file = sequential_file Read Skip rest valid + checksum ext
  for Read :: "'f \<Rightarrow> u64 \<Rightarrow> Status \<times> bytes \<times> 'f"
    and Skip :: "'f \<Rightarrow> u64 \<Rightarrow> Status \<times> 'f" and rest :: "'f \<Rightarrow> bytes" and valid :: "'f \<Rightarrow> bool"
    and ext :: "u32 \<Rightarrow> bytes \<Rightarrow> u32"

text \<open>
  The state of a reader of contents \<open>C\<close> that has consumed \<open>P\<close> bytes and loaded the \<open>E\<close> first bytes: the buffer
  holds the bytes between the two positions.
\<close>

definition reader_loaded :: "('f \<Rightarrow> bytes) \<Rightarrow> ('f \<Rightarrow> bool) \<Rightarrow> bytes \<Rightarrow> nat \<Rightarrow> nat \<Rightarrow> 'f Reader \<Rightarrow> bool" where
  "reader_loaded rest valid C P E this \<longleftrightarrow>
     P \<le> E \<and> E \<le> length C \<and> lr_buffer this = take (E - P) (drop P C) \<and> rest (lr_file this) = drop E C
     \<and> valid (lr_file this) \<and> lr_eof this = (E mod kBlockSize \<noteq> 0)
     \<and> lr_initial_offset this = 0 \<and> \<not> lr_resyncing this"

definition reader_at :: "('f \<Rightarrow> bytes) \<Rightarrow> ('f \<Rightarrow> bool) \<Rightarrow> bytes \<Rightarrow> nat \<Rightarrow> 'f Reader \<Rightarrow> bool" where
  "reader_at rest valid C P this \<longleftrightarrow>
     reader_loaded rest valid C P (if P mod kBlockSize = 0 then P else min (length C) (block_end P)) this"

lemma reader_loaded_length: "reader_loaded rest valid C P E this \<Longrightarrow> length (lr_buffer this) = E - P"
  by (auto simp: reader_loaded_def)

lemma reader_loaded_at:
  assumes "reader_loaded rest valid C P (min (length C) (block_end Q)) this" and "Q < P" "P \<le> block_end Q"
  shows "reader_at rest valid C P this"
proof (cases "P = block_end Q")
  case True
  then have "min (length C) (block_end Q) = P" using assms(1) by (auto simp: reader_loaded_def)
  then show ?thesis using assms(1) True block_end_props(3) [of Q] by (simp add: reader_at_def)
next
  case False
  then show ?thesis using assms block_end_props(4) [of Q P] block_end_props(6) [of Q P] by (simp add: reader_at_def)
qed

lemma kHeader_lt_kBlock: "0 < kHeaderSize" "kHeaderSize < kBlockSize" "unat (of_nat kBlockSize :: u64) = kBlockSize"
  by (simp_all add: kHeaderSize_def kBlockSize_def)

context log_file
begin

lemma load_step:
  assumes "reader_loaded rest valid C P Q this" "Q - P < kHeaderSize" "Q mod kBlockSize = 0"
  shows "\<exists>this1. ReadPhysicalRecord Read ext result this = ReadPhysicalRecord Read ext result this1
    \<and> lr_buffer this1 = take kBlockSize (drop Q C) \<and> rest (lr_file this1) = drop (kBlockSize + Q) C \<and> valid (lr_file this1)
    \<and> lr_eof this1 = (length C < Q + kBlockSize) \<and> lr_initial_offset this1 = 0 \<and> \<not> lr_resyncing this1
    \<and> lr_reporter this1 = lr_reporter this \<and> lr_checksum this1 = lr_checksum this \<and> lr_last_record_offset this1 = lr_last_record_offset this"
proof -
  obtain f' where f': "Read (lr_file this) (of_nat kBlockSize) = (Status_OK, take kBlockSize (drop Q C), f')"
      "rest f' = drop (kBlockSize + Q) C" "valid f'"
    using Read_rest [of "lr_file this" "of_nat kBlockSize"] assms(1)
    by (auto simp: reader_loaded_def kHeader_lt_kBlock)
  have short: "length (lr_buffer this) < kHeaderSize" "\<not> lr_eof this"
    using assms reader_loaded_length [OF assms(1)] by (auto simp: reader_loaded_def)
  let ?b = "take kBlockSize (drop Q C)"
  define t where "t = this\<lparr>lr_file := f', lr_buffer := ?b,
     lr_end_of_buffer_offset := lr_end_of_buffer_offset this + of_nat (length ?b)\<rparr>"
  define this1 where "this1 = (if length ?b < kBlockSize then t\<lparr>lr_eof := True\<rparr> else t)"
  have "ReadPhysicalRecord Read ext result this = ReadPhysicalRecord Read ext result this1"
    by (subst ReadPhysicalRecord.simps) (simp add: short f'(1) this1_def t_def Let_def)
  moreover have "(length ?b < kBlockSize) = (length C < Q + kBlockSize)"
    using assms(1) kHeader_lt_kBlock(2) by (auto simp: reader_loaded_def)
  ultimately show ?thesis using f'(2,3) assms(1) short(2)
    by (intro exI [of _ this1]) (simp add: this1_def t_def reader_loaded_def)
qed

lemma load_block:
  assumes "reader_loaded rest valid C P Q this" "Q - P < kHeaderSize" "Q mod kBlockSize = 0" "Q < length C"
  shows "\<exists>this1. ReadPhysicalRecord Read ext result this = ReadPhysicalRecord Read ext result this1
    \<and> reader_loaded rest valid C Q (min (length C) (block_end Q)) this1
    \<and> lr_reporter this1 = lr_reporter this \<and> lr_checksum this1 = lr_checksum this \<and> lr_last_record_offset this1 = lr_last_record_offset this"
proof -
  have be: "block_end Q = Q + kBlockSize" using assms(3) by (simp add: block_end_def)
  obtain this1 where t: "ReadPhysicalRecord Read ext result this = ReadPhysicalRecord Read ext result this1"
    "lr_buffer this1 = take kBlockSize (drop Q C)" "rest (lr_file this1) = drop (kBlockSize + Q) C" "valid (lr_file this1)"
    "lr_eof this1 = (length C < Q + kBlockSize)" "lr_initial_offset this1 = 0" "\<not> lr_resyncing this1"
    "lr_reporter this1 = lr_reporter this" "lr_checksum this1 = lr_checksum this" "lr_last_record_offset this1 = lr_last_record_offset this"
    using load_step [OF assms(1-3)] by blast
  have "reader_loaded rest valid C Q (min (length C) (block_end Q)) this1"
  proof (cases "length C < Q + kBlockSize")
    case True
    then have "length C mod kBlockSize \<noteq> 0" using block_end_props(6) [of Q "length C"] assms(4) by (simp add: be)
    then show ?thesis using True t assms(4) by (simp add: reader_loaded_def be)
  next
    case False
    then have "min (length C) (block_end Q) = Q + kBlockSize" using be by simp
    then show ?thesis using False t assms(3) by (simp add: reader_loaded_def add.commute)
  qed
  then show ?thesis using t by blast
qed

lemma physical_start:
  assumes "reader_at rest valid C P this" "Q = P + trailer (P mod kBlockSize)"
  shows "\<exists>E. reader_loaded rest valid C P E this \<and>
    (if Q mod kBlockSize = 0 then E = min (length C) Q \<and> Q - P < kHeaderSize else Q = P \<and> E = min (length C) (block_end P))"
proof (cases "P mod kBlockSize = 0")
  case True
  then have "Q = P" using assms(2) by (simp add: trailer_def kBlockSize_def kHeaderSize_def)
  then show ?thesis using assms(1) True kHeader_lt_kBlock by (auto simp: reader_at_def reader_loaded_def)
next
  case False
  have m: "P mod kBlockSize < kBlockSize" "P mod kBlockSize \<le> P" by (simp_all add: kBlockSize_def)
  show ?thesis
  proof (cases "kBlockSize - P mod kBlockSize < kHeaderSize")
    case True
    then have "Q = block_end P" "Q - P < kHeaderSize" using assms(2) m by (auto simp: trailer_def block_end_def)
    then show ?thesis using assms(1) False block_end_props(3) [of P] by (auto simp: reader_at_def)
  next
    case F: False
    then show ?thesis using assms False by (simp add: reader_at_def trailer_def)
  qed
qed

lemma refill:
  assumes "reader_at rest valid C P this" "Q = P + trailer (P mod kBlockSize)" "Q + kHeaderSize \<le> length C"
    "Q mod kBlockSize + kHeaderSize \<le> kBlockSize"
  shows "\<exists>this1. ReadPhysicalRecord Read ext result this = parse_physical ext result this1
    \<and> reader_loaded rest valid C Q (min (length C) (block_end Q)) this1
    \<and> lr_reporter this1 = lr_reporter this \<and> lr_checksum this1 = lr_checksum this \<and> lr_last_record_offset this1 = lr_last_record_offset this"
proof -
  obtain E where E: "reader_loaded rest valid C P E this"
    "if Q mod kBlockSize = 0 then E = min (length C) Q \<and> Q - P < kHeaderSize else Q = P \<and> E = min (length C) (block_end P)"
    using physical_start [OF assms(1,2)] by blast
  obtain this1 where t: "ReadPhysicalRecord Read ext result this = ReadPhysicalRecord Read ext result this1"
      "reader_loaded rest valid C Q (min (length C) (block_end Q)) this1"
      "lr_reporter this1 = lr_reporter this" "lr_checksum this1 = lr_checksum this" "lr_last_record_offset this1 = lr_last_record_offset this"
  proof (cases "Q mod kBlockSize = 0")
    case True
    then have "E = Q" "Q - P < kHeaderSize" "Q < length C" using E(2) assms(3) kHeader_lt_kBlock by auto
    then show thesis using that load_block [OF E(1) [unfolded \<open>E = Q\<close>], where result = result] True by blast
  next
    case False
    then show thesis using that E by auto
  qed
  have "Q + kHeaderSize \<le> min (length C) (block_end Q)" using assms(3) block_end_props(5) [OF assms(4)] by simp
  then have "\<not> length (lr_buffer this1) < kHeaderSize" using reader_loaded_length [OF t(2)] by linarith
  then have "ReadPhysicalRecord Read ext result this1 = parse_physical ext result this1"
    by (simp add: ReadPhysicalRecord.simps [of Read ext result this1])
  then show ?thesis using t by metis
qed

end

lemma nth_physical_header:
  "physical_header ext tc t p ! 4 = of_nat (length p)" "physical_header ext tc t p ! 5 = of_nat (length p div 256)"
  "physical_header ext tc t p ! 6 = RecordType_byte t"
  by (simp_all add: physical_header_def nth_append size_simps)

lemma parse_header:
  assumes "take kHeaderSize (lr_buffer this) = physical_header ext tc t p" and "length p < 65536"
  shows "ucast (lr_buffer this ! 4) = (ucast (of_nat (length p) :: byte) :: u32)"
    "unat ((ucast (lr_buffer this ! 4) :: u32) OR push_bit 8 (ucast (lr_buffer this ! 5))) = length p"
    "(scast (lr_buffer this ! 6) :: u32) = ucast (RecordType_byte t)"
proof -
  have n: "lr_buffer this ! i = physical_header ext tc t p ! i" if "i < kHeaderSize" for i
    using that by (metis assms(1) nth_take)
  show "ucast (lr_buffer this ! 4) = (ucast (of_nat (length p) :: byte) :: u32)"
    "unat ((ucast (lr_buffer this ! 4) :: u32) OR push_bit 8 (ucast (lr_buffer this ! 5))) = length p"
    "(scast (lr_buffer this ! 6) :: u32) = ucast (RecordType_byte t)"
    using n [of 4] n [of 5] n [of 6] length_field [OF assms(2)]
    by (simp_all add: nth_physical_header record_type_field kHeaderSize_def)
qed

lemma type_crc_nth: "InitTypeCrc ext ! unat (RecordType_byte t) = ext 0 [RecordType_byte t]"
  by (cases t) (simp_all add: InitTypeCrc_def)

context log_file
begin

lemma header_crc:
  assumes "lr_buffer this = physical_header ext (InitTypeCrc ext) t p @ p @ bs"
  shows "map_option Unmask (DecodeFixed32 (lr_buffer this)) = Some (ext 0 (take (1 + length p) (drop 6 (lr_buffer this))))"
proof -
  have "DecodeFixed32 (lr_buffer this) = Some (Mask (ext (ext 0 [RecordType_byte t]) p))"
    unfolding assms physical_header_def append_assoc by (simp add: codec_simps type_crc_nth)
  moreover have "take (1 + length p) (drop 6 (lr_buffer this)) = RecordType_byte t # p"
    unfolding assms physical_header_def by (simp add: size_simps)
  ultimately show ?thesis by (simp add: Unmask_Mask ext_append)
qed

lemma parse_physical_complete:
  assumes "lr_buffer this = physical_header ext (InitTypeCrc ext) t p @ p @ bs" "length p < 65536" "t \<noteq> kZeroType"
    "lr_initial_offset this = 0"
  shows "parse_physical ext result this = (ucast (RecordType_byte t), p, this\<lparr>lr_buffer := bs\<rparr>)"
proof -
  have h: "take kHeaderSize (lr_buffer this) = physical_header ext (InitTypeCrc ext) t p" by (simp add: assms(1))
  have t0: "(ucast (RecordType_byte t) :: u32) \<noteq> 0" using assms(3) by (cases t) simp_all
  have c: "(map_option Unmask (DecodeFixed32 (lr_buffer this)) \<noteq> Some (ext 0 (take (1 + length p) (drop 6 (lr_buffer this))))) = False"
    using header_crc [OF assms(1)] by simp
  have l: "(length (lr_buffer this) < kHeaderSize + length p) = False" "drop (kHeaderSize + length p) (lr_buffer this) = bs"
    "take (length p) (drop kHeaderSize (lr_buffer this)) = p" using assms(1) by simp_all
  show ?thesis using t0 assms(4)
    unfolding parse_physical_def Let_def parse_header(2,3) [OF h assms(2)] c l by simp
qed

lemma parse_physical_short:
  assumes "take kHeaderSize (lr_buffer this) = physical_header ext (InitTypeCrc ext) t p" "length p < 65536"
    "length (lr_buffer this) < kHeaderSize + length p" "lr_eof this"
  shows "parse_physical ext result this = (kEof, result, this\<lparr>lr_buffer := []\<rparr>)"
  using assms(3,4) unfolding parse_physical_def Let_def parse_header(2,3) [OF assms(1,2)] by simp

end

context log_file
begin

lemma ReadPhysicalRecord_complete:
  assumes "reader_at rest valid C (length pre) this" "t \<noteq> kZeroType"
    and C: "C = pre @ fragment_bytes ext (trailer (length pre mod kBlockSize), t, p) @ post"
    and fits: "(length pre + trailer (length pre mod kBlockSize)) mod kBlockSize + kHeaderSize + length p \<le> kBlockSize"
  shows "\<exists>this'. ReadPhysicalRecord Read ext result this = (ucast (RecordType_byte t), p, this')
    \<and> reader_at rest valid C (length pre + length (fragment_bytes ext (trailer (length pre mod kBlockSize), t, p))) this'
    \<and> lr_reporter this' = lr_reporter this \<and> lr_last_record_offset this' = lr_last_record_offset this"
proof -
  define Q where "Q = length pre + trailer (length pre mod kBlockSize)"
  let ?h = "physical_header ext (InitTypeCrc ext) t p"
  have dC: "drop Q C = ?h @ p @ post" by (simp add: C fragment_bytes_def Q_def)
  have lC: "length C = Q + (kHeaderSize + length p) + length post" by (simp add: C fragment_bytes_def Q_def)
  have fits': "Q mod kBlockSize + (kHeaderSize + length p) \<le> kBlockSize" using fits by (simp add: Q_def)
  obtain this1 where t: "ReadPhysicalRecord Read ext result this = parse_physical ext result this1"
      "reader_loaded rest valid C Q (min (length C) (block_end Q)) this1"
      "lr_reporter this1 = lr_reporter this" "lr_last_record_offset this1 = lr_last_record_offset this"
    using refill [OF assms(1) Q_def, where result = result] lC fits' by auto
  define E where "E = min (length C) (block_end Q)"
  have E: "Q + (kHeaderSize + length p) \<le> E" using block_end_props(5) [OF fits'] lC by (simp add: E_def)
  have "lr_buffer this1 = take (E - Q) (drop Q C)" using t(2) by (simp add: reader_loaded_def E_def)
  then have buf: "lr_buffer this1 = ?h @ p @ take (E - Q - (kHeaderSize + length p)) post" using E by (simp add: dC add.assoc)
  have "length p < 65536" using fits by (simp add: kBlockSize_def)
  note P = parse_physical_complete [OF buf this assms(2)]
  let ?this' = "this1\<lparr>lr_buffer := take (E - Q - (kHeaderSize + length p)) post\<rparr>"
  have "drop (Q + (kHeaderSize + length p)) C = post"
    unfolding drop_drop [symmetric, of "kHeaderSize + length p" Q C, unfolded add.commute [of _ Q]] dC by simp
  then have "reader_loaded rest valid C (Q + (kHeaderSize + length p)) E ?this'"
    using t(2) E by (simp add: reader_loaded_def E_def add.assoc)
  then have "reader_at rest valid C (Q + (kHeaderSize + length p)) ?this'"
    unfolding E_def by (rule reader_loaded_at) (use block_end_props(5) [OF fits'] kHeader_lt_kBlock in auto)
  moreover have "length (fragment_bytes ext (trailer (length pre mod kBlockSize), t, p)) + length pre = Q + (kHeaderSize + length p)"
    by (simp add: fragment_bytes_def Q_def)
  ultimately show ?thesis using P t by (simp add: reader_loaded_def add.commute)
qed

lemma ReadPhysicalRecord_eof:
  assumes "length (lr_buffer this) < kHeaderSize" "lr_eof this"
  shows "ReadPhysicalRecord Read ext result this = (kEof, result, this\<lparr>lr_buffer := []\<rparr>)"
  by (simp add: ReadPhysicalRecord.simps [of Read ext result this] assms)

lemma ReadPhysicalRecord_cut_header:
  assumes "reader_at rest valid C P this" "length C < P + trailer (P mod kBlockSize) + kHeaderSize"
    and "(P + trailer (P mod kBlockSize)) mod kBlockSize + kHeaderSize \<le> kBlockSize"
  shows "\<exists>this'. ReadPhysicalRecord Read ext result this = (kEof, result, this') \<and> lr_reporter this' = lr_reporter this"
proof -
  define Q where "Q = P + trailer (P mod kBlockSize)"
  obtain E where E: "reader_loaded rest valid C P E this"
    "if Q mod kBlockSize = 0 then E = min (length C) Q \<and> Q - P < kHeaderSize else Q = P \<and> E = min (length C) (block_end P)"
    using physical_start [OF assms(1) Q_def] by blast
  have "P \<le> E" "E \<le> length C" using E(1) by (auto simp: reader_loaded_def)
  have lt: "length C < Q + kHeaderSize" using assms(2) by (simp add: Q_def)
  have short: "E - P < kHeaderSize"
  proof (cases "Q mod kBlockSize = 0")
    case True
    then have "E \<le> Q" "Q - P < kHeaderSize" using E(2) by simp_all
    then show ?thesis by linarith
  next
    case False
    then have "Q = P" using E(2) by simp
    then show ?thesis using lt \<open>E \<le> length C\<close> \<open>P \<le> E\<close> by linarith
  qed
  show ?thesis
  proof (cases "lr_eof this")
    case True
    then show ?thesis using ReadPhysicalRecord_eof [of this result] short reader_loaded_length [OF E(1)] by simp
  next
    case False
    then have Em: "E mod kBlockSize = 0" using E(1) by (simp add: reader_loaded_def)
    have "length C < E + kHeaderSize"
    proof (cases "Q mod kBlockSize = 0")
      case True
      then have "E = min (length C) Q" using E(2) by simp
      then show ?thesis using lt kHeader_lt_kBlock(1) by linarith
    next
      case F: False
      have "Q + kHeaderSize \<le> block_end Q" using block_end_props(5) assms(3) by (simp add: Q_def)
      moreover have "E = min (length C) (block_end Q)" using F E(2) by simp
      ultimately show ?thesis using lt kHeader_lt_kBlock(1) by linarith
    qed
    obtain this1 where t: "ReadPhysicalRecord Read ext result this = ReadPhysicalRecord Read ext result this1"
        "lr_buffer this1 = take kBlockSize (drop E C)" "lr_eof this1 = (length C < E + kBlockSize)"
        "lr_reporter this1 = lr_reporter this"
      using load_step [OF E(1) short Em, where result = result] by blast
    have "length (lr_buffer this1) < kHeaderSize" "lr_eof this1"
      using \<open>length C < E + kHeaderSize\<close> kHeader_lt_kBlock by (auto simp: t(2,3))
    then show ?thesis using ReadPhysicalRecord_eof [of this1 result] t by simp
  qed
qed

lemma ReadPhysicalRecord_cut:
  assumes "reader_at rest valid C (length pre) this"
    and C: "C @ lost = pre @ fragment_bytes ext (trailer (length pre mod kBlockSize), t, p)" and "lost \<noteq> []" "length pre \<le> length C"
    and fits: "(length pre + trailer (length pre mod kBlockSize)) mod kBlockSize + kHeaderSize + length p \<le> kBlockSize"
  shows "\<exists>this'. ReadPhysicalRecord Read ext result this = (kEof, result, this') \<and> lr_reporter this' = lr_reporter this"
proof -
  define Q where "Q = length pre + trailer (length pre mod kBlockSize)"
  let ?h = "physical_header ext (InitTypeCrc ext) t p"
  have lC: "length C + length lost = Q + (kHeaderSize + length p)"
    using arg_cong [OF C, of length] by (simp add: fragment_bytes_def Q_def)
  have fits': "Q mod kBlockSize + (kHeaderSize + length p) \<le> kBlockSize" using fits by (simp add: Q_def)
  show ?thesis
  proof (cases "length C < Q + kHeaderSize")
    case True
    then show ?thesis using ReadPhysicalRecord_cut_header [OF assms(1)] fits by (simp add: Q_def)
  next
    case False
    obtain this1 where t: "ReadPhysicalRecord Read ext result this = parse_physical ext result this1"
        "reader_loaded rest valid C Q (min (length C) (block_end Q)) this1" "lr_reporter this1 = lr_reporter this"
      using refill [OF assms(1) Q_def, where result = result] False fits' by auto
    have lt: "length C < Q + (kHeaderSize + length p)" using lC assms(3) by (cases lost) auto
    then have E: "min (length C) (block_end Q) = length C" using block_end_props(5) [OF fits'] by simp
    have buf: "lr_buffer this1 = drop Q C" using t(2) unfolding E by (simp add: reader_loaded_def)
    have "drop Q (C @ lost) = ?h @ p" unfolding C by (simp add: fragment_bytes_def Q_def)
    moreover have "take kHeaderSize (drop Q C) = take kHeaderSize (drop Q (C @ lost))" using False by simp
    ultimately have "take kHeaderSize (lr_buffer this1) = ?h" by (simp add: buf)
    moreover have "length C mod kBlockSize \<noteq> 0"
      using block_end_props(6) [of Q "length C"] block_end_props(5) [OF fits'] lt False kHeader_lt_kBlock by simp
    then have "lr_eof this1" using t(2) unfolding E by (simp add: reader_loaded_def)
    moreover have "length (lr_buffer this1) < kHeaderSize + length p" using lt False by (simp add: buf)
    moreover have "length p < 65536" using fits by (simp add: kBlockSize_def)
    ultimately show ?thesis using parse_physical_short [of this1 t p result] t(1,3) by simp
  qed
qed

end

lemma trailer_of_mod:
  assumes "off \<le> kBlockSize"
  shows "trailer (off mod kBlockSize) = trailer off" "next_offset (off mod kBlockSize) = next_offset off"
  using assms by (cases "off = kBlockSize"; simp add: trailer_def next_offset_def kBlockSize_def kHeaderSize_def)+

text \<open>A record at position \<open>P\<close> is its first fragment, followed by the rest of the record when there is one.\<close>

lemma record_bytes_split:
  fixes ext b p P off
  defines "n \<equiv> min (length p) (kBlockSize - next_offset off - kHeaderSize)"
  defines "F \<equiv> fragment_bytes ext (trailer (P mod kBlockSize), fragment_type b (n = length p), take n p)"
  assumes off: "off \<le> kBlockSize" "off mod kBlockSize = P mod kBlockSize"
  shows "record_bytes ext off b p
      = F @ (if n = length p then [] else record_bytes ext (next_offset off + kHeaderSize + n) False (drop n p))"
    and "(P + trailer (P mod kBlockSize)) mod kBlockSize + kHeaderSize + length (take n p) \<le> kBlockSize"
    and "(next_offset off + kHeaderSize + n) mod kBlockSize = (P + length F) mod kBlockSize"
    and "next_offset off + kHeaderSize + n \<le> kBlockSize"
proof -
  have t: "trailer (P mod kBlockSize) = trailer off" "next_offset (P mod kBlockSize) = next_offset off"
    using trailer_of_mod [OF off(1)] off(2) by simp_all
  have le: "next_offset off + kHeaderSize \<le> kBlockSize" by (rule next_offset_le(2) [OF off(1)])
  have e: "(n = length p) = (length p \<le> kBlockSize - next_offset off - kHeaderSize)"
    "(kBlockSize - next_offset off - kHeaderSize < length p) = (n \<noteq> length p)" by (auto simp: n_def)
  show "record_bytes ext off b p
      = F @ (if n = length p then [] else record_bytes ext (next_offset off + kHeaderSize + n) False (drop n p))"
    unfolding record_bytes_def fragments.simps [of off] Let_def F_def t e(1) [symmetric] e(2) n_def [symmetric] by simp
  show fit: "next_offset off + kHeaderSize + n \<le> kBlockSize" using le by (simp add: n_def)
  have M: "(P + (trailer off + m)) mod kBlockSize = (next_offset off + m) mod kBlockSize" for m
    using trailer_mod [OF off(1), of m] off(2) by (metis mod_add_left_eq)
  have "next_offset off < kBlockSize" using le kHeader_lt_kBlock(1) by linarith
  then have "(P + trailer off) mod kBlockSize = next_offset off" using M [of 0] by simp
  then show "(P + trailer (P mod kBlockSize)) mod kBlockSize + kHeaderSize + length (take n p) \<le> kBlockSize"
    using fit by (simp add: t n_def)
  have "length F = trailer off + (kHeaderSize + n)" by (simp add: F_def fragment_bytes_def t n_def)
  then show "(next_offset off + kHeaderSize + n) mod kBlockSize = (P + length F) mod kBlockSize"
    using M [of "kHeaderSize + n"] by (simp add: add.assoc)
qed

context log_file
begin

lemma ReadRecord_step_fragment:
  assumes "ReadPhysicalRecord Read ext (fragment l) this = (ucast (RecordType_byte (fragment_type b is_end)), p, this')"
    and "\<not> lr_resyncing this'" "in_fragmented_record l = (\<not> b)" 
  shows "ReadRecord_step Read ext l this =
    (if is_end then Inr (True, (if b then [] else scratch l) @ p, this'\<lparr>lr_last_record_offset :=
        (if b then lr_end_of_buffer_offset this' - of_nat (length (lr_buffer this')) - of_nat kHeaderSize - of_nat (length p)
         else prospective_record_offset l)\<rparr>)
     else Inl (l\<lparr>fragment := p, in_fragmented_record := True,
       prospective_record_offset := (if b then lr_end_of_buffer_offset this' - of_nat (length (lr_buffer this')) - of_nat kHeaderSize - of_nat (length p)
         else prospective_record_offset l), scratch := (if b then [] else scratch l) @ p\<rparr>, this'))"
  using assms by (cases b; cases is_end) (simp_all add: ReadRecord_step_def dispatch_record_def fragment_type_def report_partial_def Let_def)

lemma fragment_type_nonzero: "fragment_type b e \<noteq> kZeroType"
  by (simp add: fragment_type_def)

lemma reader_at_update: "reader_at rest valid C P (this\<lparr>lr_last_record_offset := x\<rparr>) = reader_at rest valid C P this"
  by (simp add: reader_at_def reader_loaded_def)

lemma ReadRecord_loop_complete:
  assumes "reader_at rest valid C (length pre) this" "C = pre @ record_bytes ext off b p @ post"
    and "off \<le> kBlockSize" "off mod kBlockSize = length pre mod kBlockSize" "in_fragmented_record l = (\<not> b)"
  shows "\<exists>this'. ReadRecord_loop Read ext l this = Some (True, (if b then [] else scratch l) @ p, this')
    \<and> reader_at rest valid C (length pre + length (record_bytes ext off b p)) this' \<and> lr_reporter this' = lr_reporter this"
  using assms
proof (induction off b p arbitrary: pre this l rule: fragments.induct)
  case (1 off b p)
  define avail where "avail = kBlockSize - next_offset off - kHeaderSize"
  define n where "n = min (length p) avail"
  define F where "F = fragment_bytes ext (trailer (length pre mod kBlockSize), fragment_type b (n = length p), take n p)"
  define R where "R = (if n = length p then [] else record_bytes ext (next_offset off + kHeaderSize + n) False (drop n p))"
  note S = record_bytes_split(1) [OF 1(4,5), where p = p and b = b and ext = ext, folded avail_def, folded n_def, folded F_def, folded R_def]
    record_bytes_split(2) [OF 1(4,5), where p = p, folded avail_def, folded n_def]
    record_bytes_split(3) [OF 1(4,5), where p = p and b = b and ext = ext, folded avail_def, folded n_def, folded F_def]
    record_bytes_split(4) [OF 1(4,5), where p = p, folded avail_def, folded n_def]
  have C: "C = pre @ F @ (R @ post)" using 1(3) S(1) by simp
  obtain this1 where r: "ReadPhysicalRecord Read ext (fragment l) this = (ucast (RecordType_byte (fragment_type b (n = length p))), take n p, this1)"
      "reader_at rest valid C (length (pre @ F)) this1" "lr_reporter this1 = lr_reporter this"
    using ReadPhysicalRecord_complete [OF 1(2) fragment_type_nonzero C [unfolded F_def] S(2), where result = "fragment l"]
    by (auto simp: F_def)
  have rs: "\<not> lr_resyncing this1" using r(2) by (simp add: reader_at_def reader_loaded_def)
  note step = ReadRecord_step_fragment [OF r(1) rs 1(6)]
  show ?case
  proof (cases "n = length p")
    case True
    then show ?thesis using step r(2,3) S(1)
      by (simp add: ReadRecord_loop.simps [of Read ext l this] R_def reader_at_update)
  next
    case False
    then have lt: "avail < length p" by (auto simp: n_def)
    let ?l = "l\<lparr>fragment := take n p, in_fragmented_record := True,
       prospective_record_offset := (if b then lr_end_of_buffer_offset this1 - of_nat (length (lr_buffer this1)) - of_nat kHeaderSize - of_nat (length (take n p))
         else prospective_record_offset l), scratch := (if b then [] else scratch l) @ take n p\<rparr>"
    have "\<exists>this'. ReadRecord_loop Read ext ?l this1 = Some (True, (if False then [] else scratch ?l) @ drop n p, this')
        \<and> reader_at rest valid C (length (pre @ F) + length (record_bytes ext (next_offset off + kHeaderSize + n) False (drop n p))) this'
        \<and> lr_reporter this' = lr_reporter this1"
      by (rule 1(1) [OF avail_def n_def lt r(2)]) (use C False S(3,4) in \<open>simp_all add: R_def\<close>)
    then show ?thesis using False step r(3) S(1)
      by (simp add: ReadRecord_loop.simps [of Read ext l this] R_def add.assoc)
  qed
qed

end

context log_file
begin

lemma ReadRecord_loop_eof:
  assumes "ReadPhysicalRecord Read ext (fragment l) this = (kEof, r, this')"
  shows "\<exists>this''. ReadRecord_loop Read ext l this = Some (False, [], this'') \<and> lr_reporter this'' = lr_reporter this'"
  by (auto simp: ReadRecord_loop.simps [of Read ext l this] ReadRecord_step_def assms dispatch_record_def kEof_def Let_def)

lemma ReadRecord_loop_cut:
  assumes "reader_at rest valid C (length pre) this" "C @ lost = pre @ record_bytes ext off b p" "lost \<noteq> []" "length pre \<le> length C"
    and "off \<le> kBlockSize" "off mod kBlockSize = length pre mod kBlockSize" "in_fragmented_record l = (\<not> b)"
  shows "\<exists>this'. ReadRecord_loop Read ext l this = Some (False, [], this') \<and> lr_reporter this' = lr_reporter this"
  using assms
proof (induction off b p arbitrary: pre this l rule: fragments.induct)
  case (1 off b p)
  define avail where "avail = kBlockSize - next_offset off - kHeaderSize"
  define n where "n = min (length p) avail"
  define F where "F = fragment_bytes ext (trailer (length pre mod kBlockSize), fragment_type b (n = length p), take n p)"
  define R where "R = (if n = length p then [] else record_bytes ext (next_offset off + kHeaderSize + n) False (drop n p))"
  note S = record_bytes_split(1) [OF 1(6,7), where p = p and b = b and ext = ext, folded avail_def, folded n_def, folded F_def, folded R_def]
    record_bytes_split(2) [OF 1(6,7), where p = p, folded avail_def, folded n_def]
    record_bytes_split(3) [OF 1(6,7), where p = p and b = b and ext = ext, folded avail_def, folded n_def, folded F_def]
    record_bytes_split(4) [OF 1(6,7), where p = p, folded avail_def, folded n_def]
  have C: "C @ lost = (pre @ F) @ R" using 1(3) S(1) by simp
  show ?case
  proof (cases "length C < length (pre @ F)")
    case True
    have "C = take (length C) (pre @ F)" using arg_cong [OF C, of "take (length C)"] True by simp
    then have "C @ drop (length C) (pre @ F) = pre @ F" by (metis append_take_drop_id)
    then obtain this' where "ReadPhysicalRecord Read ext (fragment l) this = (kEof, fragment l, this')" "lr_reporter this' = lr_reporter this"
      using ReadPhysicalRecord_cut [OF 1(2) _ _ 1(5) S(2), where result = "fragment l"] True unfolding F_def
      by (metis drop_eq_Nil2 not_le)
    then show ?thesis using ReadRecord_loop_eof by metis
  next
    case False
    define C' where "C' = drop (length (pre @ F)) C"
    have "take (length (pre @ F)) C = pre @ F" using arg_cong [OF C, of "take (length (pre @ F))"] False by simp
    then have C1: "C = pre @ F @ C'" unfolding C'_def by (metis append_assoc append_take_drop_id)
    then have C2: "C' @ lost = R" using C by simp
    then have ne: "n \<noteq> length p" using 1(4) by (auto simp: R_def)
    then have lt: "avail < length p" by (auto simp: n_def)
    obtain this1 where r: "ReadPhysicalRecord Read ext (fragment l) this = (ucast (RecordType_byte (fragment_type b (n = length p))), take n p, this1)"
        "reader_at rest valid C (length (pre @ F)) this1" "lr_reporter this1 = lr_reporter this"
      using ReadPhysicalRecord_complete [OF 1(2) fragment_type_nonzero C1 [unfolded F_def] S(2), where result = "fragment l"]
      by (auto simp: F_def)
    have rs: "\<not> lr_resyncing this1" using r(2) by (simp add: reader_at_def reader_loaded_def)
    have "\<exists>this'. ReadRecord_loop Read ext l' this1 = Some (False, [], this') \<and> lr_reporter this' = lr_reporter this1"
      if "in_fragmented_record l'" for l'
      by (rule 1(1) [OF avail_def n_def lt r(2)]) (use that C 1(4) False ne S(3,4) in \<open>simp_all add: R_def\<close>)
    then show ?thesis using ReadRecord_step_fragment [OF r(1) rs 1(8)] ne r(3)
      by (simp add: ReadRecord_loop.simps [of Read ext l this])
  qed
qed

end

subsection \<open>Logs of many records\<close>

text \<open>
  The bytes of the records \<open>rs\<close> written from position \<open>P\<close> of a file on, and those of the records that are
  complete when only the first \<open>m\<close> bytes of the file have survived.
\<close>

fun log_bytes :: "(u32 \<Rightarrow> bytes \<Rightarrow> u32) \<Rightarrow> nat \<Rightarrow> bytes list \<Rightarrow> bytes" where
  "log_bytes ext P [] = []"
| "log_bytes ext P (r # rs) =
     (let b = record_bytes ext (P mod kBlockSize) True r in b @ log_bytes ext (P + length b) rs)"

fun complete_records :: "(u32 \<Rightarrow> bytes \<Rightarrow> u32) \<Rightarrow> nat \<Rightarrow> nat \<Rightarrow> bytes list \<Rightarrow> bytes list" where
  "complete_records ext P m [] = []"
| "complete_records ext P m (r # rs) =
     (let n = P + length (record_bytes ext (P mod kBlockSize) True r)
      in if n \<le> m then r # complete_records ext n m rs else [])"

text \<open>A client writes records until one fails, and reads records until there is none, at most \<open>n\<close> of them.\<close>

fun AddRecords ::
    "(u32 \<Rightarrow> bytes \<Rightarrow> u32) \<Rightarrow> ('f \<Rightarrow> bytes \<Rightarrow> Status \<times> 'f) \<Rightarrow> ('f \<Rightarrow> Status \<times> 'f)
      \<Rightarrow> bytes list \<Rightarrow> 'f Writer \<Rightarrow> (Status \<times> 'f Writer) option" where
  "AddRecords ext Append Flush [] this = Some (Status_OK, this)"
| "AddRecords ext Append Flush (r # rs) this =
     (case AddRecord ext Append Flush r this of
        None \<Rightarrow> None
      | Some (s, this) \<Rightarrow> if Status_ok s then AddRecords ext Append Flush rs this else Some (s, this))"

fun ReadRecords ::
    "('f \<Rightarrow> u64 \<Rightarrow> Status \<times> bytes \<times> 'f) \<Rightarrow> ('f \<Rightarrow> u64 \<Rightarrow> Status \<times> 'f) \<Rightarrow> (u32 \<Rightarrow> bytes \<Rightarrow> u32) \<Rightarrow> nat \<Rightarrow> 'f Reader
      \<Rightarrow> (bytes list \<times> bool \<times> 'f Reader) option" where
  "ReadRecords Read Skip ext 0 this = Some ([], False, this)"
| "ReadRecords Read Skip ext (Suc n) this =
     (case ReadRecord Read Skip ext this of
        None \<Rightarrow> None
      | Some (ok, r, this) \<Rightarrow>
          if ok then map_option (\<lambda>(rs, fin, t). (r # rs, fin, t)) (ReadRecords Read Skip ext n this) else Some ([], True, this))"

lemma complete_records_all: "P + length (log_bytes ext P rs) \<le> m \<Longrightarrow> complete_records ext P m rs = rs"
  by (induction rs arbitrary: P) (auto simp: Let_def)

context writable_file
begin

lemma AddRecords_appends:
  assumes "room (lw_dest this) (length (log_bytes ext P rs))" "lw_block_offset this \<le> kBlockSize"
    "lw_block_offset this mod kBlockSize = P mod kBlockSize" "lw_type_crc this = InitTypeCrc ext"
  shows "\<exists>this'. AddRecords ext Append Flush rs this = Some (Status_OK, this')
    \<and> contents (lw_dest this') = contents (lw_dest this) @ log_bytes ext P rs \<and> room (lw_dest this') 0"
  using assms
proof (induction rs arbitrary: P this)
  case (Cons r rs)
  let ?b = "record_bytes ext (P mod kBlockSize) True r"
  have b: "record_bytes ext (lw_block_offset this) True r = ?b" using record_bytes_mod [OF Cons.prems(2)] Cons.prems(3) by simp
  obtain this' where t: "AddRecord ext Append Flush r this = Some (Status_OK, this')"
      "contents (lw_dest this') = contents (lw_dest this) @ ?b"
      "room (lw_dest this') (length (log_bytes ext P (r # rs)) - length ?b)" "lw_block_offset this' \<le> kBlockSize"
      "lw_type_crc this' = InitTypeCrc ext" "lw_block_offset this' mod kBlockSize = (lw_block_offset this + length ?b) mod kBlockSize"
    using AddRecord_loop_appends [OF Cons.prems(1) _ Cons.prems(2,4), of True r] unfolding b AddRecord_def by (auto simp: Let_def)
  have "(lw_block_offset this + length ?b) mod kBlockSize = (P + length ?b) mod kBlockSize"
    by (rule mod_add_cong [OF Cons.prems(3) refl])
  then show ?case using Cons.IH [of this' "P + length ?b"] t by (auto simp: Let_def)
qed simp

end

context log_file
begin

lemma ReadRecord_start: "reader_at rest valid C P this \<Longrightarrow> ReadRecord Read Skip ext this = ReadRecord_loop Read ext LoopState_new this"
  by (simp add: ReadRecord_def reader_at_def reader_loaded_def)

lemma ReadRecords_prefix:
  assumes "reader_at rest valid C (length pre) this" "C @ lost = pre @ log_bytes ext (length pre) rs" "length pre \<le> length C"
    "length rs < n"
  shows "\<exists>this'. ReadRecords Read Skip ext n this = Some (complete_records ext (length pre) (length C) rs, True, this')
    \<and> lr_reporter this' = lr_reporter this"
  using assms
proof (induction rs arbitrary: pre this n)
  case Nil
  have "C = pre" using Nil(2,3) by (cases lost) auto
  then have "\<exists>this'. ReadPhysicalRecord Read ext (fragment LoopState_new) this = (kEof, fragment LoopState_new, this') \<and> lr_reporter this' = lr_reporter this"
    using ReadPhysicalRecord_cut_header [OF Nil(1)] record_bytes_split(2) [of "length pre mod kBlockSize" "length pre" "[]"] kHeader_lt_kBlock(1)
    by (simp add: kBlockSize_def)
  then have "\<exists>this'. ReadRecord_loop Read ext LoopState_new this = Some (False, [], this') \<and> lr_reporter this' = lr_reporter this"
    using ReadRecord_loop_eof by metis
  then show ?case using Nil(4) ReadRecord_start [OF Nil(1)] by (cases n) auto
next
  case (Cons r rs)
  let ?off = "length pre mod kBlockSize"
  let ?b = "record_bytes ext ?off True r"
  have off: "?off \<le> kBlockSize" "?off mod kBlockSize = length pre mod kBlockSize" by (simp_all add: kBlockSize_def)
  have new: "in_fragmented_record LoopState_new = (\<not> True)" by (simp add: LoopState_new_def)
  obtain n' where n: "n = Suc n'" "length rs < n'" using Cons.prems(4) by (cases n) auto
  let ?L = "log_bytes ext (length (pre @ ?b)) rs"
  have C: "C @ lost = (pre @ ?b) @ ?L" using Cons.prems(2) by (simp add: Let_def)
  show ?case
  proof (cases "length (pre @ ?b) \<le> length C")
    case True
    have "take (length (pre @ ?b)) C = pre @ ?b" using arg_cong [OF C, of "take (length (pre @ ?b))"] True by simp
    then have C1: "C = pre @ ?b @ drop (length (pre @ ?b)) C" by (metis append_assoc append_take_drop_id)
    obtain this' where t: "ReadRecord_loop Read ext LoopState_new this = Some (True, r, this')"
        "reader_at rest valid C (length (pre @ ?b)) this'" "lr_reporter this' = lr_reporter this"
      using ReadRecord_loop_complete [OF Cons.prems(1) C1 off new] by auto
    show ?thesis using Cons.IH [OF t(2) C True n(2)] t True ReadRecord_start [OF Cons.prems(1)] by (auto simp: n(1) Let_def)
  next
    case False
    have "C = take (length C) (pre @ ?b)" using arg_cong [OF C, of "take (length C)"] False by simp
    then have "C @ drop (length C) (pre @ ?b) = pre @ ?b" by (metis append_take_drop_id)
    then have "\<exists>this'. ReadRecord_loop Read ext LoopState_new this = Some (False, [], this') \<and> lr_reporter this' = lr_reporter this"
      using ReadRecord_loop_cut [OF Cons.prems(1) _ _ Cons.prems(3) off new] False by (metis drop_eq_Nil2)
    then show ?thesis using False ReadRecord_start [OF Cons.prems(1)] by (auto simp: n(1) Let_def)
  qed
qed

lemma Reader_new_at:
  "valid f \<Longrightarrow> rest f = C \<Longrightarrow> reader_at rest valid C 0 (Reader_new f reporter check 0)"
  by (simp add: reader_at_def reader_loaded_def Reader_new_def)

end

subsection \<open>Reading ends\<close>

definition unread :: "('f \<Rightarrow> bytes) \<Rightarrow> 'f Reader \<Rightarrow> nat" where
  "unread rest this = length (lr_buffer this) + length (rest (lr_file this))"

lemma Report_same [simp]:
  "lr_file (ReportDrop n s this) = lr_file this" "lr_buffer (ReportDrop n s this) = lr_buffer this"
  "lr_file (ReportCorruption n r this) = lr_file this" "lr_buffer (ReportCorruption n r this) = lr_buffer this"
  "lr_file (report_partial r l this) = lr_file this" "lr_buffer (report_partial r l this) = lr_buffer this"
  by (simp_all add: ReportDrop_def ReportCorruption_def report_partial_def split: option.splits)

lemma parse_physical_consumes:
  assumes "kHeaderSize \<le> length (lr_buffer this)" "parse_physical ext result this = (t, r, this')"
  shows "lr_file this' = lr_file this" "unread rest this' < unread rest this"
  using assms kHeader_lt_kBlock(1)
  by (auto simp: parse_physical_def Let_def unread_def split: if_splits)

context sequential_file
begin

lemma ReadPhysicalRecord_no_load:
  assumes "\<not> (length (lr_buffer this) < kHeaderSize \<and> \<not> lr_eof this)" "valid (lr_file this)"
    "ReadPhysicalRecord Read ext result this = (t, r, this')"
  shows "valid (lr_file this') \<and> (t = kEof \<or> unread rest this' < unread rest this)"
  using assms parse_physical_consumes(1) [of this ext result t r this'] parse_physical_consumes(2) [of this ext result t r this' rest]
  by (auto simp: ReadPhysicalRecord.simps [of Read ext result this] split: if_splits)

lemma ReadPhysicalRecord_consumes:
  assumes "valid (lr_file this)" "ReadPhysicalRecord Read ext result this = (t, r, this')"
  shows "valid (lr_file this') \<and> (t = kEof \<or> unread rest this' < unread rest this)"
proof (cases "length (lr_buffer this) < kHeaderSize \<and> \<not> lr_eof this")
  case True
  obtain f' where f': "Read (lr_file this) (of_nat kBlockSize) = (Status_OK, take kBlockSize (rest (lr_file this)), f')"
      "rest f' = drop kBlockSize (rest (lr_file this))" "valid f'"
    using Read_rest [OF assms(1), of "of_nat kBlockSize"] by (auto simp: kHeader_lt_kBlock)
  let ?b = "take kBlockSize (rest (lr_file this))"
  define t1 where "t1 = this\<lparr>lr_file := f', lr_buffer := ?b,
     lr_end_of_buffer_offset := lr_end_of_buffer_offset this + of_nat (length ?b)\<rparr>"
  define this1 where "this1 = (if length ?b < kBlockSize then t1\<lparr>lr_eof := True\<rparr> else t1)"
  have eq: "ReadPhysicalRecord Read ext result this = ReadPhysicalRecord Read ext result this1"
    by (subst ReadPhysicalRecord.simps) (use True in \<open>simp add: f'(1) this1_def t1_def Let_def\<close>)
  have "\<not> (length (lr_buffer this1) < kHeaderSize \<and> \<not> lr_eof this1)" using kHeader_lt_kBlock by (auto simp: this1_def t1_def)
  moreover have "valid (lr_file this1)" "unread rest this1 \<le> unread rest this"
    by (simp_all add: this1_def t1_def f' unread_def)
  ultimately show ?thesis using ReadPhysicalRecord_no_load [of this1 ext result t r this'] assms(2) eq by auto
next
  case False
  then show ?thesis using ReadPhysicalRecord_no_load assms by blast
qed

lemma dispatch_continues:
  "dispatch_record t l this = Inl (l', this') \<Longrightarrow> t \<noteq> kEof \<and> lr_file this' = lr_file this \<and> lr_buffer this' = lr_buffer this"
  by (auto simp: dispatch_record_def kEof_def Let_def split: if_splits)

lemma ReadRecord_loop_returns:
  assumes "valid (lr_file this)"
  shows "ReadRecord_loop Read ext l this \<noteq> None"
  using assms
proof (induction "unread rest this" arbitrary: l this rule: less_induct)
  case less
  obtain t r this1 where p: "ReadPhysicalRecord Read ext (fragment l) this = (t, r, this1)" by (metis prod_cases3)
  note c = ReadPhysicalRecord_consumes [OF less.prems p]
  show ?case
  proof (cases "ReadRecord_step Read ext l this")
    case (Inl s)
    obtain l2 this2 where s: "s = (l2, this2)" by (cases s)
    have "t \<noteq> kEof \<and> lr_file this2 = lr_file this1 \<and> lr_buffer this2 = lr_buffer this1"
      using Inl dispatch_continues [of t "l\<lparr>fragment := r\<rparr>"]
      by (auto simp: ReadRecord_step_def p s kEof_def Let_def dest!: dispatch_continues split: if_splits)
    then have "unread rest this2 < unread rest this" "valid (lr_file this2)" using c by (auto simp: unread_def)
    then show ?thesis using less.hyps [of this2 l2] by (simp add: ReadRecord_loop.simps [of Read ext l this] Inl s)
  next
    case (Inr result)
    then show ?thesis by (auto simp: ReadRecord_loop.simps [of Read ext l this])
  qed
qed

lemma SkipToInitialBlock_valid:
  assumes "valid (lr_file this)"
  shows "valid (lr_file (snd (SkipToInitialBlock Skip this)))"
proof -
  have "\<exists>f'. Skip (lr_file this) n = (Status_OK, f') \<and> valid f'" for n using Skip_rest [OF assms, of n] by blast
  then obtain g where "Skip (lr_file this) n = (Status_OK, g n)" "valid (g n)" for n by metis
  then show ?thesis using assms by (simp add: SkipToInitialBlock_def Let_def)
qed

lemma ReadRecord_returns:
  assumes "valid (lr_file this)"
  shows "ReadRecord Read Skip ext this \<noteq> None"
  using ReadRecord_loop_returns [of this ext LoopState_new] ReadRecord_loop_returns [of "snd (SkipToInitialBlock Skip this)" ext LoopState_new]
    SkipToInitialBlock_valid [OF assms] assms
  by (cases "SkipToInitialBlock Skip this") (simp add: ReadRecord_def del: not_None_eq)

end

subsection \<open>The log of the in-memory environment\<close>

interpretation mem_log: log_file SequentialFileImpl_Read SequentialFileImpl_Skip seq_rest seq_valid "Extend (\<lambda>_ _. 0) address"
  for address
  by unfold_locales

abbreviation crc :: "u32 \<Rightarrow> bytes \<Rightarrow> u32" where
  "crc \<equiv> Extend (\<lambda>_ _. 0) 0"

abbreviation log_writer :: "FileState Writer" where
  "log_writer \<equiv> Writer_new crc FileState_new"

abbreviation log_reader :: "FileState \<Rightarrow> (FileState \<times> u64) Reader" where
  "log_reader file \<equiv> Reader_new (file, 0) (Some []) True 0"

lemma FileState_new_inv: "fs_inv FileState_new" "fs_contents FileState_new = []"
  by (simp_all add: fs_inv_def FileState_new_def fs_contents_def kBlockSize_mem_def)

lemma write_log:
  assumes "length (log_bytes crc 0 rs) < 2 ^ 64"
  shows "\<exists>w. AddRecords crc (FileState_Append fresh_block) WritableFile_Flush rs log_writer = Some (Status_OK, w)
    \<and> fs_contents (lw_dest w) = log_bytes crc 0 rs \<and> fs_inv (lw_dest w)"
  using mem_writable.AddRecords_appends [of log_writer crc 0 rs] assms
  by (auto simp: fs_room_def FileState_new_inv Writer_new_def) (auto simp: FileState_new_def)

lemma read_log:
  assumes "fs_inv file" "fs_contents file = take m (log_bytes crc 0 rs)"
  shows "\<exists>r. ReadRecords SequentialFileImpl_Read SequentialFileImpl_Skip crc (Suc (length rs)) (log_reader file)
      = Some (complete_records crc 0 (length (fs_contents file)) rs, True, r) \<and> lr_reporter r = Some []"
proof -
  have "reader_at seq_rest seq_valid (fs_contents file) (length ([] :: bytes)) (log_reader file)"
    using mem_log.Reader_new_at [of "(file, 0)"] assms(1) by (simp add: seq_valid_def seq_rest_def)
  moreover have "fs_contents file @ drop m (log_bytes crc 0 rs) = [] @ log_bytes crc (length ([] :: bytes)) rs" using assms(2) by simp
  ultimately have "\<exists>r. ReadRecords SequentialFileImpl_Read SequentialFileImpl_Skip crc (Suc (length rs)) (log_reader file)
      = Some (complete_records crc (length ([] :: bytes)) (length (fs_contents file)) rs, True, r) \<and> lr_reporter r = lr_reporter (log_reader file)"
    by (rule mem_log.ReadRecords_prefix) simp_all
  then show ?thesis by (simp add: Reader_new_def del: ReadRecords.simps)
qed

lemma example_log:
  "length (log_bytes crc 0 [[1, 2], [3]]) = 17" "complete_records crc 0 14 [[1, 2], [3]] = [[1, 2]]"
  by (simp_all add: record_bytes_def fragments.simps fragment_bytes_def trailer_def next_offset_def kBlockSize_def kHeaderSize_def
      fragment_type_def length_physical_header [unfolded kHeaderSize_def])

text \<open>
  (C4) The log reader gives back what the log writer wrote. Any list of records, of any sizes, written one after the
  other to a new file is read back as the same list, after which the reader reports the end of the
  log; no corruption is reported. Fragments, block trailers and checksums are those of the code.
\<close>

theorem log_roundtrip:
  assumes "length (log_bytes crc 0 rs) < 2 ^ 64"
  shows "\<exists>w r. AddRecords crc (FileState_Append fresh_block) WritableFile_Flush rs log_writer = Some (Status_OK, w)
    \<and> ReadRecords SequentialFileImpl_Read SequentialFileImpl_Skip crc (Suc (length rs)) (log_reader (lw_dest w)) = Some (rs, True, r)
    \<and> lr_reporter r = Some []"
proof -
  obtain w where w: "AddRecords crc (FileState_Append fresh_block) WritableFile_Flush rs log_writer = Some (Status_OK, w)"
      "fs_contents (lw_dest w) = log_bytes crc 0 rs" "fs_inv (lw_dest w)"
    using write_log [OF assms] by blast
  then show ?thesis using read_log [OF w(3), of "length (log_bytes crc 0 rs)" rs] complete_records_all [of 0 crc rs] by simp
qed

theorem log_roundtrip_witness:
  "\<exists>w r. AddRecords crc (FileState_Append fresh_block) WritableFile_Flush [[1, 2], [3]] log_writer = Some (Status_OK, w)
    \<and> ReadRecords SequentialFileImpl_Read SequentialFileImpl_Skip crc (Suc (length [[1, 2], [3 :: byte]])) (log_reader (lw_dest w))
        = Some ([[1, 2], [3]], True, r)
    \<and> lr_reporter r = Some []"
  by (rule log_roundtrip) (simp only: example_log, simp)

text \<open>
  (C3) A log that was cut off anywhere, as by a crash of the writer, is read back up to the last complete
  record. When only the first \<open>m\<close> bytes of a log have survived, the reader returns exactly the records whose bytes are
  complete, in order, and then the end of the log; the record that was cut is not reported as a corruption.
\<close>

theorem log_crash_prefix:
  assumes "fs_inv file" and "fs_contents file = take m (log_bytes crc 0 rs)"
  shows "\<exists>r. ReadRecords SequentialFileImpl_Read SequentialFileImpl_Skip crc (Suc (length rs)) (log_reader file)
      = Some (complete_records crc 0 m rs, True, r) \<and> lr_reporter r = Some []"
proof (cases "m \<le> length (log_bytes crc 0 rs)")
  case True
  then show ?thesis using read_log [OF assms] assms(2) by simp
next
  case False
  then show ?thesis using read_log [OF assms] assms(2) complete_records_all [of 0 crc rs m]
      complete_records_all [of 0 crc rs "length (log_bytes crc 0 rs)"] by simp
qed

theorem log_crash_prefix_witness:
  "\<exists>r. ReadRecords SequentialFileImpl_Read SequentialFileImpl_Skip crc (Suc (length [[1, 2], [3 :: byte]]))
       (log_reader (FileState_Append_loop fresh_block FileState_new (take 14 (log_bytes crc 0 [[1, 2], [3]]))))
      = Some ([[1, 2]], True, r) \<and> lr_reporter r = Some []"
proof -
  have "fs_inv (FileState_Append_loop fresh_block FileState_new (take 14 (log_bytes crc 0 [[1, 2], [3]])))"
    "fs_contents (FileState_Append_loop fresh_block FileState_new (take 14 (log_bytes crc 0 [[1, 2], [3]]))) = take 14 (log_bytes crc 0 [[1, 2], [3]])"
    using FileState_Append_loop_contents [OF FileState_new_inv(1), of fresh_block "take 14 (log_bytes crc 0 [[1, 2], [3]])"]
    by (simp_all add: FileState_new_inv(2) fresh_block_def example_log(1) del: log_bytes.simps) (simp_all add: FileState_new_def)
  from log_crash_prefix [OF this] show ?thesis by (simp only: example_log(2))
qed

text \<open>
  (C11) \<open>ReadRecord\<close> returns on every file, whatever its bytes are and from every initial offset: each round of
  its loop consumes bytes of the file.
\<close>

theorem ReadRecord_returns_always:
  assumes "fs_inv (fst file)" and "snd file \<le> fs_size (fst file)"
  shows "\<exists>result. ReadRecord SequentialFileImpl_Read SequentialFileImpl_Skip ext (Reader_new file reporter check initial_offset) = Some result"
  using mem_sequential.ReadRecord_returns [of "Reader_new file reporter check initial_offset" ext] assms
  by (simp add: Reader_new_def seq_valid_def)

theorem ReadRecord_returns_always_witness:
  "\<exists>result. ReadRecord SequentialFileImpl_Read SequentialFileImpl_Skip crc (Reader_new (example_file, 3) None True 40000) = Some result"
  by (rule ReadRecord_returns_always) (simp_all add: example_file_inv, simp add: example_file_def)

end
