(* ===== verification/RandomGen.thy ===== *)
theory RandomGen
  imports Prelude
begin

section \<open>The pseudo-random generator (util/random.h)\<close>

text \<open>
  The generator multiplies its seed by 16807 modulo \<open>M = 2\<^sup>31 - 1\<close>, with the modulus computed by shifts. The state
  is the seed; every function returns the new state with its result.
\<close>

definition Random_M :: u32 where "Random_M = 2147483647"
definition Random_A :: u64 where "Random_A = 16807"

definition Random_new :: "u32 \<Rightarrow> u32" where
  "Random_new s = (let seed = s AND 0x7fffffff in if seed = 0 \<or> seed = 2147483647 then 1 else seed)"

definition Random_Next :: "u32 \<Rightarrow> u32 \<times> u32" where
  "Random_Next seed =
     (let product = ucast seed * Random_A;
          seed = ucast (drop_bit 31 product + (product AND ucast Random_M)) :: u32;
          seed = (if Random_M < seed then seed - Random_M else seed)
      in (seed, seed))"

definition Random_Uniform :: "u32 \<Rightarrow> u32 \<Rightarrow> u32 \<times> u32" where
  "Random_Uniform n seed = (let (r, seed) = Random_Next seed in (r mod n, seed))"

definition Random_OneIn :: "u32 \<Rightarrow> u32 \<Rightarrow> bool \<times> u32" where
  "Random_OneIn n seed = (let (r, seed) = Random_Next seed in (r mod n = 0, seed))"

definition Random_Skewed :: "nat \<Rightarrow> u32 \<Rightarrow> u32 \<times> u32" where
  "Random_Skewed max_log seed =
     (let (b, seed) = Random_Uniform (of_nat (max_log + 1)) seed in Random_Uniform (push_bit (unat b) 1) seed)"

definition good_seed :: "u32 \<Rightarrow> bool" where
  "good_seed seed \<longleftrightarrow> 0 < seed \<and> seed < Random_M"

lemma Random_new_good: "good_seed (Random_new s)"
proof -
  have "s AND 0x7fffffff \<le> 0x7fffffff" by (rule word_and_le1)
  then show ?thesis
    by (simp add: good_seed_def Random_new_def Random_M_def Let_def word_gt_0 order_less_le)
qed

text \<open>The reduction by shifts: with \<open>2\<^sup>31 = M + 1\<close>, the high part plus the low part is congruent to the product.\<close>

lemma mersenne_reduce:
  fixes p :: nat
  assumes "0 < p" "p < 2147483647 * 16807" "\<not> 2147483647 dvd p"
  shows "(let q = p div 2147483648 + p mod 2147483648 in if 2147483647 < q then q - 2147483647 else q) = p mod 2147483647"
proof -
  define q where "q = p div 2147483648 + p mod 2147483648"
  have "p = p div 2147483648 * 2147483647 + q" by (simp add: q_def)
  then have m: "p mod 2147483647 = q mod 2147483647" by (metis mod_mult_self3)
  have "p div 2147483648 < 16807" "p mod 2147483648 < 2147483648" using assms(2) by simp_all
  then have q: "q < 2147483647 + 16808" by (simp add: q_def)
  have "q \<noteq> 2147483647" using m assms(3) by (metis dvd_eq_mod_eq_0 mod_self)
  show ?thesis
  proof (cases "2147483647 < q")
    case True
    then have "q mod 2147483647 = q - 2147483647" using q by (simp add: le_mod_geq)
    then show ?thesis using True m by (simp add: q_def Let_def)
  next
    case False
    then show ?thesis using m \<open>q \<noteq> 2147483647\<close> by (simp add: q_def Let_def)
  qed
qed


lemma Random_product:
  assumes "good_seed seed"
  defines "p \<equiv> ucast seed * Random_A"
  shows "unat p = unat seed * 16807" "unat p < 2147483647 * 16807"
    "unat (drop_bit 31 p + (p AND ucast Random_M)) = unat p div 2147483648 + unat p mod 2147483648"
proof -
  have s: "unat seed < 2147483647" using assms(1) by (simp add: good_seed_def Random_M_def word_less_nat_alt)
  have u: "unat (ucast seed :: u64) = unat seed" using s by (simp add: unsigned_ucast_eq take_bit_nat_eq_self)
  show p: "unat p = unat seed * 16807" using s u by (simp add: p_def Random_A_def unat_word_ariths)
  then show l: "unat p < 2147483647 * 16807" using s by simp
  have "ucast Random_M = (mask 31 :: u64)" by (simp add: Random_M_def mask_eq_exp_minus_1)
  then have "unat (p AND ucast Random_M) = unat p mod 2147483648"
    by (simp add: take_bit_eq_mask [symmetric] take_bit_eq_mod unat_mod)
  moreover have "unat (drop_bit 31 p) = unat p div 2147483648" by (simp add: drop_bit_eq_div unat_div)
  moreover have "unat p div 2147483648 + unat p mod 2147483648 < 2 ^ 64"
  proof -
    have "unat p div 2147483648 < 16807" using l by simp
    moreover have "unat p mod 2147483648 < 2147483648" by simp
    ultimately show ?thesis by simp
  qed
  ultimately show "unat (drop_bit 31 p + (p AND ucast Random_M)) = unat p div 2147483648 + unat p mod 2147483648"
    by (simp add: unat_word_ariths)
qed

lemma M_not_dvd:
  fixes s :: nat
  assumes "0 < s" "s < 2147483647"
  shows "\<not> 2147483647 dvd s * 16807"
proof -
  have "coprime (2147483647 :: nat) 16807" by (simp add: coprime_iff_gcd_eq_1 gcd_non_0_nat)
  then have "2147483647 dvd s * 16807 \<longleftrightarrow> 2147483647 dvd s" by (rule coprime_dvd_mult_left_iff)
  then show ?thesis using assms by (auto dest: dvd_imp_le)
qed

lemma Random_Next_nat:
  assumes "good_seed seed"
  shows "unat (fst (Random_Next seed)) = unat seed * 16807 mod 2147483647"
proof -
  define p where "p = ucast seed * Random_A"
  define q where "q = unat p div 2147483648 + unat p mod 2147483648"
  define w where "w = (ucast (drop_bit 31 p + (p AND ucast Random_M)) :: u32)"
  note P = Random_product [OF assms, folded p_def, folded q_def]
  have s: "0 < unat seed" "unat seed < 2147483647"
    using assms by (simp_all add: good_seed_def Random_M_def word_less_nat_alt)
  have "unat p div 2147483648 < 16807" using P(2) by simp
  moreover have "unat p mod 2147483648 < 2147483648" by simp
  ultimately have "q < 2 ^ 32" unfolding q_def by simp
  then have w: "unat w = q" using P(3) by (simp add: w_def unsigned_ucast_eq take_bit_nat_eq_self)
  have "fst (Random_Next seed) = (if Random_M < w then w - Random_M else w)"
    by (simp add: Random_Next_def Let_def w_def p_def)
  then have "unat (fst (Random_Next seed)) = (if 2147483647 < q then q - 2147483647 else q)"
    using w by (simp add: Random_M_def word_less_nat_alt unat_sub word_le_nat_alt)
  moreover have "(if 2147483647 < q then q - 2147483647 else q) = unat p mod 2147483647"
    using mersenne_reduce [of "unat p", folded q_def] P(1,2) M_not_dvd [OF s] s unfolding Let_def by simp
  ultimately show ?thesis using P(1) by simp
qed

text \<open>
  (C18) \<open>Random::Next\<close> multiplies the seed by 16807 modulo the Mersenne prime \<open>2\<^sup>31 - 1\<close>: the reduction by shift and
  mask, with its single correction, is the remainder of the 64-bit product. A seed strictly between zero and the
  modulus stays there, and every constructor argument gives such a seed.
\<close>

theorem Random_Next_mod:
  "good_seed (Random_new s) \<and>
   (good_seed seed \<longrightarrow> unat (fst (Random_Next seed)) = unat seed * 16807 mod 2147483647 \<and> good_seed (snd (Random_Next seed)))"
proof -
  have "good_seed (snd (Random_Next seed))" if g: "good_seed seed"
  proof -
    have s: "0 < unat seed" "unat seed < 2147483647"
      using g by (simp_all add: good_seed_def Random_M_def word_less_nat_alt)
    have "snd (Random_Next seed) = fst (Random_Next seed)" by (simp add: Random_Next_def Let_def)
    moreover have "unat seed * 16807 mod 2147483647 \<noteq> 0" using M_not_dvd [OF s] by (metis dvd_eq_mod_eq_0)
    ultimately show ?thesis using Random_Next_nat [OF g]
      by (simp add: good_seed_def Random_M_def word_less_nat_alt)
  qed
  then show ?thesis using Random_new_good Random_Next_nat by blast
qed

theorem Random_Next_mod_witness:
  "good_seed (Random_new 0xdeadbeef) \<and> unat (fst (Random_Next 1)) = unat (1 :: u32) * 16807 mod 2147483647"
  using Random_Next_mod [of "0xdeadbeef" 1] by (simp add: good_seed_def Random_M_def)

end
