(* ===== verification/SkipList.thy ===== *)
theory SkipList
  imports Comparator RandomGen "HOL-Library.Monad_Syntax"
begin

section \<open>The skip list (db/skiplist.h)\<close>

text \<open>
  Nodes are the elements of a list and a pointer is an index into it; the head is node 0. A node has its key and
  one link per level of its height. The loops follow the links and are partial functions: \<open>None\<close> is an access
  outside the nodes or the links, a failed assertion, or a loop that does not end.
\<close>

definition kMaxHeight :: nat where "kMaxHeight = 12"

record Node =
  nd_key :: bytes
  nd_next :: "nat option list"

record SkipList =
  sl_nodes :: "Node list"
  sl_max_height :: nat
  sl_rnd :: u32

definition Node_Next :: "SkipList \<Rightarrow> nat \<Rightarrow> nat \<Rightarrow> nat option option" where
  "Node_Next sl x n =
     (if x < length (sl_nodes sl) \<and> n < length (nd_next (sl_nodes sl ! x)) then Some (nd_next (sl_nodes sl ! x) ! n) else None)"

definition Node_SetNext :: "SkipList \<Rightarrow> nat \<Rightarrow> nat \<Rightarrow> nat option \<Rightarrow> SkipList option" where
  "Node_SetNext sl x n y =
     (if x < length (sl_nodes sl) \<and> n < length (nd_next (sl_nodes sl ! x))
      then Some (sl\<lparr>sl_nodes := (sl_nodes sl)[x := (sl_nodes sl ! x)\<lparr>nd_next := (nd_next (sl_nodes sl ! x))[n := y]\<rparr>]\<rparr>)
      else None)"

definition Node_key :: "SkipList \<Rightarrow> nat \<Rightarrow> bytes option" where
  "Node_key sl x = (if x < length (sl_nodes sl) then Some (nd_key (sl_nodes sl ! x)) else None)"

text \<open>The links of a new node are not initialised: \<open>junk\<close> stands for what the memory holds.\<close>

definition NewNode :: "(nat \<Rightarrow> nat option) \<Rightarrow> bytes \<Rightarrow> nat \<Rightarrow> SkipList \<Rightarrow> nat \<times> SkipList" where
  "NewNode junk key height sl =
     (length (sl_nodes sl), sl\<lparr>sl_nodes := sl_nodes sl @ [\<lparr>nd_key = key, nd_next = map junk [0..<height]\<rparr>]\<rparr>)"

definition SkipList_new :: "bytes \<Rightarrow> SkipList" where
  "SkipList_new any_key =
     \<lparr>sl_nodes = [\<lparr>nd_key = any_key, nd_next = replicate kMaxHeight None\<rparr>], sl_max_height = 1, sl_rnd = Random_new 0xdeadbeef\<rparr>"

function RandomHeight_loop :: "nat \<Rightarrow> u32 \<Rightarrow> nat \<times> u32" where
  "RandomHeight_loop height rnd =
     (if height < kMaxHeight then
        (let (r, rnd) = Random_Next rnd in if r mod 4 = 0 then RandomHeight_loop (height + 1) rnd else (height, rnd))
      else (height, rnd))"
  by pat_completeness auto
termination
  by (relation "measure (\<lambda>(h, r). kMaxHeight - h)") auto

declare RandomHeight_loop.simps [simp del]

definition RandomHeight :: "u32 \<Rightarrow> nat \<times> u32" where
  "RandomHeight rnd = RandomHeight_loop 1 rnd"

definition KeyIsAfterNode :: "(bytes \<Rightarrow> bytes \<Rightarrow> int) \<Rightarrow> SkipList \<Rightarrow> bytes \<Rightarrow> nat option \<Rightarrow> bool option" where
  "KeyIsAfterNode compare sl key n =
     (case n of None \<Rightarrow> Some False | Some a \<Rightarrow> do { k \<leftarrow> Node_key sl a; Some (compare k key < 0) })"

partial_function (option) FindGreaterOrEqual_loop ::
    "(bytes \<Rightarrow> bytes \<Rightarrow> int) \<Rightarrow> SkipList \<Rightarrow> bytes \<Rightarrow> nat \<Rightarrow> nat \<Rightarrow> (nat \<Rightarrow> nat option) \<Rightarrow> (nat option \<times> (nat \<Rightarrow> nat option)) option" where
  "FindGreaterOrEqual_loop compare sl key x level prev =
     do {
       next \<leftarrow> Node_Next sl x level;
       after \<leftarrow> KeyIsAfterNode compare sl key next;
       if after then FindGreaterOrEqual_loop compare sl key (the next) level prev
       else if level = 0 then Some (next, prev(level \<mapsto> x))
       else FindGreaterOrEqual_loop compare sl key x (level - 1) (prev(level \<mapsto> x))
     }"

definition FindGreaterOrEqual ::
    "(bytes \<Rightarrow> bytes \<Rightarrow> int) \<Rightarrow> SkipList \<Rightarrow> bytes \<Rightarrow> (nat option \<times> (nat \<Rightarrow> nat option)) option" where
  "FindGreaterOrEqual compare sl key = FindGreaterOrEqual_loop compare sl key 0 (sl_max_height sl - 1) (\<lambda>_. None)"

partial_function (option) FindLessThan_loop ::
    "(bytes \<Rightarrow> bytes \<Rightarrow> int) \<Rightarrow> SkipList \<Rightarrow> bytes \<Rightarrow> nat \<Rightarrow> nat \<Rightarrow> nat option" where
  "FindLessThan_loop compare sl key x level =
     do {
       kx \<leftarrow> Node_key sl x;
       if \<not> (x = 0 \<or> compare kx key < 0) then None
       else do {
         next \<leftarrow> Node_Next sl x level;
         after \<leftarrow> KeyIsAfterNode compare sl key next;
         if \<not> after then (if level = 0 then Some x else FindLessThan_loop compare sl key x (level - 1))
         else FindLessThan_loop compare sl key (the next) level
       }
     }"

definition FindLessThan :: "(bytes \<Rightarrow> bytes \<Rightarrow> int) \<Rightarrow> SkipList \<Rightarrow> bytes \<Rightarrow> nat option" where
  "FindLessThan compare sl key = FindLessThan_loop compare sl key 0 (sl_max_height sl - 1)"

partial_function (option) FindLast_loop :: "SkipList \<Rightarrow> nat \<Rightarrow> nat \<Rightarrow> nat option" where
  "FindLast_loop sl x level =
     do {
       next \<leftarrow> Node_Next sl x level;
       case next of
         None \<Rightarrow> if level = 0 then Some x else FindLast_loop sl x (level - 1)
       | Some a \<Rightarrow> FindLast_loop sl a level
     }"

definition FindLast :: "SkipList \<Rightarrow> nat option" where
  "FindLast sl = FindLast_loop sl 0 (sl_max_height sl - 1)"

text \<open>
  Linking the new node \<open>x\<close> into a level: its own link is set before it is published in its predecessor. The
  levels are linked from the bottom up.
\<close>

definition link_self :: "(nat \<Rightarrow> nat option) \<Rightarrow> nat \<Rightarrow> nat \<Rightarrow> SkipList \<Rightarrow> SkipList option" where
  "link_self prev x i sl = do { p \<leftarrow> prev i; n \<leftarrow> Node_Next sl p i; Node_SetNext sl x i n }"

definition link_publish :: "(nat \<Rightarrow> nat option) \<Rightarrow> nat \<Rightarrow> nat \<Rightarrow> SkipList \<Rightarrow> SkipList option" where
  "link_publish prev x i sl = do { p \<leftarrow> prev i; Node_SetNext sl p i (Some x) }"

fun link_levels :: "(nat \<Rightarrow> nat option) \<Rightarrow> nat \<Rightarrow> nat list \<Rightarrow> SkipList \<Rightarrow> SkipList option" where
  "link_levels prev x [] sl = Some sl"
| "link_levels prev x (i # is) sl = do { sl \<leftarrow> link_self prev x i sl; sl \<leftarrow> link_publish prev x i sl; link_levels prev x is sl }"

definition Insert_node ::
    "(nat \<Rightarrow> nat option) \<Rightarrow> bytes \<Rightarrow> (nat \<Rightarrow> nat option) \<Rightarrow> SkipList \<Rightarrow> (nat \<Rightarrow> nat option) \<times> nat \<times> nat \<times> SkipList" where
  "Insert_node junk key prev sl =
     (let (height, rnd) = RandomHeight (sl_rnd sl);
          max_height = sl_max_height sl;
          prev = (\<lambda>i. if max_height \<le> i \<and> i < height then Some 0 else prev i);
          sl = sl\<lparr>sl_rnd := rnd, sl_max_height := (if max_height < height then height else max_height)\<rparr>;
          (x, sl) = NewNode junk key height sl
      in (prev, height, x, sl))"

definition Insert :: "(bytes \<Rightarrow> bytes \<Rightarrow> int) \<Rightarrow> (nat \<Rightarrow> nat option) \<Rightarrow> bytes \<Rightarrow> SkipList \<Rightarrow> SkipList option" where
  "Insert compare junk key sl =
     do {
       (x, prev) \<leftarrow> FindGreaterOrEqual compare sl key;
       dup \<leftarrow> (case x of None \<Rightarrow> Some False | Some a \<Rightarrow> do { k \<leftarrow> Node_key sl a; Some (compare key k = 0) });
       if dup then None
       else (let (prev, height, x, sl) = Insert_node junk key prev sl in link_levels prev x [0..<height] sl)
     }"

definition Contains :: "(bytes \<Rightarrow> bytes \<Rightarrow> int) \<Rightarrow> bytes \<Rightarrow> SkipList \<Rightarrow> bool option" where
  "Contains compare key sl =
     do {
       (x, _) \<leftarrow> FindGreaterOrEqual compare sl key;
       case x of None \<Rightarrow> Some False | Some a \<Rightarrow> do { k \<leftarrow> Node_key sl a; Some (compare key k = 0) }
     }"

text \<open>The iterator is a pointer to a node; its methods take the list.\<close>

definition Iter_Valid :: "nat option \<Rightarrow> bool" where
  "Iter_Valid node \<longleftrightarrow> node \<noteq> None"

definition Iter_key :: "SkipList \<Rightarrow> nat option \<Rightarrow> bytes option" where
  "Iter_key sl node = do { a \<leftarrow> node; Node_key sl a }"

definition Iter_Next :: "SkipList \<Rightarrow> nat option \<Rightarrow> nat option option" where
  "Iter_Next sl node = do { a \<leftarrow> node; Node_Next sl a 0 }"

definition Iter_Prev :: "(bytes \<Rightarrow> bytes \<Rightarrow> int) \<Rightarrow> SkipList \<Rightarrow> nat option \<Rightarrow> nat option option" where
  "Iter_Prev compare sl node =
     do { k \<leftarrow> Iter_key sl node; a \<leftarrow> FindLessThan compare sl k; Some (if a = 0 then None else Some a) }"

definition Iter_Seek :: "(bytes \<Rightarrow> bytes \<Rightarrow> int) \<Rightarrow> SkipList \<Rightarrow> bytes \<Rightarrow> nat option option" where
  "Iter_Seek compare sl target = map_option fst (FindGreaterOrEqual compare sl target)"

definition Iter_SeekToFirst :: "SkipList \<Rightarrow> nat option option" where
  "Iter_SeekToFirst sl = Node_Next sl 0 0"

definition Iter_SeekToLast :: "SkipList \<Rightarrow> nat option option" where
  "Iter_SeekToLast sl = do { a \<leftarrow> FindLast sl; Some (if a = 0 then None else Some a) }"

subsection \<open>The chains of a skip list\<close>

text \<open>
  The abstraction: at every level the links form a chain of nodes from the head, sorted by key; the nodes of
  a level are on the level below, too. A chain need not hold every node that is high enough, which is the
  case while a node is being linked.
\<close>

fun chain :: "SkipList \<Rightarrow> nat \<Rightarrow> nat list \<Rightarrow> bool" where
  "chain sl i [] = True"
| "chain sl i [x] = (Node_Next sl x i = Some None)"
| "chain sl i (x # y # q) = (Node_Next sl x i = Some (Some y) \<and> chain sl i (y # q))"

definition key_of :: "SkipList \<Rightarrow> nat \<Rightarrow> bytes" where
  "key_of sl x = nd_key (sl_nodes sl ! x)"

definition sl_ok :: "(bytes \<Rightarrow> bytes \<Rightarrow> int) \<Rightarrow> (bytes \<Rightarrow> bool) \<Rightarrow> SkipList \<Rightarrow> (nat \<Rightarrow> nat list) \<Rightarrow> bool" where
  "sl_ok compare valid sl ch \<longleftrightarrow>
     0 < sl_max_height sl \<and> sl_max_height sl \<le> kMaxHeight
     \<and> 0 < length (sl_nodes sl) \<and> length (nd_next (sl_nodes sl ! 0)) = kMaxHeight
     \<and> (\<forall>i < kMaxHeight. chain sl i (0 # ch i))
     \<and> (\<forall>i. Suc i < kMaxHeight \<longrightarrow> set (ch (Suc i)) \<subseteq> set (ch i))
     \<and> (\<forall>i < kMaxHeight. sl_max_height sl \<le> i \<longrightarrow> ch i = [])
     \<and> (\<forall>i < kMaxHeight. sorted_wrt (\<lambda>a b. compare (key_of sl a) (key_of sl b) < 0) (ch i))
     \<and> (\<forall>a \<in> set (ch 0). 0 < a \<and> a < length (sl_nodes sl) \<and> valid (key_of sl a))"

definition sl_keys :: "SkipList \<Rightarrow> (nat \<Rightarrow> nat list) \<Rightarrow> bytes list" where
  "sl_keys sl ch = map (key_of sl) (ch 0)"

lemma chain_next: "chain sl i (p @ x # q) \<Longrightarrow> Node_Next sl x i = Some (case q of [] \<Rightarrow> None | y # _ \<Rightarrow> Some y)"
proof (induction p)
  case Nil
  then show ?case by (cases q) simp_all
next
  case (Cons a p)
  then show ?case by (cases p) simp_all
qed

lemma chain_frame: "\<forall>x \<in> set xs. Node_Next sl' x i = Node_Next sl x i \<Longrightarrow> chain sl' i xs = chain sl i xs"
  by (induction sl i xs rule: chain.induct) simp_all

lemma chain_insert:
  assumes "chain sl i (p @ y # q)"
    and "\<forall>z \<in> set (p @ q). Node_Next sl' z i = Node_Next sl z i"
    and "Node_Next sl' y i = Some (Some x)" "Node_Next sl' x i = Node_Next sl y i"
  shows "chain sl' i (p @ y # x # q)"
  using assms(1,2)
proof (induction p)
  case Nil
  then show ?case using assms(3,4) chain_frame [of q sl' i sl] by (cases q) auto
next
  case (Cons a p)
  then show ?case by (cases p) auto
qed

subsection \<open>Searching\<close>

definition before :: "(bytes \<Rightarrow> bytes \<Rightarrow> int) \<Rightarrow> SkipList \<Rightarrow> bytes \<Rightarrow> nat \<Rightarrow> bool" where
  "before compare sl k a \<longleftrightarrow> compare (key_of sl a) k < 0"

definition pointer_to :: "nat list \<Rightarrow> nat option" where
  "pointer_to q = (case q of [] \<Rightarrow> None | y # _ \<Rightarrow> Some y)"

lemma the_pointer_to [simp]: "the (pointer_to (z # q)) = z"
  by (simp add: pointer_to_def)

lemma chain_pointer: "chain sl i (p @ x # q) \<Longrightarrow> Node_Next sl x i = Some (pointer_to q)"
  unfolding pointer_to_def by (rule chain_next)

lemma split_at:
  assumes "0 # c = p @ x # q" "\<forall>a \<in> set (tl (p @ [x])). P a" "q = [] \<or> \<not> P (hd q)"
  shows "takeWhile P c = tl (p @ [x])" "dropWhile P c = q" "last (0 # takeWhile P c) = x"
proof -
  have c: "c = tl (p @ [x]) @ q" using assms(1) by (cases p) auto
  have "takeWhile P q = []" "dropWhile P q = q" using assms(3) by (cases q; simp)+
  then show t: "takeWhile P c = tl (p @ [x])" "dropWhile P c = q"
    unfolding c using assms(2) by (simp_all add: takeWhile_append2 dropWhile_append2)
  show "last (0 # takeWhile P c) = x" unfolding t(1) using assms(1) by (cases p) auto
qed

lemma sl_okD:
  assumes "sl_ok compare valid sl ch"
  shows "0 < sl_max_height sl" "sl_max_height sl \<le> kMaxHeight" "0 < length (sl_nodes sl)" "length (nd_next (sl_nodes sl ! 0)) = kMaxHeight"
    "i < kMaxHeight \<Longrightarrow> chain sl i (0 # ch i)" "Suc i < kMaxHeight \<Longrightarrow> set (ch (Suc i)) \<subseteq> set (ch i)"
    "i < kMaxHeight \<Longrightarrow> sl_max_height sl \<le> i \<Longrightarrow> ch i = []"
    "i < kMaxHeight \<Longrightarrow> sorted_wrt (\<lambda>a b. compare (key_of sl a) (key_of sl b) < 0) (ch i)"
    "i < kMaxHeight \<Longrightarrow> set (ch i) \<subseteq> set (ch 0)"
    "i < kMaxHeight \<Longrightarrow> a \<in> set (ch i) \<Longrightarrow> 0 < a \<and> a < length (sl_nodes sl) \<and> valid (key_of sl a)"
proof -
  show sub: "set (ch i) \<subseteq> set (ch 0)" if "i < kMaxHeight" for i
    using that
  proof (induction i)
    case (Suc i)
    then show ?case using assms unfolding sl_ok_def by (meson Suc_lessD subset_trans)
  qed simp
  show "0 < a \<and> a < length (sl_nodes sl) \<and> valid (key_of sl a)" if "i < kMaxHeight" "a \<in> set (ch i)"
    using sub [OF that(1)] that(2) assms unfolding sl_ok_def by blast
qed (use assms in \<open>auto simp: sl_ok_def\<close>)

lemma Node_key_of: "a < length (sl_nodes sl) \<Longrightarrow> Node_key sl a = Some (key_of sl a)"
  by (simp add: Node_key_def key_of_def)

lemma KeyIsAfterNode_pointer:
  assumes "sl_ok compare valid sl ch" "i < kMaxHeight" "set q \<subseteq> set (ch i)"
  shows "KeyIsAfterNode compare sl k (pointer_to q) = Some (q \<noteq> [] \<and> before compare sl k (hd q))"
  using assms(3) sl_okD(10) [OF assms(1,2)]
  by (cases q) (auto simp: KeyIsAfterNode_def pointer_to_def before_def Node_key_of)

context key_comparator
begin

lemma before_closed:
  assumes ok: "sl_ok Compare valid sl ch" and k: "valid k" and i: "i < kMaxHeight"
    and c: "0 # ch i = p @ x # q" and x: "x = 0 \<or> before Compare sl k x"
  shows "\<forall>a \<in> set (tl (p @ [x])). before Compare sl k a"
proof (cases p)
  case (Cons y p')
  then have "ch i = p' @ x # q" "x \<in> set (ch i)" using c by auto
  then have "\<forall>a \<in> set p'. Compare (key_of sl a) (key_of sl x) < 0" "before Compare sl k x" "valid (key_of sl x)" "\<forall>a \<in> set p'. valid (key_of sl a)"
    using sl_okD(8) [OF ok i] x sl_okD(10) [OF ok i] by (auto simp: sorted_wrt_append)
  then show ?thesis using Compare_less_trans [OF _ _ k] Cons by (auto simp: before_def)
qed simp

lemma lower_level:
  assumes ok: "sl_ok Compare valid sl ch" and k: "valid k" and i: "Suc i < kMaxHeight"
    and c: "0 # ch (Suc i) = p @ x # q" and x: "\<forall>a \<in> set (tl (p @ [x])). before Compare sl k a"
  shows "\<exists>p q. 0 # ch i = p @ x # q \<and> (\<forall>a \<in> set (tl (p @ [x])). before Compare sl k a)"
proof -
  have "x = 0 \<or> before Compare sl k x" using c x by (cases p) auto
  moreover have "x \<in> set (0 # ch (Suc i))" unfolding c by simp
  then have "x \<in> set (0 # ch i)" using sl_okD(6) [OF ok i] by auto
  then obtain p q where "0 # ch i = p @ x # q" by (meson split_list)
  ultimately show ?thesis using before_closed [OF ok k _ _] i by (metis Suc_lessD)
qed

lemma search_step:
  assumes ok: "sl_ok Compare valid sl ch" and i: "i < kMaxHeight" and c: "0 # ch i = p @ x # q"
  shows "Node_Next sl x i = Some (pointer_to q)"
    "KeyIsAfterNode Compare sl k (pointer_to q) = Some (q \<noteq> [] \<and> before Compare sl k (hd q))"
proof -
  show "Node_Next sl x i = Some (pointer_to q)" using chain_pointer [of sl i p x q] sl_okD(5) [OF ok i] c by simp
  have "set q \<subseteq> set (ch i)" using c by (cases p) auto
  then show "KeyIsAfterNode Compare sl k (pointer_to q) = Some (q \<noteq> [] \<and> before Compare sl k (hd q))"
    by (rule KeyIsAfterNode_pointer [OF ok i])
qed

lemma FindGreaterOrEqual_level:
  assumes ok: "sl_ok Compare valid sl ch" and i: "i < kMaxHeight"
    and "0 # ch i = p @ x # q" "\<forall>a \<in> set (tl (p @ [x])). before Compare sl k a"
  defines "y \<equiv> last (0 # takeWhile (before Compare sl k) (ch i))"
  shows "FindGreaterOrEqual_loop Compare sl k x i prev =
    (if i = 0 then Some (pointer_to (dropWhile (before Compare sl k) (ch 0)), prev(0 \<mapsto> y))
     else FindGreaterOrEqual_loop Compare sl k y (i - 1) (prev(i \<mapsto> y)))"
  using assms(3,4)
proof (induction q arbitrary: p x)
  case Nil
  have "y = x" "dropWhile (before Compare sl k) (ch i) = []"
    unfolding y_def using split_at(2,3) [OF Nil.prems] by blast+
  then show ?case using search_step [OF ok i Nil.prems(1)]
    by (subst FindGreaterOrEqual_loop.simps) (auto simp del: dropWhile_eq_Nil_conv)
next
  case (Cons z q)
  note step = search_step [OF ok i Cons.prems(1)]
  show ?case
  proof (cases "before Compare sl k z")
    case True
    have "FindGreaterOrEqual_loop Compare sl k x i prev = FindGreaterOrEqual_loop Compare sl k z i prev"
      using True by (subst FindGreaterOrEqual_loop.simps) (simp add: step)
    then show ?thesis using Cons.IH [of "p @ [x]" z] Cons.prems True by (cases p) auto
  next
    case False
    then have "y = x" "dropWhile (before Compare sl k) (ch i) = z # q"
      unfolding y_def using split_at(2,3) [OF Cons.prems] by auto
    then show ?thesis using step False by (subst FindGreaterOrEqual_loop.simps) (auto simp del: dropWhile_eq_Cons_conv)
  qed
qed

lemma search_end:
  assumes ok: "sl_ok Compare valid sl ch" and i: "i < kMaxHeight"
  shows "\<exists>p q. 0 # ch i = p @ last (0 # takeWhile (before Compare sl k) (ch i)) # q
    \<and> (\<forall>a \<in> set (tl (p @ [last (0 # takeWhile (before Compare sl k) (ch i))])). before Compare sl k a)"
proof -
  let ?t = "takeWhile (before Compare sl k) (ch i)"
  have "0 # ch i = butlast (0 # ?t) @ last (0 # ?t) # dropWhile (before Compare sl k) (ch i)"
    by (metis append_Cons append_butlast_last_id append.assoc append_Nil list.distinct(1) takeWhile_dropWhile_id)
  moreover have "butlast (0 # ?t) @ [last (0 # ?t)] = 0 # ?t" by (rule append_butlast_last_id) simp
  ultimately show ?thesis
    by (intro exI [of _ "butlast (0 # ?t)"] exI [of _ "dropWhile (before Compare sl k) (ch i)"]) (auto dest: set_takeWhileD)
qed

lemma FindGreaterOrEqual_loop_spec:
  assumes ok: "sl_ok Compare valid sl ch" and k: "valid k" and "i < kMaxHeight"
    and "0 # ch i = p @ x # q" "\<forall>a \<in> set (tl (p @ [x])). before Compare sl k a"
  shows "FindGreaterOrEqual_loop Compare sl k x i prev =
    Some (pointer_to (dropWhile (before Compare sl k) (ch 0)),
      \<lambda>j. if j \<le> i then Some (last (0 # takeWhile (before Compare sl k) (ch j))) else prev j)"
  using assms(3-)
proof (induction i arbitrary: p x q prev)
  case 0
  then show ?case using FindGreaterOrEqual_level [OF ok, of 0 p x q k prev] by (auto simp: fun_eq_iff)
next
  case (Suc i)
  let ?y = "last (0 # takeWhile (before Compare sl k) (ch (Suc i)))"
  obtain p' q' where "0 # ch (Suc i) = p' @ ?y # q'" "\<forall>a \<in> set (tl (p' @ [?y])). before Compare sl k a"
    using search_end [OF ok Suc.prems(1)] by blast
  then obtain p'' q'' where "0 # ch i = p'' @ ?y # q''" "\<forall>a \<in> set (tl (p'' @ [?y])). before Compare sl k a"
    using lower_level [OF ok k Suc.prems(1)] by blast
  then show ?case using FindGreaterOrEqual_level [OF ok Suc.prems, where prev = prev] Suc.IH Suc.prems(1)
    by (auto simp: fun_eq_iff le_Suc_eq)
qed

lemma FindGreaterOrEqual_spec:
  assumes ok: "sl_ok Compare valid sl ch" and k: "valid k"
  shows "FindGreaterOrEqual Compare sl k =
    Some (pointer_to (dropWhile (before Compare sl k) (ch 0)),
      \<lambda>j. if j < sl_max_height sl then Some (last (0 # takeWhile (before Compare sl k) (ch j))) else None)"
proof -
  have "sl_max_height sl - 1 < kMaxHeight" using sl_okD(1,2) [OF ok] by linarith
  then show ?thesis using FindGreaterOrEqual_loop_spec [OF ok k, of "sl_max_height sl - 1" "[]" 0 "ch (sl_max_height sl - 1)"] sl_okD(1) [OF ok]
    by (auto simp: FindGreaterOrEqual_def fun_eq_iff)
qed

end

context key_comparator
begin

lemma FindLessThan_level:
  assumes ok: "sl_ok Compare valid sl ch" and i: "i < kMaxHeight"
    and "0 # ch i = p @ x # q" "\<forall>a \<in> set (tl (p @ [x])). before Compare sl k a"
  defines "y \<equiv> last (0 # takeWhile (before Compare sl k) (ch i))"
  shows "FindLessThan_loop Compare sl k x i = (if i = 0 then Some y else FindLessThan_loop Compare sl k y (i - 1))"
  using assms(3,4)
proof (induction q arbitrary: p x)
  case (Cons z q)
  have x: "x < length (sl_nodes sl)" "x = 0 \<or> Compare (key_of sl x) k < 0"
    using Cons.prems sl_okD(10) [OF ok i, of x] sl_okD(3) [OF ok] by (cases p; auto simp: before_def)+
  note step = search_step [OF ok i Cons.prems(1)] Node_key_of [OF x(1)]
  show ?case
  proof (cases "before Compare sl k z")
    case True
    have "FindLessThan_loop Compare sl k x i = FindLessThan_loop Compare sl k z i"
      using True x(2) step by (subst FindLessThan_loop.simps) auto
    then show ?thesis using Cons.IH [of "p @ [x]" z] Cons.prems True by (cases p) auto
  next
    case False
    then have "y = x" unfolding y_def using split_at(3) [OF Cons.prems] by auto
    then show ?thesis using x(2) False step by (subst FindLessThan_loop.simps) auto
  qed
next
  case Nil
  have x: "x < length (sl_nodes sl)" "x = 0 \<or> Compare (key_of sl x) k < 0"
    using Nil.prems sl_okD(10) [OF ok i, of x] sl_okD(3) [OF ok] by (cases p; auto simp: before_def)+
  have "y = x" unfolding y_def using split_at(3) [OF Nil.prems] by blast
  then show ?case using search_step [OF ok i Nil.prems(1)] Node_key_of [OF x(1)] x(2)
    by (subst FindLessThan_loop.simps) auto
qed

lemma FindLessThan_loop_spec:
  assumes ok: "sl_ok Compare valid sl ch" and k: "valid k" and "i < kMaxHeight"
    and "0 # ch i = p @ x # q" "\<forall>a \<in> set (tl (p @ [x])). before Compare sl k a"
  shows "FindLessThan_loop Compare sl k x i = Some (last (0 # takeWhile (before Compare sl k) (ch 0)))"
  using assms(3-)
proof (induction i arbitrary: p x q)
  case 0
  then show ?case using FindLessThan_level [OF ok, of 0 p x q k] by simp
next
  case (Suc i)
  let ?y = "last (0 # takeWhile (before Compare sl k) (ch (Suc i)))"
  obtain p' q' where "0 # ch (Suc i) = p' @ ?y # q'" "\<forall>a \<in> set (tl (p' @ [?y])). before Compare sl k a"
    using search_end [OF ok Suc.prems(1)] by blast
  then obtain p'' q'' where "0 # ch i = p'' @ ?y # q''" "\<forall>a \<in> set (tl (p'' @ [?y])). before Compare sl k a"
    using lower_level [OF ok k Suc.prems(1)] by blast
  then show ?case using FindLessThan_level [OF ok Suc.prems] Suc.IH Suc.prems(1) by auto
qed

lemma FindLessThan_spec:
  assumes ok: "sl_ok Compare valid sl ch" and k: "valid k"
  shows "FindLessThan Compare sl k = Some (last (0 # takeWhile (before Compare sl k) (ch 0)))"
proof -
  have "sl_max_height sl - 1 < kMaxHeight" using sl_okD(1,2) [OF ok] by linarith
  then show ?thesis using FindLessThan_loop_spec [OF ok k, of "sl_max_height sl - 1" "[]" 0] by (simp add: FindLessThan_def)
qed

end

lemma FindLast_level:
  assumes ok: "sl_ok compare valid sl ch" and i: "i < kMaxHeight" and "0 # ch i = p @ x # q"
  defines "y \<equiv> last (0 # ch i)"
  shows "FindLast_loop sl x i = (if i = 0 then Some y else FindLast_loop sl y (i - 1))"
  using assms(3)
proof (induction q arbitrary: p x)
  case Nil
  have "y = x" unfolding y_def Nil by simp
  then show ?case using chain_pointer [of sl i p x "[]"] sl_okD(5) [OF ok i] unfolding Nil
    by (subst FindLast_loop.simps) (auto simp: pointer_to_def)
next
  case (Cons z q)
  have "FindLast_loop sl x i = FindLast_loop sl z i"
    using chain_pointer [of sl i p x "z # q"] sl_okD(5) [OF ok i] Cons.prems
    by (subst FindLast_loop.simps) (auto simp: pointer_to_def)
  then show ?case using Cons.IH [of "p @ [x]" z] Cons.prems by simp
qed

lemma FindLast_loop_spec:
  assumes ok: "sl_ok compare valid sl ch" and "i < kMaxHeight" "x \<in> set (0 # ch i)"
  shows "FindLast_loop sl x i = Some (last (0 # ch 0))"
  using assms(2-)
proof (induction i arbitrary: x)
  case 0
  then obtain p q where "0 # ch 0 = p @ x # q" by (meson split_list)
  then show ?case using FindLast_level [OF ok 0(1)] by simp
next
  case (Suc i)
  then obtain p q where "0 # ch (Suc i) = p @ x # q" by (meson split_list)
  moreover have "last (0 # ch (Suc i)) \<in> set (0 # ch (Suc i))" by (rule last_in_set) simp
  then have "last (0 # ch (Suc i)) \<in> set (0 # ch i)" using sl_okD(6) [OF ok Suc.prems(1)] by auto
  ultimately show ?case using FindLast_level [OF ok Suc.prems(1)] Suc.IH Suc.prems(1) by simp
qed

lemma FindLast_spec:
  assumes ok: "sl_ok compare valid sl ch"
  shows "FindLast sl = Some (last (0 # ch 0))"
proof -
  have "sl_max_height sl - 1 < kMaxHeight" using sl_okD(1,2) [OF ok] by linarith
  then show ?thesis using FindLast_loop_spec [OF ok] by (simp add: FindLast_def)
qed

subsection \<open>Inserting\<close>

lemma RandomHeight_loop_bounds: "1 \<le> h \<Longrightarrow> h \<le> kMaxHeight \<Longrightarrow> 1 \<le> fst (RandomHeight_loop h r) \<and> fst (RandomHeight_loop h r) \<le> kMaxHeight"
proof (induction h r rule: RandomHeight_loop.induct)
  case (1 h r)
  show ?case using 1 by (subst (1 2) RandomHeight_loop.simps) (auto split: prod.splits)
qed

lemma RandomHeight_bounds: "0 < fst (RandomHeight r)" "fst (RandomHeight r) \<le> kMaxHeight"
  using RandomHeight_loop_bounds [of 1 r] by (auto simp: RandomHeight_def kMaxHeight_def)

definition same_shape :: "SkipList \<Rightarrow> SkipList \<Rightarrow> bool" where
  "same_shape sl sl' \<longleftrightarrow> length (sl_nodes sl') = length (sl_nodes sl) \<and> sl_max_height sl' = sl_max_height sl
     \<and> (\<forall>z. key_of sl' z = key_of sl z \<and> length (nd_next (sl_nodes sl' ! z)) = length (nd_next (sl_nodes sl ! z)))"

lemma SetNext_spec:
  assumes "Node_Next sl x n \<noteq> None"
  shows "\<exists>sl'. Node_SetNext sl x n y = Some sl' \<and> same_shape sl sl'
    \<and> (\<forall>z l. Node_Next sl' z l = (if z = x \<and> l = n then Some y else Node_Next sl z l))"
proof -
  have x: "x < length (sl_nodes sl)" "n < length (nd_next (sl_nodes sl ! x))"
    using assms by (auto simp: Node_Next_def split: if_splits)
  let ?nd = "(sl_nodes sl ! x)\<lparr>nd_next := (nd_next (sl_nodes sl ! x))[n := y]\<rparr>"
  let ?sl = "sl\<lparr>sl_nodes := (sl_nodes sl)[x := ?nd]\<rparr>"
  have nth: "sl_nodes ?sl ! z = (if z = x then ?nd else sl_nodes sl ! z)" for z using x by (simp add: nth_list_update)
  have "same_shape sl ?sl" unfolding same_shape_def key_of_def nth by simp
  moreover have "Node_Next ?sl z l = (if z = x \<and> l = n then Some y else Node_Next sl z l)" for z l
    unfolding Node_Next_def nth using x by (auto simp: nth_list_update)
  ultimately show ?thesis using x by (auto simp: Node_SetNext_def)
qed

lemma same_shape_trans: "same_shape a b \<Longrightarrow> same_shape b c \<Longrightarrow> same_shape a c"
  by (simp add: same_shape_def)

definition splice :: "(bytes \<Rightarrow> bytes \<Rightarrow> int) \<Rightarrow> SkipList \<Rightarrow> nat \<Rightarrow> nat list \<Rightarrow> nat list" where
  "splice compare sl x c =
     takeWhile (before compare sl (key_of sl x)) c @ x # dropWhile (before compare sl (key_of sl x)) c"

text \<open>The chains when the lowest \<open>j\<close> levels of node \<open>x\<close> are linked.\<close>

definition linked :: "(bytes \<Rightarrow> bytes \<Rightarrow> int) \<Rightarrow> SkipList \<Rightarrow> nat \<Rightarrow> (nat \<Rightarrow> nat list) \<Rightarrow> nat \<Rightarrow> nat \<Rightarrow> nat list" where
  "linked compare sl x ch j i = (if i < j then splice compare sl x (ch i) else ch i)"

definition insertable :: "(bytes \<Rightarrow> bytes \<Rightarrow> int) \<Rightarrow> (bytes \<Rightarrow> bool) \<Rightarrow> SkipList \<Rightarrow> (nat \<Rightarrow> nat list) \<Rightarrow> nat \<Rightarrow> bool" where
  "insertable compare valid sl ch x \<longleftrightarrow> sl_ok compare valid sl ch \<and> 0 < x \<and> x < length (sl_nodes sl) \<and> x \<notin> set (ch 0)
     \<and> valid (key_of sl x) \<and> (\<forall>a \<in> set (ch 0). compare (key_of sl a) (key_of sl x) \<noteq> 0)"

lemma set_splice: "set (splice compare sl x c) = insert x (set c)"
proof -
  have "set c = set (takeWhile P c) \<union> set (dropWhile P c)" for P
    by (metis set_append takeWhile_dropWhile_id)
  then show ?thesis by (auto simp: splice_def)
qed

lemma same_shape_key: "same_shape sl sl' \<Longrightarrow> key_of sl' = key_of sl"
  by (auto simp: same_shape_def)

lemma splice_same_shape: "same_shape sl sl' \<Longrightarrow> splice compare sl' = splice compare sl"
  unfolding splice_def before_def by (simp add: same_shape_key)

lemma sorted_wrt_distinct: "sorted_wrt R xs \<Longrightarrow> (\<And>a. a \<in> set xs \<Longrightarrow> \<not> R a a) \<Longrightarrow> distinct xs"
  by (induction xs) auto

context key_comparator
begin

lemma splice_sorted:
  assumes ins: "insertable Compare valid sl ch x" and i: "i < kMaxHeight"
  shows "sorted_wrt (\<lambda>a b. Compare (key_of sl a) (key_of sl b) < 0) (splice Compare sl x (ch i))"
proof -
  let ?B = "before Compare sl (key_of sl x)" and ?k = "key_of sl x"
  have ok: "sl_ok Compare valid sl ch" and k: "valid ?k" using ins by (auto simp: insertable_def)
  note srt = sl_okD(8) [OF ok i]
  have v: "valid (key_of sl a)" "Compare (key_of sl a) ?k \<noteq> 0" if "a \<in> set (ch i)" for a
    using that ins sl_okD(9,10) [OF ok i] by (auto simp: insertable_def)
  have t: "Compare (key_of sl a) ?k < 0" if "a \<in> set (takeWhile ?B (ch i))" for a
    using set_takeWhileD [OF that] by (simp add: before_def)
  have d: "Compare ?k (key_of sl a) < 0" if a: "a \<in> set (dropWhile ?B (ch i))" for a
  proof (rule ccontr)
    assume "\<not> Compare ?k (key_of sl a) < 0"
    have am: "a \<in> set (ch i)" using a by (metis set_dropWhileD)
    then have Ba: "?B a" using \<open>\<not> Compare ?k (key_of sl a) < 0\<close> v [of a] k Compare_ge_flip [of ?k "key_of sl a"] by (auto simp: before_def)
    obtain p q where pq: "dropWhile ?B (ch i) = p @ a # q" using a by (meson split_list)
    have c: "ch i = takeWhile ?B (ch i) @ p @ a # q" by (metis pq takeWhile_dropWhile_id)
    have all: "\<forall>b \<in> set (tl ((0 # takeWhile ?B (ch i) @ p) @ [a])). ?B b"
      using before_closed [OF ok k i, of "0 # takeWhile ?B (ch i) @ p" a q] c Ba by simp
    have "?B (hd (p @ [a]))" using all by (cases p) auto
    moreover have "\<not> ?B (hd (dropWhile ?B (ch i)))" by (rule hd_dropWhile) (simp add: pq)
    ultimately show False unfolding pq by (cases p) auto
  qed
  have "sorted_wrt (\<lambda>a b. Compare (key_of sl a) (key_of sl b) < 0) (takeWhile ?B (ch i) @ dropWhile ?B (ch i))" using srt by simp
  then show ?thesis unfolding splice_def sorted_wrt_append sorted_wrt.simps using t d by auto
qed

lemma linked_ok:
  assumes ins: "insertable Compare valid sl ch x" and same: "same_shape sl sl'" and j: "j \<le> sl_max_height sl"
    and chains: "\<And>i. i < kMaxHeight \<Longrightarrow> chain sl' i (0 # linked Compare sl x ch j i)"
  shows "sl_ok Compare valid sl' (linked Compare sl x ch j)"
proof -
  have ok: "sl_ok Compare valid sl ch" using ins by (simp add: insertable_def)
  have "sl_nodes sl \<noteq> []" "length (nd_next (sl_nodes sl' ! 0)) = kMaxHeight"
    using same sl_okD(3,4) [OF ok] by (auto simp: same_shape_def)
  moreover have "set (linked Compare sl x ch j (Suc i)) \<subseteq> set (linked Compare sl x ch j i)" if "Suc i < kMaxHeight" for i
    using sl_okD(6) [OF ok that] by (auto simp: linked_def set_splice)
  moreover have "sorted_wrt (\<lambda>a b. Compare (key_of sl a) (key_of sl b) < 0) (linked Compare sl x ch j i)" if "i < kMaxHeight" for i
    using splice_sorted [OF ins that] sl_okD(8) [OF ok that] by (simp add: linked_def)
  moreover have "linked Compare sl x ch j i = []" if "i < kMaxHeight" "sl_max_height sl \<le> i" for i
    using sl_okD(7) [OF ok that] that(2) j by (simp add: linked_def)
  moreover have "0 < a \<and> a < length (sl_nodes sl) \<and> valid (key_of sl a)" if "a \<in> set (linked Compare sl x ch j 0)" for a
  proof -
    have "a = x \<or> a \<in> set (ch 0)" using that by (auto simp: linked_def set_splice split: if_splits)
    then show ?thesis using ins sl_okD(10) [OF ok, of 0 a] by (auto simp: insertable_def kMaxHeight_def)
  qed
  ultimately show ?thesis using chains sl_okD(1,2) [OF ok] same same_shape_key [OF same]
    by (simp add: sl_ok_def same_shape_def)
qed

lemma chain_distinct:
  assumes ok: "sl_ok Compare valid sl ch" and i: "i < kMaxHeight"
  shows "distinct (0 # ch i)"
proof -
  have "distinct (ch i)"
    by (rule sorted_wrt_distinct [OF sl_okD(8) [OF ok i]]) (use sl_okD(10) [OF ok i] Compare_refl in auto)
  then show ?thesis using sl_okD(10) [OF ok i] by auto
qed

lemma link_level:
  assumes ins: "insertable Compare valid sl0 ch x" and j: "j < sl_max_height sl0" "j < length (nd_next (sl_nodes sl0 ! x))"
    and prev: "prev j = Some (last (0 # takeWhile (before Compare sl0 (key_of sl0 x)) (ch j)))"
    and same: "same_shape sl0 sl" and ok: "sl_ok Compare valid sl (linked Compare sl0 x ch j)"
  shows "\<exists>sl1 sl2. link_self prev x j sl = Some sl1 \<and> same_shape sl0 sl1 \<and> sl_ok Compare valid sl1 (linked Compare sl0 x ch j)
    \<and> link_publish prev x j sl1 = Some sl2 \<and> same_shape sl0 sl2 \<and> sl_ok Compare valid sl2 (linked Compare sl0 x ch (Suc j))"
proof -
  have ok0: "sl_ok Compare valid sl0 ch" and x: "0 < x" "x < length (sl_nodes sl0)" "x \<notin> set (ch 0)" using ins by (auto simp: insertable_def)
  have jm: "j < kMaxHeight" using j(1) sl_okD(2) [OF ok0] by simp
  let ?B = "before Compare sl0 (key_of sl0 x)" and ?ch = "linked Compare sl0 x ch j"
  let ?t = "takeWhile ?B (ch j)" and ?d = "dropWhile ?B (ch j)"
  define p where "p = last (0 # ?t)"
  define b where "b = butlast (0 # ?t)"
  have bp: "b @ [p] = 0 # ?t" unfolding b_def p_def by (rule append_butlast_last_id) simp
  have cj: "0 # ch j = b @ p # ?d" using bp by (metis append_Cons append_Nil append_assoc takeWhile_dropWhile_id)
  have chj: "?ch j = ch j" by (simp add: linked_def)
  have xj: "x \<notin> set (0 # ch j)" using x sl_okD(9) [OF ok0 jm] by auto
  have pn: "Node_Next sl p j = Some (pointer_to ?d)" using search_step(1) [OF ok jm, of b p ?d] cj chj by simp
  have xn: "Node_Next sl x j \<noteq> None" using same x(2) j(2) by (simp add: Node_Next_def same_shape_def)
  obtain sl1 where s1: "Node_SetNext sl x j (pointer_to ?d) = Some sl1" "same_shape sl sl1"
      "\<And>z l. Node_Next sl1 z l = (if z = x \<and> l = j then Some (pointer_to ?d) else Node_Next sl z l)"
    using SetNext_spec [OF xn] by blast
  have p1: "Node_Next sl1 p j \<noteq> None" using pn s1(3) by simp
  obtain sl2 where s2: "Node_SetNext sl1 p j (Some x) = Some sl2" "same_shape sl1 sl2"
      "\<And>z l. Node_Next sl2 z l = (if z = p \<and> l = j then Some (Some x) else Node_Next sl1 z l)"
    using SetNext_spec [OF p1] by blast
  have same1: "same_shape sl0 sl1" and same2: "same_shape sl0 sl2" using same s1(2) s2(2) same_shape_trans by blast+
  have ch1: "chain sl1 i (0 # ?ch i)" if i: "i < kMaxHeight" for i
  proof -
    have "\<forall>z \<in> set (0 # ?ch i). Node_Next sl1 z i = Node_Next sl z i" using s1(3) xj chj by (cases "i = j") auto
    then show ?thesis using chain_frame sl_okD(5) [OF ok i] by blast
  qed
  have ch2: "chain sl2 i (0 # linked Compare sl0 x ch (Suc j) i)" if i: "i < kMaxHeight" for i
  proof (cases "i = j")
    case True
    have dist: "distinct (b @ p # ?d)" using chain_distinct [OF ok0 jm] cj by simp
    have "chain sl2 j (b @ p # x # ?d)"
    proof (rule chain_insert)
      show "chain sl1 j (b @ p # ?d)" using ch1 [OF jm] chj cj by simp
      show "\<forall>z \<in> set (b @ ?d). Node_Next sl2 z j = Node_Next sl1 z j" using s2(3) dist by auto
      show "Node_Next sl2 p j = Some (Some x)" using s2(3) by simp
      have "p \<noteq> x" using xj cj by auto
      then show "Node_Next sl2 x j = Node_Next sl1 p j" using s2(3) s1(3) pn by simp
    qed
    moreover have "b @ p # x # ?d = 0 # linked Compare sl0 x ch (Suc j) j"
      using bp by (simp add: linked_def splice_def)
    ultimately show ?thesis using True by simp
  next
    case False
    then have "linked Compare sl0 x ch (Suc j) i = ?ch i" by (simp add: linked_def)
    moreover have "\<forall>z \<in> set (0 # ?ch i). Node_Next sl2 z i = Node_Next sl1 z i" using s2(3) False by auto
    ultimately show ?thesis using chain_frame ch1 [OF i] by metis
  qed
  have "link_self prev x j sl = Some sl1" "link_publish prev x j sl1 = Some sl2"
    using prev s1(1) s2(1) pn by (simp_all add: link_self_def link_publish_def p_def)
  then show ?thesis using linked_ok [OF ins same1 _ ch1] linked_ok [OF ins same2 _ ch2] same1 same2 j(1) by auto
qed

lemma link_levels_append: "link_levels prev x (is @ js) sl = do { sl \<leftarrow> link_levels prev x is sl; link_levels prev x js sl }"
  by (induction "is" arbitrary: sl) (auto split: bind_splits)

lemma link_levels_ok:
  assumes ins: "insertable Compare valid sl0 ch x" and h: "h \<le> sl_max_height sl0" "h \<le> length (nd_next (sl_nodes sl0 ! x))"
    and prev: "\<And>i. i < h \<Longrightarrow> prev i = Some (last (0 # takeWhile (before Compare sl0 (key_of sl0 x)) (ch i)))"
    and j: "j \<le> h"
  shows "\<exists>sl. link_levels prev x [0..<j] sl0 = Some sl \<and> same_shape sl0 sl \<and> sl_ok Compare valid sl (linked Compare sl0 x ch j)"
  using j
proof (induction j)
  case 0
  have "linked Compare sl0 x ch 0 = ch" by (simp add: linked_def fun_eq_iff)
  then show ?case using ins by (simp add: insertable_def same_shape_def)
next
  case (Suc j)
  then obtain sl where "link_levels prev x [0..<j] sl0 = Some sl" "same_shape sl0 sl" "sl_ok Compare valid sl (linked Compare sl0 x ch j)" by auto
  then show ?case using link_level [OF ins, of j prev sl] prev [of j] Suc.prems h
    by (auto simp: link_levels_append)
qed

end

definition ins_key :: "(bytes \<Rightarrow> bytes \<Rightarrow> int) \<Rightarrow> bytes \<Rightarrow> bytes list \<Rightarrow> bytes list" where
  "ins_key compare k ks = takeWhile (\<lambda>k'. compare k' k < 0) ks @ k # dropWhile (\<lambda>k'. compare k' k < 0) ks"

definition sl_repr :: "(bytes \<Rightarrow> bytes \<Rightarrow> int) \<Rightarrow> (bytes \<Rightarrow> bool) \<Rightarrow> SkipList \<Rightarrow> bytes list \<Rightarrow> bool" where
  "sl_repr compare valid sl ks \<longleftrightarrow> (\<exists>ch. sl_ok compare valid sl ch \<and> ks = sl_keys sl ch)"

lemma map_splice: "map (key_of sl) (splice compare sl x c) = ins_key compare (key_of sl x) (map (key_of sl) c)"
  by (simp add: splice_def ins_key_def takeWhile_map dropWhile_map before_def [abs_def] o_def)

context key_comparator
begin

lemma NewNode_insertable:
  fixes sl :: SkipList and junk :: "nat \<Rightarrow> nat option" and r :: u32
  assumes ok: "sl_ok Compare valid sl ch" and k: "valid k" and new: "\<forall>a \<in> set (ch 0). Compare (key_of sl a) k \<noteq> 0"
    and h: "0 < h" "h \<le> kMaxHeight"
  defines "sl0 \<equiv> snd (NewNode junk k h (sl\<lparr>sl_rnd := r, sl_max_height := (if sl_max_height sl < h then h else sl_max_height sl)\<rparr>))"
  defines "x \<equiv> length (sl_nodes sl)"
  shows "insertable Compare valid sl0 ch x" "key_of sl0 x = k" "length (nd_next (sl_nodes sl0 ! x)) = h" "h \<le> sl_max_height sl0"
    "a < x \<Longrightarrow> key_of sl0 a = key_of sl a"
proof -
  show kx: "key_of sl0 x = k" "length (nd_next (sl_nodes sl0 ! x)) = h" "h \<le> sl_max_height sl0"
    by (simp_all add: sl0_def NewNode_def key_of_def x_def)
  show ka: "key_of sl0 a = key_of sl a" if "a < x" for a
    using that by (simp add: sl0_def NewNode_def key_of_def x_def nth_append)
  have nx: "Node_Next sl0 a i = Node_Next sl a i" if "a < x" for a i
    using that by (simp add: sl0_def NewNode_def Node_Next_def x_def nth_append)
  have lt: "a < x" if "a \<in> set (ch i)" "i < kMaxHeight" for a i using sl_okD(10) [OF ok that(2,1)] by (simp add: x_def)
  have "chain sl0 i (0 # ch i)" if i: "i < kMaxHeight" for i
    using chain_frame [of "0 # ch i" sl0 i sl] nx lt [OF _ i] sl_okD(3,5) [OF ok] i by (auto simp: x_def)
  moreover have "sorted_wrt (\<lambda>a b. Compare (key_of sl0 a) (key_of sl0 b) < 0) (ch i)" if i: "i < kMaxHeight" for i
    by (rule sorted_wrt_mono_rel [OF _ sl_okD(8) [OF ok i]]) (use ka lt [OF _ i] in auto)
  moreover have "0 < a \<and> a < length (sl_nodes sl0) \<and> valid (key_of sl0 a)" if "a \<in> set (ch 0)" for a
    using sl_okD(10) [OF ok, of 0 a] that ka lt [OF that] by (simp add: kMaxHeight_def sl0_def NewNode_def)
  moreover have "sl_nodes sl0 ! 0 = sl_nodes sl ! 0" "sl_max_height sl0 = (if sl_max_height sl < h then h else sl_max_height sl)"
    "sl_nodes sl0 \<noteq> []" using sl_okD(3) [OF ok] by (simp_all add: sl0_def NewNode_def nth_append)
  ultimately have "sl_ok Compare valid sl0 ch"
    using sl_okD(1,2,4,6,7) [OF ok] h by (simp add: sl_ok_def)
  moreover have m: "0 < kMaxHeight" by (simp add: kMaxHeight_def)
  have "x \<notin> set (ch 0)" "0 < x" "x < length (sl_nodes sl0)"
    using lt [OF _ m, of x] sl_okD(3) [OF ok] by (auto simp: x_def sl0_def NewNode_def)
  ultimately show "insertable Compare valid sl0 ch x"
    using k kx(1) ka lt [OF _ m] new by (simp add: insertable_def)
qed

text \<open>\<open>Insert\<close> with all its intermediate states: \<open>j\<close> levels linked, and one more link of the new node set.\<close>

lemma Insert_states:
  assumes rep: "sl_repr Compare valid sl ks" and k: "valid k" and new: "\<forall>k' \<in> set ks. Compare k' k \<noteq> 0"
  shows "\<exists>prev h x sl0 sl'. Insert Compare junk k sl = link_levels prev x [0..<h] sl0 \<and> 0 < h
    \<and> Insert Compare junk k sl = Some sl' \<and> sl_repr Compare valid sl' (ins_key Compare k ks)
    \<and> (\<forall>j < h. \<exists>slj. link_levels prev x [0..<j] sl0 = Some slj
        \<and> sl_repr Compare valid slj (if j = 0 then ks else ins_key Compare k ks)
        \<and> (\<exists>sl1. link_self prev x j slj = Some sl1 \<and> sl_repr Compare valid sl1 (if j = 0 then ks else ins_key Compare k ks)))"
proof -
  obtain ch where ok: "sl_ok Compare valid sl ch" and ks: "ks = sl_keys sl ch" using rep by (auto simp: sl_repr_def)
  have new': "\<forall>a \<in> set (ch 0). Compare (key_of sl a) k \<noteq> 0" using new by (simp add: ks sl_keys_def)
  obtain h r where hr: "RandomHeight (sl_rnd sl) = (h, r)" by fastforce
  have h: "0 < h" "h \<le> kMaxHeight" using RandomHeight_bounds [of "sl_rnd sl"] by (simp_all add: hr)
  let ?sl1 = "sl\<lparr>sl_rnd := r, sl_max_height := (if sl_max_height sl < h then h else sl_max_height sl)\<rparr>"
  define x where "x = length (sl_nodes sl)"
  define sl0 where "sl0 = snd (NewNode junk k h ?sl1)"
  note N = NewNode_insertable [OF ok k new' h, where junk = junk and r = r, folded sl0_def, folded x_def]
  let ?B = "before Compare sl k"
  have B0: "takeWhile (before Compare sl0 (key_of sl0 x)) (ch i) = takeWhile ?B (ch i)" if "i < kMaxHeight" for i
    by (rule takeWhile_cong) (use N(2,5) sl_okD(10) [OF ok that] in \<open>auto simp: before_def x_def\<close>)
  define prev where "prev = (\<lambda>i. if sl_max_height sl \<le> i \<and> i < h then Some 0
      else if i < sl_max_height sl then Some (last (0 # takeWhile ?B (ch i))) else None)"
  have prev: "prev i = Some (last (0 # takeWhile (before Compare sl0 (key_of sl0 x)) (ch i)))" if "i < h" for i
    using that h(2) B0 [of i] sl_okD(7) [OF ok, of i] by (auto simp: prev_def)
  have ins: "Insert Compare junk k sl = link_levels prev x [0..<h] sl0"
  proof -
    have "\<forall>a \<in> set (dropWhile ?B (ch 0)). Node_key sl a = Some (key_of sl a) \<and> Compare k (key_of sl a) \<noteq> 0"
      using sl_okD(10) [OF ok, of 0] new' Compare_eq_sym [OF k] set_dropWhileD [of _ ?B "ch 0"]
      by (metis Node_key_of kMaxHeight_def zero_less_numeral)
    then have "(case pointer_to (dropWhile ?B (ch 0)) of None \<Rightarrow> Some False
        | Some a \<Rightarrow> do { k' \<leftarrow> Node_key sl a; Some (Compare k k' = 0) }) = Some False"
      by (cases "dropWhile ?B (ch 0)") (auto simp: pointer_to_def simp del: dropWhile_eq_Nil_conv)
    then show ?thesis
      by (simp add: Insert_def FindGreaterOrEqual_spec [OF ok k] Insert_node_def hr Let_def sl0_def prev_def NewNode_def x_def)
  qed
  have keys: "sl_repr Compare valid sl' (if j = 0 then ks else ins_key Compare k ks)"
    if "same_shape sl0 sl'" "sl_ok Compare valid sl' (linked Compare sl0 x ch j)" for sl' j
  proof -
    have "map (key_of sl0) (ch 0) = ks"
      using N(5) sl_okD(10) [OF ok, of 0] by (simp add: ks sl_keys_def x_def kMaxHeight_def)
    then have "map (key_of sl') (linked Compare sl0 x ch j 0) = (if j = 0 then ks else ins_key Compare k ks)"
      using same_shape_key [OF that(1)] N(2) by (simp add: linked_def map_splice)
    then show ?thesis using that(2) by (auto simp: sl_repr_def sl_keys_def)
  qed
  have L: "\<exists>slj. link_levels prev x [0..<j] sl0 = Some slj \<and> same_shape sl0 slj \<and> sl_ok Compare valid slj (linked Compare sl0 x ch j)" if "j \<le> h" for j
    using link_levels_ok [OF N(1,4) _ prev that] N(3) by simp
  have M: "\<exists>slj. link_levels prev x [0..<j] sl0 = Some slj
        \<and> sl_repr Compare valid slj (if j = 0 then ks else ins_key Compare k ks)
        \<and> (\<exists>sl1. link_self prev x j slj = Some sl1 \<and> sl_repr Compare valid sl1 (if j = 0 then ks else ins_key Compare k ks))" if j: "j < h" for j
  proof -
    obtain slj where s: "link_levels prev x [0..<j] sl0 = Some slj" "same_shape sl0 slj" "sl_ok Compare valid slj (linked Compare sl0 x ch j)"
      using L [of j] j by auto
    obtain sl1 where s1: "link_self prev x j slj = Some sl1" "same_shape sl0 sl1" "sl_ok Compare valid sl1 (linked Compare sl0 x ch j)"
      using link_level [OF N(1), of j prev slj] prev [OF j] N(3,4) j s(2,3) by auto
    show ?thesis using s(1) s1(1) keys [OF s(2,3)] keys [OF s1(2,3)] by blast
  qed
  obtain sl' where "link_levels prev x [0..<h] sl0 = Some sl'" "same_shape sl0 sl'" "sl_ok Compare valid sl' (linked Compare sl0 x ch h)"
    using L [of h] by auto
  then have s': "Insert Compare junk k sl = Some sl'" "sl_repr Compare valid sl' (ins_key Compare k ks)"
    using ins h(1) keys [of sl' h] by simp_all
  show ?thesis
    by (intro exI [of _ prev] exI [of _ h] exI [of _ x] exI [of _ sl0] exI [of _ sl'] conjI allI impI ins h(1) s' M)
qed


text \<open>Positions of an iterator: the nodes of the lowest chain, and a null pointer behind the last.\<close>

lemma Iter_Seek_spec:
  assumes "sl_ok Compare valid sl ch" and "valid k"
  shows "Iter_Seek Compare sl k = Some (pointer_to (dropWhile (before Compare sl k) (ch 0)))"
  by (simp add: Iter_Seek_def FindGreaterOrEqual_spec [OF assms])

lemma Contains_spec:
  assumes rep: "sl_repr Compare valid sl ks" and k: "valid k"
  shows "Contains Compare k sl = Some (\<exists>k' \<in> set ks. Compare k k' = 0)"
proof -
  obtain ch where ok: "sl_ok Compare valid sl ch" and ks: "ks = sl_keys sl ch" using rep by (auto simp: sl_repr_def)
  have m: "0 < kMaxHeight" by (simp add: kMaxHeight_def)
  let ?B = "before Compare sl k"
  have t: "Compare k (key_of sl a) \<noteq> 0" if a: "a \<in> set (takeWhile ?B (ch 0))" for a
    using set_takeWhileD [OF a] Compare_eq_sym [OF k, of "key_of sl a"] sl_okD(10) [OF ok m, of a] by (auto simp: before_def)
  have c: "set (ch 0) = set (takeWhile ?B (ch 0)) \<union> set (dropWhile ?B (ch 0))" by (metis set_append takeWhile_dropWhile_id)
  show ?thesis
  proof (cases "dropWhile ?B (ch 0)")
    case Nil
    then show ?thesis using t c
      by (simp add: Contains_def FindGreaterOrEqual_spec [OF ok k] pointer_to_def ks sl_keys_def del: dropWhile_eq_Nil_conv)
  next
    case (Cons a q)
    have am: "a \<in> set (ch 0)" using c Cons by simp
    have "Compare (key_of sl a) (key_of sl b) < 0" if "b \<in> set q" for b
    proof -
      have "sorted_wrt (\<lambda>a b. Compare (key_of sl a) (key_of sl b) < 0) (takeWhile ?B (ch 0) @ a # q)"
        using sl_okD(8) [OF ok m] Cons by (metis takeWhile_dropWhile_id)
      then show ?thesis using that by (simp add: sorted_wrt_append)
    qed
    moreover have "\<not> ?B a" using hd_dropWhile [of ?B "ch 0"] Cons by simp
    then have "Compare k (key_of sl a) \<le> 0"
      using Compare_ge_flip [OF _ k, of "key_of sl a"] sl_okD(10) [OF ok m am] by (simp add: before_def)
    ultimately have "Compare k (key_of sl b) \<noteq> 0" if b: "b \<in> set q" for b
      using Compare_le_less_trans [OF k, of "key_of sl a" "key_of sl b"] sl_okD(10) [OF ok m am] sl_okD(10) [OF ok m, of b] b c Cons by fastforce
    then show ?thesis using t c Cons sl_okD(10) [OF ok m am] 
      by (auto simp: Contains_def FindGreaterOrEqual_spec [OF ok k] pointer_to_def ks sl_keys_def Node_key_of)
  qed
qed

end

lemma SkipList_new_repr: "sl_repr compare valid (SkipList_new any) []"
proof -
  have "sl_ok compare valid (SkipList_new any) (\<lambda>_. [])"
    by (simp add: sl_ok_def SkipList_new_def Node_Next_def kMaxHeight_def)
  then show ?thesis by (auto simp: sl_repr_def sl_keys_def)
qed



text \<open>
  (C13) \<open>Contains\<close> and \<open>Seek\<close> search a skip list correctly and return: \<open>Contains\<close> tells whether the key is in
  the list, and \<open>Seek\<close> goes to the first key that is not smaller than the target, or to no node.
\<close>

theorem SkipList_search:
  assumes "sl_repr Bytewise_Compare (\<lambda>_. True) sl ks"
  shows "Contains Bytewise_Compare k sl = Some (k \<in> set ks)
    \<and> (\<exists>node. Iter_Seek Bytewise_Compare sl k = Some node
        \<and> (case dropWhile (\<lambda>k'. k' < k) ks of [] \<Rightarrow> node = None | k' # _ \<Rightarrow> Iter_key sl node = Some k'))"
proof -
  obtain ch where ok: "sl_ok Bytewise_Compare (\<lambda>_. True) sl ch" and ks: "ks = sl_keys sl ch" using assms by (auto simp: sl_repr_def)
  have B: "before Bytewise_Compare sl k = (\<lambda>k'. k' < k) \<circ> key_of sl" by (auto simp: before_def Bytewise_Compare_lex fun_eq_iff)
  let ?d = "dropWhile (before Bytewise_Compare sl k) (ch 0)"
  have d: "dropWhile (\<lambda>k'. k' < k) ks = map (key_of sl) ?d" by (simp add: ks sl_keys_def dropWhile_map B)
  have "\<forall>a \<in> set ?d. Node_key sl a = Some (key_of sl a)"
    using sl_okD(10) [OF ok, of 0] set_dropWhileD [of _ _ "ch 0"] by (metis Node_key_of kMaxHeight_def zero_less_numeral)
  then have "case dropWhile (\<lambda>k'. k' < k) ks of [] \<Rightarrow> pointer_to ?d = None | k' # _ \<Rightarrow> Iter_key sl (pointer_to ?d) = Some k'"
    unfolding d by (cases ?d) (auto simp: pointer_to_def Iter_key_def simp del: dropWhile_eq_Nil_conv)
  moreover have "Contains Bytewise_Compare k sl = Some (k \<in> set ks)"
    using bytewise.Contains_spec [OF assms TrueI, of k] by (auto simp: Bytewise_Compare_lex split: if_splits)
  ultimately show ?thesis using bytewise.Iter_Seek_spec [OF ok TrueI, of k] by blast
qed

theorem SkipList_search_witness:
  "\<exists>sl. Insert Bytewise_Compare (\<lambda>_. None) [5] (SkipList_new []) = Some sl
    \<and> Contains Bytewise_Compare [5] sl = Some ([5] \<in> set [[5 :: byte]]) \<and> Contains Bytewise_Compare [3] sl = Some ([3] \<in> set [[5 :: byte]])"
proof -
  obtain sl where "Insert Bytewise_Compare (\<lambda>_. None) [5] (SkipList_new []) = Some sl" "sl_repr Bytewise_Compare (\<lambda>_. True) sl [[5]]"
    using bytewise.Insert_states [OF SkipList_new_repr TrueI, of "[5]" "\<lambda>_. None" "[]"] by (auto simp: ins_key_def)
  then show ?thesis using SkipList_search [of sl "[[5]]"] by blast
qed

end
