(* ===== verification/DbFormat.thy ===== *)
theory DbFormat
  imports Coding Comparator
begin

section \<open>Internal keys (db/dbformat.h, db/dbformat.cc)\<close>

text \<open>
  An internal key is a user key followed by eight bytes that pack a 56-bit sequence number and a
  value type. Internal keys are ordered by increasing user key and, for equal user keys, by
  decreasing tag, so that the newest entry of a key comes first. The functions that take an
  internal key assert that it has at least eight bytes; \<open>valid_internal\<close> is that assertion.
\<close>

definition kNumLevels :: nat where "kNumLevels = 7"
definition kL0_CompactionTrigger :: nat where "kL0_CompactionTrigger = 4"
definition kL0_SlowdownWritesTrigger :: nat where "kL0_SlowdownWritesTrigger = 8"
definition kL0_StopWritesTrigger :: nat where "kL0_StopWritesTrigger = 12"
definition kMaxMemCompactLevel :: nat where "kMaxMemCompactLevel = 2"

datatype ValueType = kTypeDeletion | kTypeValue

fun ValueType_code :: "ValueType \<Rightarrow> byte" where
  "ValueType_code kTypeDeletion = 0"
| "ValueType_code kTypeValue = 1"

definition kValueTypeForSeek :: ValueType where "kValueTypeForSeek = kTypeValue"

definition kMaxSequenceNumber :: u64 where "kMaxSequenceNumber = push_bit 56 1 - 1"

record ParsedInternalKey =
  user_key :: bytes
  sequence :: u64
  type :: ValueType

definition PackSequenceAndType :: "u64 \<Rightarrow> ValueType \<Rightarrow> u64" where
  "PackSequenceAndType seq t = push_bit 8 seq OR ucast (ValueType_code t)"

definition InternalKeyEncodingLength :: "ParsedInternalKey \<Rightarrow> nat" where
  "InternalKeyEncodingLength key = length (user_key key) + 8"

definition AppendInternalKey :: "bytes \<Rightarrow> ParsedInternalKey \<Rightarrow> bytes" where
  "AppendInternalKey result key =
     PutFixed64 (result @ user_key key) (PackSequenceAndType (sequence key) (type key))"

definition ExtractUserKey :: "bytes \<Rightarrow> bytes" where
  "ExtractUserKey internal_key = take (length internal_key - 8) internal_key"

definition ParseInternalKey :: "bytes \<Rightarrow> ParsedInternalKey option" where
  "ParseInternalKey internal_key =
     (let n = length internal_key in
      if n < 8 then None
      else case DecodeFixed64 (drop (n - 8) internal_key) of None \<Rightarrow> None
        | Some num \<Rightarrow>
           (let c = num AND 0xff in
            if c \<le> 1
            then Some \<lparr>user_key = take (n - 8) internal_key, sequence = drop_bit 8 num,
                       type = (if c = 0 then kTypeDeletion else kTypeValue)\<rparr>
            else None))"

definition InternalKey_new :: "bytes \<Rightarrow> u64 \<Rightarrow> ValueType \<Rightarrow> bytes" where
  "InternalKey_new ukey s t = AppendInternalKey [] \<lparr>user_key = ukey, sequence = s, type = t\<rparr>"

definition internal_tag :: "bytes \<Rightarrow> u64" where
  "internal_tag key =
     (case DecodeFixed64 (drop (length key - 8) key) of Some num \<Rightarrow> num | None \<Rightarrow> 0)"

definition InternalKey_Compare :: "(bytes \<Rightarrow> bytes \<Rightarrow> int) \<Rightarrow> bytes \<Rightarrow> bytes \<Rightarrow> int" where
  "InternalKey_Compare user_compare akey bkey =
     (let r = user_compare (ExtractUserKey akey) (ExtractUserKey bkey) in
      if r = 0 then
        (let anum = internal_tag akey; bnum = internal_tag bkey in
         if bnum < anum then -1 else if anum < bnum then 1 else r)
      else r)"

definition InternalKey_FindShortestSeparator ::
    "(bytes \<Rightarrow> bytes \<Rightarrow> int) \<Rightarrow> (bytes \<Rightarrow> bytes \<Rightarrow> bytes) \<Rightarrow> bytes \<Rightarrow> bytes \<Rightarrow> bytes" where
  "InternalKey_FindShortestSeparator user_compare user_separator start limit =
     (let user_start = ExtractUserKey start;
          user_limit = ExtractUserKey limit;
          tmp = user_separator user_start user_limit
      in if length tmp < length user_start \<and> user_compare user_start tmp < 0
         then PutFixed64 tmp (PackSequenceAndType kMaxSequenceNumber kValueTypeForSeek)
         else start)"

definition InternalKey_FindShortSuccessor ::
    "(bytes \<Rightarrow> bytes \<Rightarrow> int) \<Rightarrow> (bytes \<Rightarrow> bytes) \<Rightarrow> bytes \<Rightarrow> bytes" where
  "InternalKey_FindShortSuccessor user_compare user_successor key =
     (let ukey = ExtractUserKey key;
          tmp = user_successor ukey
      in if length tmp < length ukey \<and> user_compare ukey tmp < 0
         then PutFixed64 tmp (PackSequenceAndType kMaxSequenceNumber kValueTypeForSeek)
         else key)"

text \<open>
  \<open>LookupKey\<close> lays out the varint length, the user key and the tag in one buffer; the three
  views are slices of it.
\<close>

record LookupKey =
  lk_space :: bytes
  lk_kstart :: nat

definition LookupKey_new :: "bytes \<Rightarrow> u64 \<Rightarrow> LookupKey" where
  "LookupKey_new ukey s =
     (let usize = length ukey;
          head = EncodeVarint32 (of_nat (usize + 8))
      in \<lparr>lk_space = head @ ukey @ EncodeFixed64 (PackSequenceAndType s kValueTypeForSeek),
          lk_kstart = length head\<rparr>)"

definition memtable_key :: "LookupKey \<Rightarrow> bytes" where
  "memtable_key k = lk_space k"

definition lookup_internal_key :: "LookupKey \<Rightarrow> bytes" where
  "lookup_internal_key k = drop (lk_kstart k) (lk_space k)"

definition lookup_user_key :: "LookupKey \<Rightarrow> bytes" where
  "lookup_user_key k =
     take (length (lk_space k) - lk_kstart k - 8) (drop (lk_kstart k) (lk_space k))"

text \<open>The filter policy over internal keys strips the tags before it calls the user policy.\<close>

definition InternalFilterPolicy_CreateFilter ::
    "(bytes list \<Rightarrow> bytes \<Rightarrow> bytes) \<Rightarrow> bytes list \<Rightarrow> bytes \<Rightarrow> bytes" where
  "InternalFilterPolicy_CreateFilter user_create keys dst = user_create (map ExtractUserKey keys) dst"

definition InternalFilterPolicy_KeyMayMatch :: "(bytes \<Rightarrow> bytes \<Rightarrow> bool) \<Rightarrow> bytes \<Rightarrow> bytes \<Rightarrow> bool" where
  "InternalFilterPolicy_KeyMayMatch user_match key f = user_match (ExtractUserKey key) f"

subsection \<open>Tags\<close>

definition valid_internal :: "bytes \<Rightarrow> bool" where
  "valid_internal k \<longleftrightarrow> 8 \<le> length k"

lemma length_8_conv: "length xs = 8 \<Longrightarrow> \<exists>a b c d e f g h. xs = [a, b, c, d, e, f, g, h]"
  by (auto simp: eval_nat_numeral length_Suc_conv)

lemma DecodeFixed64_defined: "8 \<le> length p \<Longrightarrow> \<exists>v. DecodeFixed64 p = Some v"
proof -
  assume "8 \<le> length p"
  then have "length (take 8 p) = 8" by simp
  then obtain a b c d e f g h where t: "take 8 p = [a, b, c, d, e, f, g, h]"
    using length_8_conv by blast
  have "p = [a, b, c, d, e, f, g, h] @ drop 8 p" by (metis t append_take_drop_id)
  then obtain rest where p: "p = [a, b, c, d, e, f, g, h] @ rest" ..
  show ?thesis by (simp add: p DecodeFixed64_def numeral_eq_Suc)
qed

lemma seq_bits: "seq \<le> kMaxSequenceNumber \<Longrightarrow> unat seq < 2 ^ 56"
  by (simp add: kMaxSequenceNumber_def word_le_nat_alt)

lemma Pack_low: "PackSequenceAndType seq t AND 0xff = ucast (ValueType_code t)"
  by (cases t; rule bit_word_eqI) (auto simp: PackSequenceAndType_def word_ff bit_simps)

lemma Pack_high: "drop_bit 8 (PackSequenceAndType seq t) = seq" if "seq \<le> kMaxSequenceNumber"
proof (rule bit_word_eqI)
  fix n assume "n < LENGTH(64)"
  show "bit (drop_bit 8 (PackSequenceAndType seq t)) n = bit seq n"
    using not_bit_if_less_exp [OF seq_bits [OF that], of n]
    by (cases t; cases "56 \<le> n") (auto simp: PackSequenceAndType_def bit_simps)
qed

lemma AppendInternalKey_eq:
  "AppendInternalKey r k = r @ user_key k @ EncodeFixed64 (PackSequenceAndType (sequence k) (type k))"
  by (simp add: AppendInternalKey_def PutFixed64_def)

lemma ExtractUserKey_append [simp]: "ExtractUserKey (ukey @ EncodeFixed64 tag) = ukey"
  by (simp add: ExtractUserKey_def size_simps)

lemma internal_tag_append [simp]: "internal_tag (ukey @ EncodeFixed64 tag) = tag"
  using DecodeFixed64_EncodeFixed64 [of tag "[]"] by (simp add: internal_tag_def size_simps)

lemma ExtractUserKey_InternalKey [simp]: "ExtractUserKey (InternalKey_new u s t) = u"
  by (simp add: InternalKey_new_def AppendInternalKey_eq)

lemma internal_tag_InternalKey [simp]: "internal_tag (InternalKey_new u s t) = PackSequenceAndType s t"
  by (simp add: InternalKey_new_def AppendInternalKey_eq)

lemma valid_InternalKey [simp]: "valid_internal (InternalKey_new u s t)"
  by (simp add: InternalKey_new_def AppendInternalKey_eq valid_internal_def size_simps)

text \<open>
  parsing an appended internal key gives back the user key, the sequence number (of 56 bits)
  and the value type; its encoding has the announced length.
\<close>

theorem ParseInternalKey_AppendInternalKey:
  assumes "sequence k \<le> kMaxSequenceNumber"
  shows "ParseInternalKey (AppendInternalKey [] k) = Some k
    \<and> length (AppendInternalKey r k) = length r + InternalKeyEncodingLength k"
proof -
  have "DecodeFixed64 (EncodeFixed64 tag) = Some tag" for tag
    using DecodeFixed64_EncodeFixed64 [of tag "[]"] by simp
  moreover have "type k = (if ucast (ValueType_code (type k)) = (0 :: u64) then kTypeDeletion else kTypeValue)"
    "ucast (ValueType_code (type k)) \<le> (1 :: u64)"
    by (cases "type k"; simp)+
  ultimately show ?thesis
    using assms
    by (simp add: ParseInternalKey_def AppendInternalKey_eq size_simps Let_def Pack_low Pack_high
        InternalKeyEncodingLength_def)
qed

theorem ParseInternalKey_AppendInternalKey_witness:
  "ParseInternalKey (AppendInternalKey [] \<lparr>user_key = [97, 98], sequence = 5, type = kTypeValue\<rparr>)
     = Some \<lparr>user_key = [97, 98], sequence = 5, type = kTypeValue\<rparr>"
  using ParseInternalKey_AppendInternalKey [of "\<lparr>user_key = [97, 98], sequence = 5, type = kTypeValue\<rparr>"]
  by (simp add: kMaxSequenceNumber_def)

subsection \<open>The internal order\<close>

text \<open>
  Over any user comparator the internal comparator is a comparator on internal keys. The facts
  about it are proved once for an arbitrary user comparator and hold for the bytewise one by
  interpretation.
\<close>

locale user_comparator = key_comparator user_compare "\<lambda>_. True"
  for user_compare :: "bytes \<Rightarrow> bytes \<Rightarrow> int"
begin

lemma internal_less_iff:
  "InternalKey_Compare user_compare a b < 0 \<longleftrightarrow>
     user_compare (ExtractUserKey a) (ExtractUserKey b) < 0
     \<or> user_compare (ExtractUserKey a) (ExtractUserKey b) = 0 \<and> internal_tag b < internal_tag a"
  by (auto simp: InternalKey_Compare_def Let_def)

lemma internal_greater_iff:
  "0 < InternalKey_Compare user_compare a b \<longleftrightarrow>
     0 < user_compare (ExtractUserKey a) (ExtractUserKey b)
     \<or> user_compare (ExtractUserKey a) (ExtractUserKey b) = 0 \<and> internal_tag a < internal_tag b"
  by (auto simp: InternalKey_Compare_def Let_def)

lemma internal_le_iff:
  "InternalKey_Compare user_compare a b \<le> 0 \<longleftrightarrow>
     user_compare (ExtractUserKey a) (ExtractUserKey b) < 0
     \<or> user_compare (ExtractUserKey a) (ExtractUserKey b) = 0 \<and> internal_tag b \<le> internal_tag a"
  using internal_greater_iff [of a b] by (auto simp: not_less [symmetric])

lemma internal_key_comparator: "key_comparator (InternalKey_Compare user_compare) valid_internal"
proof
  fix a show "InternalKey_Compare user_compare a a = 0"
    by (simp add: InternalKey_Compare_def Compare_refl)
next
  fix a b
  show "InternalKey_Compare user_compare a b < 0 \<longleftrightarrow> 0 < InternalKey_Compare user_compare b a"
    using Compare_flip Compare_eq_sym by (auto simp: internal_less_iff internal_greater_iff)
next
  fix a b c
  assume ab: "InternalKey_Compare user_compare a b \<le> 0" and bc: "InternalKey_Compare user_compare b c \<le> 0"
  let ?u = ExtractUserKey
  from ab bc have le: "user_compare (?u a) (?u b) \<le> 0" "user_compare (?u b) (?u c) \<le> 0"
    by (auto simp: internal_le_iff)
  show "InternalKey_Compare user_compare a c \<le> 0"
  proof (cases "user_compare (?u a) (?u b) < 0 \<or> user_compare (?u b) (?u c) < 0")
    case True
    then have "user_compare (?u a) (?u c) < 0"
      using le Compare_less_trans [of "?u a" "?u b" "?u c"] Compare_le_less_trans [of "?u a" "?u b" "?u c"]
      by auto
    then show ?thesis by (simp add: internal_le_iff)
  next
    case False
    then have "internal_tag b \<le> internal_tag a" "internal_tag c \<le> internal_tag b"
      using ab bc by (auto simp: internal_le_iff)
    moreover have "user_compare (?u a) (?u c) \<le> 0" using le Compare_trans [of "?u a" "?u b" "?u c"] by simp
    ultimately show ?thesis by (fastforce simp: internal_le_iff)
  qed
qed

end

sublocale user_comparator \<subseteq> ikey: key_comparator "InternalKey_Compare user_compare" valid_internal
  by (rule internal_key_comparator)

interpretation bytewise_user: user_comparator Bytewise_Compare
  by unfold_locales

lemma Pack_less_iff:
  assumes "s \<le> kMaxSequenceNumber" and "s' \<le> kMaxSequenceNumber"
  shows "PackSequenceAndType s t < PackSequenceAndType s' t' \<longleftrightarrow>
     s < s' \<or> s = s' \<and> ValueType_code t < ValueType_code t'"
proof -
  have unat_pack: "unat (PackSequenceAndType x y) = 256 * unat x + unat (ValueType_code y)"
    if "x \<le> kMaxSequenceNumber" for x y
  proof -
    have "push_bit 8 x AND ucast (ValueType_code y) = 0"
      by (cases y; rule bit_word_eqI) (auto simp: bit_simps)
    then have "PackSequenceAndType x y = push_bit 8 x + ucast (ValueType_code y)"
      by (simp add: PackSequenceAndType_def disjunctive_add_eq_or)
    moreover have "unat (push_bit 8 x) = 256 * unat x"
      using seq_bits [OF that] by (simp add: push_bit_eq_mult unat_word_ariths)
    moreover have "unat (ucast (ValueType_code y) :: u64) = unat (ValueType_code y)"
      by (cases y) simp_all
    moreover have "unat (ValueType_code y) \<le> 1" by (cases y) simp_all
    ultimately show ?thesis using seq_bits [OF that] by (simp add: unat_word_ariths)
  qed
  have b: "unat (ValueType_code t) \<le> 1" "unat (ValueType_code t') \<le> 1" by (cases t; cases t'; simp)+
  then show ?thesis
    by (auto simp: word_less_nat_alt unat_pack assms word_unat_eq_iff)
qed

text \<open>
  (C25) internal keys of the same user key are ordered newest first: the key with the larger sequence
  number is the smaller internal key, and a value sorts before a deletion of the same number.
\<close>

theorem InternalKey_Compare_newest_first:
  assumes "s \<le> kMaxSequenceNumber" and "s' \<le> kMaxSequenceNumber"
  shows "InternalKey_Compare Bytewise_Compare (InternalKey_new u s t) (InternalKey_new u s' t') < 0
    \<longleftrightarrow> s' < s \<or> s' = s \<and> t = kTypeValue \<and> t' = kTypeDeletion"
  using assms by (cases t; cases t') (simp_all add: bytewise_user.internal_less_iff bytewise.Compare_refl Pack_less_iff)

theorem InternalKey_Compare_newest_first_witness:
  "InternalKey_Compare Bytewise_Compare (InternalKey_new [97] 9 kTypeDeletion) (InternalKey_new [97] 4 kTypeValue) < 0"
  using InternalKey_Compare_newest_first [of 9 4 "[97]" kTypeDeletion kTypeValue]
  by (simp add: kMaxSequenceNumber_def)

text \<open>
  (C24) a key built for lookups is a smallest key of its snapshot: it sorts at or before every entry of
  the same user key whose sequence number the snapshot can see, and after the newer ones.
\<close>

theorem LookupKey_snapshot:
  assumes "s \<le> kMaxSequenceNumber" and "s' \<le> kMaxSequenceNumber"
  shows "(InternalKey_Compare Bytewise_Compare (lookup_internal_key (LookupKey_new u s)) (InternalKey_new u s' t) \<le> 0
      \<longleftrightarrow> s' \<le> s)
    \<and> lookup_user_key (LookupKey_new u s) = u"
proof -
  have k: "lookup_internal_key (LookupKey_new u s) = InternalKey_new u s kTypeValue"
    by (simp add: lookup_internal_key_def LookupKey_new_def Let_def InternalKey_new_def
        AppendInternalKey_eq kValueTypeForSeek_def)
  have "InternalKey_Compare Bytewise_Compare (InternalKey_new u s kTypeValue) (InternalKey_new u s' t) \<le> 0
    \<longleftrightarrow> PackSequenceAndType s' t \<le> PackSequenceAndType s kTypeValue"
    by (simp add: bytewise_user.internal_le_iff bytewise.Compare_refl)
  also have "\<dots> \<longleftrightarrow> s' \<le> s"
    using assms by (cases t) (auto simp: not_less [symmetric] Pack_less_iff)
  finally show ?thesis
    by (simp add: k) (simp add: lookup_user_key_def LookupKey_new_def Let_def size_simps)
qed

theorem LookupKey_snapshot_witness:
  "InternalKey_Compare Bytewise_Compare (lookup_internal_key (LookupKey_new [97] 7)) (InternalKey_new [97] 5 kTypeDeletion) \<le> 0
   \<and> \<not> InternalKey_Compare Bytewise_Compare (lookup_internal_key (LookupKey_new [97] 7)) (InternalKey_new [97] 8 kTypeValue) \<le> 0"
  using LookupKey_snapshot [of 7 5 "[97]" kTypeDeletion] LookupKey_snapshot [of 7 8 "[97]" kTypeValue]
  by (simp add: kMaxSequenceNumber_def)

end
