(* ===== verification/WriteBatch.thy ===== *)
theory WriteBatch
  imports DbFormat Status
begin

section \<open>Write batches (db/write_batch.cc, db/write_batch_internal.h)\<close>

text \<open>
  A batch is a string: a sequence number of eight bytes, a count of four, and the operations. The handler
  of \<open>Iterate\<close> is a state with its two methods, so that its calls are the changes of the state. The count is a
  32-bit word; the C++ \<open>int\<close> is compared for equality only.
\<close>

definition kHeader :: nat where "kHeader = 12"

record WriteBatch =
  rep :: bytes

definition WriteBatch_Clear :: "WriteBatch \<Rightarrow> WriteBatch" where
  "WriteBatch_Clear this = this\<lparr>rep := replicate kHeader 0\<rparr>"

definition WriteBatch_new :: WriteBatch where
  "WriteBatch_new = WriteBatch_Clear \<lparr>rep = []\<rparr>"

definition ApproximateSize :: "WriteBatch \<Rightarrow> nat" where
  "ApproximateSize this = length (rep this)"

definition Count :: "WriteBatch \<Rightarrow> u32 option" where
  "Count b = DecodeFixed32 (drop 8 (rep b))"

definition SetCount :: "WriteBatch \<Rightarrow> u32 \<Rightarrow> WriteBatch" where
  "SetCount b n = b\<lparr>rep := take 8 (rep b) @ EncodeFixed32 n @ drop 12 (rep b)\<rparr>"

definition Sequence :: "WriteBatch \<Rightarrow> u64 option" where
  "Sequence b = DecodeFixed64 (rep b)"

definition SetSequence :: "WriteBatch \<Rightarrow> u64 \<Rightarrow> WriteBatch" where
  "SetSequence b s = b\<lparr>rep := EncodeFixed64 s @ drop 8 (rep b)\<rparr>"

definition Batch_Put :: "WriteBatch \<Rightarrow> bytes \<Rightarrow> bytes \<Rightarrow> WriteBatch option" where
  "Batch_Put this key val =
     (case Count this of None \<Rightarrow> None
      | Some c \<Rightarrow>
          (let this = SetCount this (c + 1);
               r = rep this @ [ValueType_code kTypeValue]
           in Some (this\<lparr>rep := PutLengthPrefixedSlice (PutLengthPrefixedSlice r key) val\<rparr>)))"

definition Batch_Delete :: "WriteBatch \<Rightarrow> bytes \<Rightarrow> WriteBatch option" where
  "Batch_Delete this key =
     (case Count this of None \<Rightarrow> None
      | Some c \<Rightarrow>
          (let this = SetCount this (c + 1)
           in Some (this\<lparr>rep := PutLengthPrefixedSlice (rep this @ [ValueType_code kTypeDeletion]) key\<rparr>)))"

definition Batch_Append :: "WriteBatch \<Rightarrow> WriteBatch \<Rightarrow> WriteBatch option" where
  "Batch_Append dst src =
     (case (Count dst, Count src) of
        (Some c, Some d) \<Rightarrow>
          if kHeader \<le> length (rep src)
          then (let dst = SetCount dst (c + d) in Some (dst\<lparr>rep := rep dst @ drop kHeader (rep src)\<rparr>)) else None
      | _ \<Rightarrow> None)"

definition SetContents :: "WriteBatch \<Rightarrow> bytes \<Rightarrow> WriteBatch option" where
  "SetContents b contents = (if kHeader \<le> length contents then Some (b\<lparr>rep := contents\<rparr>) else None)"

function Iterate_loop ::
    "(bytes \<Rightarrow> bytes \<Rightarrow> 'h \<Rightarrow> 'h) \<Rightarrow> (bytes \<Rightarrow> 'h \<Rightarrow> 'h) \<Rightarrow> bytes \<Rightarrow> u32 \<Rightarrow> 'h \<Rightarrow> (Status + u32) \<times> 'h" where
  "Iterate_loop hput hdel input found h =
     (case input of
        [] \<Rightarrow> (Inr found, h)
      | tag # input \<Rightarrow>
          if tag = ValueType_code kTypeValue then
            (case GetLengthPrefixedSlice input of
               None \<Rightarrow> (Inl (Corruption (bytes_of_string ''bad WriteBatch Put'') []), h)
             | Some (key, input) \<Rightarrow>
                 (case GetLengthPrefixedSlice input of
                    None \<Rightarrow> (Inl (Corruption (bytes_of_string ''bad WriteBatch Put'') []), h)
                  | Some (val, input) \<Rightarrow> Iterate_loop hput hdel input (found + 1) (hput key val h)))
          else if tag = ValueType_code kTypeDeletion then
            (case GetLengthPrefixedSlice input of
               None \<Rightarrow> (Inl (Corruption (bytes_of_string ''bad WriteBatch Delete'') []), h)
             | Some (key, input) \<Rightarrow> Iterate_loop hput hdel input (found + 1) (hdel key h))
          else (Inl (Corruption (bytes_of_string ''unknown WriteBatch tag'') []), h))"
  by pat_completeness auto
termination
  by (relation "measure (\<lambda>(p, d, input, found, h). length input)")
    (auto dest!: GetLengthPrefixedSlice_shorter)

declare Iterate_loop.simps [simp del]

definition Iterate ::
    "(bytes \<Rightarrow> bytes \<Rightarrow> 'h \<Rightarrow> 'h) \<Rightarrow> (bytes \<Rightarrow> 'h \<Rightarrow> 'h) \<Rightarrow> WriteBatch \<Rightarrow> 'h \<Rightarrow> Status \<times> 'h" where
  "Iterate hput hdel this h =
     (if length (rep this) < kHeader then (Corruption (bytes_of_string ''malformed WriteBatch (too small)'') [], h)
      else case Iterate_loop hput hdel (drop kHeader (rep this)) 0 h of
        (Inl s, h) \<Rightarrow> (s, h)
      | (Inr found, h) \<Rightarrow>
          if Some found \<noteq> Count this then (Corruption (bytes_of_string ''WriteBatch has wrong count'') [], h)
          else (Status_OK, h))"

text \<open>The handler that inserts into a memtable: its state is the next sequence number and the memtable.\<close>

definition Inserter_Put ::
    "(u64 \<Rightarrow> ValueType \<Rightarrow> bytes \<Rightarrow> bytes \<Rightarrow> 'm \<Rightarrow> 'm) \<Rightarrow> bytes \<Rightarrow> bytes \<Rightarrow> u64 \<times> 'm \<Rightarrow> u64 \<times> 'm" where
  "Inserter_Put Add key val = (\<lambda>(seq, mem). (seq + 1, Add seq kTypeValue key val mem))"

definition Inserter_Delete ::
    "(u64 \<Rightarrow> ValueType \<Rightarrow> bytes \<Rightarrow> bytes \<Rightarrow> 'm \<Rightarrow> 'm) \<Rightarrow> bytes \<Rightarrow> u64 \<times> 'm \<Rightarrow> u64 \<times> 'm" where
  "Inserter_Delete Add key = (\<lambda>(seq, mem). (seq + 1, Add seq kTypeDeletion key [] mem))"

definition InsertInto ::
    "(u64 \<Rightarrow> ValueType \<Rightarrow> bytes \<Rightarrow> bytes \<Rightarrow> 'm \<Rightarrow> 'm) \<Rightarrow> WriteBatch \<Rightarrow> 'm \<Rightarrow> (Status \<times> 'm) option" where
  "InsertInto Add b memtable =
     (case Sequence b of None \<Rightarrow> None
      | Some seq \<Rightarrow>
          (let (s, _, mem) = Iterate (Inserter_Put Add) (Inserter_Delete Add) b (seq, memtable) in Some (s, mem)))"

subsection \<open>A batch is a list of operations\<close>

datatype op = PutOp bytes bytes | DeleteOp bytes

fun op_bytes :: "op \<Rightarrow> bytes" where
  "op_bytes (PutOp k v) = PutLengthPrefixedSlice (PutLengthPrefixedSlice [ValueType_code kTypeValue] k) v"
| "op_bytes (DeleteOp k) = PutLengthPrefixedSlice [ValueType_code kTypeDeletion] k"

fun op_fits :: "op \<Rightarrow> bool" where
  "op_fits (PutOp k v) = (length k < 2 ^ 32 \<and> length v < 2 ^ 32)"
| "op_fits (DeleteOp k) = (length k < 2 ^ 32)"

fun apply_op :: "(bytes \<Rightarrow> bytes \<Rightarrow> 'h \<Rightarrow> 'h) \<Rightarrow> (bytes \<Rightarrow> 'h \<Rightarrow> 'h) \<Rightarrow> op \<Rightarrow> 'h \<Rightarrow> 'h" where
  "apply_op hput hdel (PutOp k v) = hput k v"
| "apply_op hput hdel (DeleteOp k) = hdel k"

fun add_op :: "op \<Rightarrow> WriteBatch \<Rightarrow> WriteBatch option" where
  "add_op (PutOp k v) b = Batch_Put b k v"
| "add_op (DeleteOp k) b = Batch_Delete b k"

fun build_batch :: "op list \<Rightarrow> WriteBatch \<Rightarrow> WriteBatch option" where
  "build_batch [] b = Some b"
| "build_batch (x # xs) b = (case add_op x b of None \<Rightarrow> None | Some b \<Rightarrow> build_batch xs b)"

text \<open>The abstract batch: a sequence number and operations, in its encoding.\<close>

definition encode_batch :: "u64 \<Rightarrow> op list \<Rightarrow> WriteBatch" where
  "encode_batch s ops = \<lparr>rep = EncodeFixed64 s @ EncodeFixed32 (of_nat (length ops)) @ concat (map op_bytes ops)\<rparr>"

lemma batch_parts:
  "length (rep (encode_batch s ops)) = 12 + length (concat (map op_bytes ops))"
  "Count (encode_batch s ops) = Some (of_nat (length ops))" "Sequence (encode_batch s ops) = Some s"
  "drop 12 (rep (encode_batch s ops)) = concat (map op_bytes ops)"
  by (simp_all add: encode_batch_def Count_def Sequence_def size_simps codec_simps)

lemma SetCount_encode: "SetCount (encode_batch s ops) n = \<lparr>rep = EncodeFixed64 s @ EncodeFixed32 n @ concat (map op_bytes ops)\<rparr>"
  by (simp add: SetCount_def encode_batch_def size_simps)

lemma add_op_encode: "add_op x (encode_batch s ops) = Some (encode_batch s (ops @ [x]))"
  by (cases x)
    (simp_all add: Batch_Put_def Batch_Delete_def batch_parts SetCount_encode Let_def PutLengthPrefixedSlice_append,
     simp_all add: encode_batch_def PutLengthPrefixedSlice_append add.commute)

lemma build_batch_encode: "build_batch xs (encode_batch s ops) = Some (encode_batch s (ops @ xs))"
  by (induction xs arbitrary: ops) (simp_all add: add_op_encode)

lemma WriteBatch_new_encode: "WriteBatch_new = encode_batch 0 []"
  by (simp add: WriteBatch_new_def WriteBatch_Clear_def encode_batch_def kHeader_def EncodeFixed32_def EncodeFixed64_def
      numeral_eq_Suc)

lemma SetSequence_encode: "SetSequence (encode_batch s ops) s' = encode_batch s' ops"
  by (simp add: SetSequence_def encode_batch_def size_simps)

lemma Append_encode: "Batch_Append (encode_batch s xs) (encode_batch s' ys) = Some (encode_batch s (xs @ ys))"
  by (simp add: Batch_Append_def batch_parts kHeader_def SetCount_encode Let_def) (simp add: encode_batch_def)

lemma Iterate_loop_ops:
  assumes "\<forall>x \<in> set ops. op_fits x"
  shows "Iterate_loop hput hdel (concat (map op_bytes ops)) n h
    = (Inr (n + of_nat (length ops)), fold (apply_op hput hdel) ops h)"
  using assms
proof (induction ops arbitrary: n h)
  case Nil
  then show ?case by (simp add: Iterate_loop.simps)
next
  case (Cons x ops)
  then show ?case
    by (cases x) (simp_all add: Iterate_loop.simps [of hput hdel "_ # _"] PutLengthPrefixedSlice_append codec_simps add.assoc)
qed

lemma Iterate_encode:
  assumes "\<forall>x \<in> set ops. op_fits x"
  shows "Iterate hput hdel (encode_batch s ops) h = (Status_OK, fold (apply_op hput hdel) ops h)"
  by (simp add: Iterate_def batch_parts kHeader_def Iterate_loop_ops [OF assms])

subsection \<open>What a batch promises\<close>

fun insert_ops :: "(u64 \<Rightarrow> ValueType \<Rightarrow> bytes \<Rightarrow> bytes \<Rightarrow> 'm \<Rightarrow> 'm) \<Rightarrow> u64 \<Rightarrow> op list \<Rightarrow> 'm \<Rightarrow> 'm" where
  "insert_ops Add s [] mem = mem"
| "insert_ops Add s (PutOp k v # ops) mem = insert_ops Add (s + 1) ops (Add s kTypeValue k v mem)"
| "insert_ops Add s (DeleteOp k # ops) mem = insert_ops Add (s + 1) ops (Add s kTypeDeletion k [] mem)"

lemma fold_inserter:
  "fold (apply_op (Inserter_Put Add) (Inserter_Delete Add)) ops (s, mem) = (s + of_nat (length ops), insert_ops Add s ops mem)"
proof (induction ops arbitrary: s mem)
  case (Cons x ops)
  then show ?case by (cases x) (simp_all add: Inserter_Put_def Inserter_Delete_def add.assoc)
qed simp

text \<open>
  (C12) A batch iterates over what was put into it. Puts and deletes added to a new batch are given to the handler
  in the order they were added, whatever the handler does, and \<open>Iterate\<close> reports success; the same holds for a
  batch to which a second one was appended.
\<close>

theorem WriteBatch_roundtrip:
  assumes "\<forall>x \<in> set (xs @ ys). op_fits x"
  shows "\<exists>b c d. build_batch xs WriteBatch_new = Some b \<and> build_batch ys WriteBatch_new = Some c \<and> Batch_Append b c = Some d
    \<and> Iterate hput hdel b h = (Status_OK, fold (apply_op hput hdel) xs h)
    \<and> Iterate hput hdel d h = (Status_OK, fold (apply_op hput hdel) (xs @ ys) h)"
  using assms Iterate_encode [of xs hput hdel 0 h] Iterate_encode [of "xs @ ys" hput hdel 0 h]
  by (simp add: WriteBatch_new_encode build_batch_encode Append_encode)

theorem WriteBatch_roundtrip_witness:
  "\<exists>b c d. build_batch [PutOp [1] [2], DeleteOp [1]] WriteBatch_new = Some b \<and> build_batch [PutOp [3] []] WriteBatch_new = Some c
    \<and> Batch_Append b c = Some d
    \<and> Iterate (\<lambda>k v. (#) (k, Some v)) (\<lambda>k. (#) (k, None)) b [] = (Status_OK, [([1], None), ([1], Some [2])])
    \<and> Iterate (\<lambda>k v. (#) (k, Some v)) (\<lambda>k. (#) (k, None)) d [] = (Status_OK, [([3], Some []), ([1], None), ([1], Some [2])])"
  using WriteBatch_roundtrip [of "[PutOp [1] [2], DeleteOp [1]]" "[PutOp [3] []]" "\<lambda>k v. (#) (k, Some v)" "\<lambda>k. (#) (k, None)" "[]"]
  by simp

text \<open>
  (C16) Inserting a batch into a memtable adds its operations with consecutive sequence numbers from the one the
  batch was given, also across the boundary between two batches that were joined.
\<close>

theorem InsertInto_sequence_numbers:
  assumes "\<forall>x \<in> set (xs @ ys). op_fits x"
  shows "\<exists>b c d. build_batch xs WriteBatch_new = Some b \<and> build_batch ys WriteBatch_new = Some c \<and> Batch_Append b c = Some d
    \<and> InsertInto Add (SetSequence d s) mem
        = Some (Status_OK, insert_ops Add (s + of_nat (length xs)) ys (insert_ops Add s xs mem))"
proof -
  have "insert_ops Add s (xs @ ys) mem = insert_ops Add (s + of_nat (length xs)) ys (insert_ops Add s xs mem)"
    using fold_inserter [of Add "xs @ ys" s mem] by (simp add: fold_inserter)
  then have "Iterate (Inserter_Put Add) (Inserter_Delete Add) (encode_batch s (xs @ ys)) (s, mem)
      = (Status_OK, s + of_nat (length (xs @ ys)), insert_ops Add (s + of_nat (length xs)) ys (insert_ops Add s xs mem))"
    by (simp only: Iterate_encode [OF assms] fold_inserter)
  then show ?thesis
    by (simp add: WriteBatch_new_encode build_batch_encode Append_encode SetSequence_encode InsertInto_def batch_parts)
qed

theorem InsertInto_sequence_numbers_witness:
  "\<exists>b c d. build_batch [PutOp [1] [2]] WriteBatch_new = Some b \<and> build_batch [DeleteOp [1]] WriteBatch_new = Some c
    \<and> Batch_Append b c = Some d
    \<and> InsertInto (\<lambda>s t k v. (#) (s, t, k, v)) (SetSequence d 7) []
        = Some (Status_OK, [(8, kTypeDeletion, [1], []), (7, kTypeValue, [1], [2])])"
  using InsertInto_sequence_numbers [of "[PutOp [1] [2]]" "[DeleteOp [1]]" "\<lambda>s t k v. (#) (s, t, k, v)" 7 "[]"] by simp

lemma Iterate_loop_some_ops:
  "\<exists>ops. snd (Iterate_loop hput hdel input n h) = fold (apply_op hput hdel) ops h
    \<and> (case fst (Iterate_loop hput hdel input n h) of Inl s \<Rightarrow> \<not> Status_ok s | Inr m \<Rightarrow> m = n + of_nat (length ops))"
proof (induction hput hdel input n h rule: Iterate_loop.induct)
  case (1 hput hdel input n h)
  have bad: ?case if "\<exists>msg. Iterate_loop hput hdel input n h = (Inl (Corruption msg []), h)"
    using that by (auto simp: Corruption_def Status_new_def Status_ok_def Let_def intro: exI [of _ "[]"])
  have more: ?case if some: "\<exists>ops. snd (Iterate_loop hput hdel rest (n + 1) (apply_op hput hdel x h)) = fold (apply_op hput hdel) ops (apply_op hput hdel x h)
      \<and> (case fst (Iterate_loop hput hdel rest (n + 1) (apply_op hput hdel x h)) of Inl s \<Rightarrow> \<not> Status_ok s | Inr m \<Rightarrow> m = n + 1 + of_nat (length ops))"
    and step: "Iterate_loop hput hdel input n h = Iterate_loop hput hdel rest (n + 1) (apply_op hput hdel x h)" for rest x
  proof -
    obtain ops where "snd (Iterate_loop hput hdel rest (n + 1) (apply_op hput hdel x h)) = fold (apply_op hput hdel) ops (apply_op hput hdel x h)"
      "case fst (Iterate_loop hput hdel rest (n + 1) (apply_op hput hdel x h)) of Inl s \<Rightarrow> \<not> Status_ok s | Inr m \<Rightarrow> m = n + 1 + of_nat (length ops)"
      using some by blast
    then show ?thesis unfolding step by (intro exI [of _ "x # ops"]) (auto simp: add.assoc split: sum.splits)
  qed
  show ?case
  proof (cases input)
    case Nil
    then show ?thesis by (simp add: Iterate_loop.simps exI [of _ "[]"])
  next
    case (Cons tag rest)
    show ?thesis
    proof (cases "GetLengthPrefixedSlice rest")
      case None
      then show ?thesis by (intro bad) (auto simp: Iterate_loop.simps [of hput hdel "_ # rest"] Cons)
    next
      case (Some kr)
      obtain k r where kr: "kr = (k, r)" by (cases kr)
      note eq = Iterate_loop.simps [of hput hdel "_ # rest" n h] Cons Some kr
      consider "tag = 1" "GetLengthPrefixedSlice r = None" | v r' where "tag = 1" "GetLengthPrefixedSlice r = Some (v, r')"
        | "tag = 0" | "tag \<noteq> 0" "tag \<noteq> 1" by (cases "GetLengthPrefixedSlice r") force+
      then show ?thesis
      proof cases
        case 1
        then show ?thesis by (intro bad) (auto simp: eq)
      next
        case (2 v r')
        show ?thesis by (rule more [of r' "PutOp k v"]) (use 1 2 Cons Some kr in \<open>auto simp: eq\<close>)
      next
        case 3
        show ?thesis by (rule more [of r "DeleteOp k"]) (use 1 3 Cons Some kr in \<open>auto simp: eq\<close>)
      next
        case 4
        then show ?thesis by (intro bad) (auto simp: eq)
      qed
    qed
  qed
qed



end
