(* ===== verification/MemTable.thy ===== *)
theory MemTable
  imports SkipList DbFormat Status WriteBatch
begin

section \<open>The memtable (db/memtable.h, db/memtable.cc)\<close>

text \<open>
  A memtable is a skip list of entries. An entry is one string: the length-prefixed internal key followed by
  the length-prefixed value. The comparator of the skip list decodes the internal keys of two entries. A read
  behind the end of an entry is \<open>None\<close>.
\<close>

definition entry_slice :: "bytes \<Rightarrow> (bytes \<times> bytes) option" where
  "entry_slice data =
     (case GetVarint32Ptr (take 5 data) of
        None \<Rightarrow> None
      | Some (len, r) \<Rightarrow>
          (let p = drop (length (take 5 data) - length r) data
           in if unat len \<le> length p then Some (take (unat len) p, drop (unat len) p) else None))"

record MemTable =
  mt_table :: SkipList
  mt_refs :: int

definition MemTable_new :: MemTable where
  "MemTable_new = \<lparr>mt_table = SkipList_new [], mt_refs = 0\<rparr>"

definition MemTable_Compare :: "(bytes \<Rightarrow> bytes \<Rightarrow> int) \<Rightarrow> bytes \<Rightarrow> bytes \<Rightarrow> int" where
  "MemTable_Compare user_compare aptr bptr =
     (case (entry_slice aptr, entry_slice bptr) of
        (Some (a, _), Some (b, _)) \<Rightarrow> InternalKey_Compare user_compare a b
      | _ \<Rightarrow> 0)"

definition EncodeKey :: "bytes \<Rightarrow> bytes" where
  "EncodeKey target = PutVarint32 [] (of_nat (length target)) @ target"

definition MemTable_entry :: "u64 \<Rightarrow> ValueType \<Rightarrow> bytes \<Rightarrow> bytes \<Rightarrow> bytes" where
  "MemTable_entry s t key val =
     EncodeVarint32 (of_nat (length key + 8)) @ key
     @ EncodeFixed64 (push_bit 8 s OR ucast (ValueType_code t))
     @ EncodeVarint32 (of_nat (length val)) @ val"

definition MemTable_Add ::
    "(bytes \<Rightarrow> bytes \<Rightarrow> int) \<Rightarrow> (nat \<Rightarrow> nat option) \<Rightarrow> u64 \<Rightarrow> ValueType \<Rightarrow> bytes \<Rightarrow> bytes \<Rightarrow> MemTable \<Rightarrow> MemTable option" where
  "MemTable_Add user_compare junk s t key val this =
     (let internal_key_size = length key + 8;
          encoded_len = VarintLength (of_nat internal_key_size) + internal_key_size
            + VarintLength (of_nat (length val)) + length val;
          buf = MemTable_entry s t key val
      in if length buf \<noteq> encoded_len then None
         else case Insert (MemTable_Compare user_compare) junk buf (mt_table this) of
             None \<Rightarrow> None
           | Some table \<Rightarrow> Some (this\<lparr>mt_table := table\<rparr>))"

definition MemTable_Ref :: "MemTable \<Rightarrow> MemTable" where
  "MemTable_Ref this = this\<lparr>mt_refs := mt_refs this + 1\<rparr>"

text \<open>The inner \<open>None\<close> is the deleted object.\<close>

definition MemTable_Unref :: "MemTable \<Rightarrow> MemTable option option" where
  "MemTable_Unref this =
     (let refs = mt_refs this - 1
      in if refs < 0 then None else if refs \<le> 0 then Some None else Some (Some (this\<lparr>mt_refs := refs\<rparr>)))"

text \<open>The outcome of \<open>Get\<close>: the return value with the value or the status it has set.\<close>

datatype GetOutcome = GetValue bytes | GetStatus Status | GetNothing

definition MemTable_Get :: "(bytes \<Rightarrow> bytes \<Rightarrow> int) \<Rightarrow> LookupKey \<Rightarrow> MemTable \<Rightarrow> GetOutcome option" where
  "MemTable_Get user_compare key this =
     do {
       node \<leftarrow> Iter_Seek (MemTable_Compare user_compare) (mt_table this) (memtable_key key);
       if \<not> Iter_Valid node then Some GetNothing
       else do {
         entry \<leftarrow> Iter_key (mt_table this) node;
         (ikey, rest) \<leftarrow> entry_slice entry;
         if length ikey < 8 then None
         else if user_compare (take (length ikey - 8) ikey) (lookup_user_key key) = 0 then do {
           tag \<leftarrow> DecodeFixed64 (drop (length ikey - 8) ikey);
           if tag AND 0xff = ucast (ValueType_code kTypeValue) then do { (v, _) \<leftarrow> entry_slice rest; Some (GetValue v) }
           else if tag AND 0xff = ucast (ValueType_code kTypeDeletion) then Some (GetStatus (NotFound [] []))
           else Some GetNothing
         }
         else Some GetNothing
       }
     }"

text \<open>The iterator of a memtable.\<close>

definition MemIter_Seek :: "(bytes \<Rightarrow> bytes \<Rightarrow> int) \<Rightarrow> MemTable \<Rightarrow> bytes \<Rightarrow> nat option option" where
  "MemIter_Seek user_compare this k = Iter_Seek (MemTable_Compare user_compare) (mt_table this) (EncodeKey k)"

definition MemIter_key :: "MemTable \<Rightarrow> nat option \<Rightarrow> bytes option" where
  "MemIter_key this node = do { e \<leftarrow> Iter_key (mt_table this) node; (k, _) \<leftarrow> entry_slice e; Some k }"

definition MemIter_value :: "MemTable \<Rightarrow> nat option \<Rightarrow> bytes option" where
  "MemIter_value this node =
     do { e \<leftarrow> Iter_key (mt_table this) node; (_, rest) \<leftarrow> entry_slice e; (v, _) \<leftarrow> entry_slice rest; Some v }"

subsection \<open>Entries\<close>

lemma entry_slice_encode:
  assumes "length a < 2 ^ 32"
  shows "entry_slice (EncodeVarint32 (of_nat (length a)) @ a @ rest) = Some (a, rest)"
proof -
  let ?h = "EncodeVarint32 (of_nat (length a))"
  have h: "length ?h \<le> 5" by (rule length_EncodeVarint32_le_5)
  have "take 5 (?h @ a @ rest) = ?h @ take (5 - length ?h) (a @ rest)" using h by simp
  then have "GetVarint32Ptr (take 5 (?h @ a @ rest)) = Some (of_nat (length a), take (5 - length ?h) (a @ rest))"
    by (simp add: codec_simps)
  moreover have "length (take 5 (?h @ a @ rest)) - length (take (5 - length ?h) (a @ rest)) = length ?h"
    using h by (simp add: min_def)
  ultimately show ?thesis using unat_of_nat_u32 [OF assms] by (simp add: entry_slice_def)
qed

subsection \<open>The order of the entries\<close>

definition valid_entry :: "bytes \<Rightarrow> bool" where
  "valid_entry e \<longleftrightarrow> (case entry_slice e of None \<Rightarrow> False | Some (k, _) \<Rightarrow> valid_internal k)"

lemma MemTable_entry_slice:
  assumes "length k + 8 < 2 ^ 32"
  shows "entry_slice (MemTable_entry s t k v) = Some (InternalKey_new k s t, EncodeVarint32 (of_nat (length v)) @ v)"
proof -
  have "length (InternalKey_new k s t) = length k + 8" by (simp add: InternalKey_new_def AppendInternalKey_eq size_simps)
  then show ?thesis using entry_slice_encode [of "InternalKey_new k s t"] assms
    by (simp add: MemTable_entry_def InternalKey_new_def AppendInternalKey_eq PackSequenceAndType_def)
qed

lemma memtable_key_slice:
  assumes "length u + 8 < 2 ^ 32"
  shows "entry_slice (memtable_key (LookupKey_new u s)) = Some (InternalKey_new u s kTypeValue, [])"
proof -
  have "length (InternalKey_new u s kTypeValue) = length u + 8" by (simp add: InternalKey_new_def AppendInternalKey_eq size_simps)
  then show ?thesis using entry_slice_encode [of "InternalKey_new u s kTypeValue" "[]"] assms
    by (simp add: memtable_key_def LookupKey_new_def InternalKey_new_def AppendInternalKey_eq kValueTypeForSeek_def Let_def)
qed

lemma valid_entry_slice:
  assumes "valid_entry e"
  obtains k r where "entry_slice e = Some (k, r)" "valid_internal k"
  using assms by (auto simp: valid_entry_def split: option.splits)

lemma MemTable_Compare_slices:
  "entry_slice a = Some (k, r) \<Longrightarrow> entry_slice b = Some (k', r') \<Longrightarrow> MemTable_Compare user_compare a b = InternalKey_Compare user_compare k k'"
  by (simp add: MemTable_Compare_def)

lemma MemTable_key_comparator:
  assumes "key_comparator (InternalKey_Compare user_compare) valid_internal"
  shows "key_comparator (MemTable_Compare user_compare) valid_entry"
proof
  fix a assume "valid_entry a"
  then obtain k r where a: "entry_slice a = Some (k, r)" "valid_internal k" by (rule valid_entry_slice)
  show "MemTable_Compare user_compare a a = 0"
    unfolding MemTable_Compare_slices [OF a(1) a(1)] by (rule key_comparator.Compare_refl [OF assms a(2)])
next
  fix a b assume v: "valid_entry a" "valid_entry b"
  obtain k r where a: "entry_slice a = Some (k, r)" "valid_internal k" by (rule valid_entry_slice [OF v(1)])
  obtain k' r' where b: "entry_slice b = Some (k', r')" "valid_internal k'" by (rule valid_entry_slice [OF v(2)])
  show "MemTable_Compare user_compare a b < 0 \<longleftrightarrow> 0 < MemTable_Compare user_compare b a"
    unfolding MemTable_Compare_slices [OF a(1) b(1)] MemTable_Compare_slices [OF b(1) a(1)]
    by (rule key_comparator.Compare_flip [OF assms a(2) b(2)])
next
  fix a b c assume v: "valid_entry a" "valid_entry b" "valid_entry c"
    and le: "MemTable_Compare user_compare a b \<le> 0" "MemTable_Compare user_compare b c \<le> 0"
  obtain k r where a: "entry_slice a = Some (k, r)" "valid_internal k" by (rule valid_entry_slice [OF v(1)])
  obtain k' r' where b: "entry_slice b = Some (k', r')" "valid_internal k'" by (rule valid_entry_slice [OF v(2)])
  obtain k'' r'' where c: "entry_slice c = Some (k'', r'')" "valid_internal k''" by (rule valid_entry_slice [OF v(3)])
  show "MemTable_Compare user_compare a c \<le> 0"
    unfolding MemTable_Compare_slices [OF a(1) c(1)]
    by (rule key_comparator.Compare_trans [OF assms a(2) b(2) c(2)])
      (use le in \<open>simp_all add: MemTable_Compare_slices [OF a(1) b(1)] MemTable_Compare_slices [OF b(1) c(1)]\<close>)
qed

sublocale user_comparator \<subseteq> mem: key_comparator "MemTable_Compare user_compare" valid_entry
  by (rule MemTable_key_comparator [OF internal_key_comparator])

subsection \<open>A memtable is a list of records, newest first\<close>

type_synonym mrec = "u64 \<times> ValueType \<times> bytes \<times> bytes"

fun rec_entry :: "mrec \<Rightarrow> bytes" where
  "rec_entry (s, t, k, v) = MemTable_entry s t k v"

fun rec_fits :: "mrec \<Rightarrow> bool" where
  "rec_fits (s, t, k, v) \<longleftrightarrow> s \<le> kMaxSequenceNumber \<and> length k + 8 < 2 ^ 32 \<and> length v < 2 ^ 32"

text \<open>What a read at sequence number \<open>s\<close> has to return.\<close>

definition mem_lookup :: "(bytes \<Rightarrow> bytes \<Rightarrow> int) \<Rightarrow> bytes \<Rightarrow> u64 \<Rightarrow> mrec list \<Rightarrow> GetOutcome" where
  "mem_lookup user_compare u s rs =
     (case find (\<lambda>(s', t, k, v). user_compare k u = 0 \<and> s' \<le> s) rs of
        None \<Rightarrow> GetNothing
      | Some (_, kTypeValue, _, v) \<Rightarrow> GetValue v
      | Some (_, kTypeDeletion, _, _) \<Rightarrow> GetStatus (NotFound [] []))"

definition mem_repr :: "(bytes \<Rightarrow> bytes \<Rightarrow> int) \<Rightarrow> MemTable \<Rightarrow> mrec list \<Rightarrow> bool" where
  "mem_repr user_compare m rs \<longleftrightarrow> (\<exists>ks. sl_repr (MemTable_Compare user_compare) valid_entry (mt_table m) ks
     \<and> set ks = rec_entry ` set rs) \<and> (\<forall>r \<in> set rs. rec_fits r) \<and> sorted_wrt (\<lambda>r r'. fst r' < fst r) rs"

lemma MemTable_new_repr: "mem_repr user_compare MemTable_new []"
  using SkipList_new_repr by (auto simp: mem_repr_def MemTable_new_def)

lemma set_ins_key: "set (ins_key compare k ks) = insert k (set ks)"
proof -
  have "set ks = set (takeWhile P ks) \<union> set (dropWhile P ks)" for P by (metis set_append takeWhile_dropWhile_id)
  then show ?thesis by (auto simp: ins_key_def)
qed

lemma rec_entry_slice:
  "rec_fits (s, t, k, v) \<Longrightarrow> entry_slice (rec_entry (s, t, k, v)) = Some (InternalKey_new k s t, EncodeVarint32 (of_nat (length v)) @ v)"
  by (simp add: MemTable_entry_slice)

lemma rec_entry_inj:
  assumes "rec_fits r" "rec_fits r'" "rec_entry r = rec_entry r'"
  shows "r = r'"
proof -
  obtain s t k v s' t' k' v' where r: "r = (s, t, k, v)" "r' = (s', t', k', v')" by (cases r; cases r')
  have e: "InternalKey_new k s t = InternalKey_new k' s' t'" "EncodeVarint32 (of_nat (length v)) @ v = EncodeVarint32 (of_nat (length v')) @ v'"
    using assms rec_entry_slice [of s t k v] rec_entry_slice [of s' t' k' v'] by (auto simp: r simp del: rec_entry.simps)
  have "k = k'" by (metis e(1) ExtractUserKey_InternalKey)
  moreover have p: "PackSequenceAndType s t = PackSequenceAndType s' t'" by (metis e(1) internal_tag_InternalKey)
  have "s = s'" using Pack_high [of s t] Pack_high [of s' t'] p assms(1,2) by (simp add: r)
  moreover have "(ucast (ValueType_code t) :: u64) = ucast (ValueType_code t')" by (metis Pack_low p)
  then have "t = t'" by (cases t; cases t') simp_all
  moreover have "entry_slice (EncodeVarint32 (of_nat (length v)) @ v) = Some (v, [])"
      "entry_slice (EncodeVarint32 (of_nat (length v')) @ v') = Some (v', [])"
    using entry_slice_encode [of v "[]"] entry_slice_encode [of v' "[]"] assms(1,2) by (simp_all add: r)
  then have "v = v'" unfolding e(2) by simp
  ultimately show ?thesis by (simp add: r)
qed

lemma valid_rec_entry: "rec_fits r \<Longrightarrow> valid_entry (rec_entry r)"
  by (cases r) (simp add: valid_entry_def MemTable_entry_slice)

lemma MemTable_entry_length:
  assumes "length k + 8 < 2 ^ 32" "length v < 2 ^ 32"
  shows "length (MemTable_entry s t k v) = VarintLength (of_nat (length k + 8)) + (length k + 8)
    + VarintLength (of_nat (length v)) + length v"
proof -
  have c: "ucast (of_nat n :: u32) = (of_nat n :: u64)" if "n < 2 ^ 32" for n
    using that unat_of_nat_u32 [OF that] unat_of_nat_u64 [of n] by (intro word_unat_eq_iff [THEN iffD2]) (simp add: unat_ucast_32_64)
  show ?thesis using assms c [of "length k + 8"] c [of "length v"]
    by (simp add: MemTable_entry_def VarintLength_eq EncodeVarint32_eq_EncodeVarint64 size_simps)
qed

lemma sorted_fst_inj:
  "sorted_wrt (\<lambda>r r'. fst r' < (fst r :: u64)) rs \<Longrightarrow> r \<in> set rs \<Longrightarrow> r' \<in> set rs \<Longrightarrow> fst r = fst r' \<Longrightarrow> r = r'"
  by (induction rs) auto

context key_comparator
begin

lemma Insert_repr:
  assumes "sl_repr Compare valid sl ks" "valid k" "\<forall>k' \<in> set ks. Compare k' k \<noteq> 0"
  shows "\<exists>sl'. Insert Compare junk k sl = Some sl' \<and> sl_repr Compare valid sl' (ins_key Compare k ks)"
  using Insert_states [OF assms, of junk] by (elim exE conjE) (intro exI conjI)

end

context user_comparator
begin

lemma rec_entry_less:
  assumes "rec_fits (s, t, k, v)" "rec_fits (s', t', k', v')" "s \<noteq> s'"
  shows "MemTable_Compare user_compare (rec_entry (s, t, k, v)) (rec_entry (s', t', k', v')) < 0
    \<longleftrightarrow> user_compare k k' < 0 \<or> user_compare k k' = 0 \<and> s' < s"
  using assms by (simp add: MemTable_Compare_def MemTable_entry_slice internal_less_iff Pack_less_iff)

lemma rec_entry_before:
  assumes "rec_fits (s, t, k, v)" "s' \<le> kMaxSequenceNumber" "length u + 8 < 2 ^ 32"
  shows "MemTable_Compare user_compare (rec_entry (s, t, k, v)) (memtable_key (LookupKey_new u s')) < 0
    \<longleftrightarrow> user_compare k u < 0 \<or> user_compare k u = 0 \<and> s' < s"
  using assms by (cases t) (auto simp: MemTable_Compare_def MemTable_entry_slice memtable_key_slice internal_less_iff Pack_less_iff)

lemma Add_repr:
  assumes rep: "mem_repr user_compare m rs" and fits: "rec_fits (s, t, k, v)" and newer: "\<forall>r \<in> set rs. fst r < s"
  shows "\<exists>m'. MemTable_Add user_compare junk s t k v m = Some m' \<and> mem_repr user_compare m' ((s, t, k, v) # rs)"
proof -
  obtain ks where sl: "sl_repr (MemTable_Compare user_compare) valid_entry (mt_table m) ks" "set ks = rec_entry ` set rs"
    using rep by (auto simp: mem_repr_def)
  have "MemTable_Compare user_compare k' (rec_entry (s, t, k, v)) \<noteq> 0" if k': "k' \<in> set ks" for k'
  proof -
    obtain r where r: "r \<in> set rs" "k' = rec_entry r" "rec_fits r" using k' sl(2) rep by (auto simp: mem_repr_def)
    obtain s' t' k0 v' where "r = (s', t', k0, v')" by (cases r)
    then show ?thesis using newer fits r
      by (auto simp: MemTable_Compare_def MemTable_entry_slice InternalKey_Compare_def Pack_less_iff Let_def)
  qed
  then obtain sl' where ins: "Insert (MemTable_Compare user_compare) junk (rec_entry (s, t, k, v)) (mt_table m) = Some sl'"
      and sl': "sl_repr (MemTable_Compare user_compare) valid_entry sl' (ins_key (MemTable_Compare user_compare) (rec_entry (s, t, k, v)) ks)"
    using mem.Insert_repr [OF sl(1) valid_rec_entry [OF fits], of junk] by blast
  have "MemTable_Add user_compare junk s t k v m = Some (m\<lparr>mt_table := sl'\<rparr>)"
    using ins fits MemTable_entry_length [of k v s t] by (simp add: MemTable_Add_def Let_def)
  moreover have "set (ins_key (MemTable_Compare user_compare) (rec_entry (s, t, k, v)) ks) = rec_entry ` set ((s, t, k, v) # rs)"
    by (simp add: set_ins_key sl(2))
  then have "mem_repr user_compare (m\<lparr>mt_table := sl'\<rparr>) ((s, t, k, v) # rs)"
    unfolding mem_repr_def using sl' rep fits newer by (auto simp: mem_repr_def)
  ultimately show ?thesis by blast
qed

lemma Seek_entries:
  assumes rep: "mem_repr user_compare m rs" and s: "s \<le> kMaxSequenceNumber" and u: "length u + 8 < 2 ^ 32"
  defines "vis \<equiv> \<lambda>(s', t, k, v). user_compare k u > 0 \<or> user_compare k u = 0 \<and> s' \<le> s"
  shows "\<exists>node. Iter_Seek (MemTable_Compare user_compare) (mt_table m) (memtable_key (LookupKey_new u s)) = Some node
    \<and> (if \<forall>r \<in> set rs. \<not> vis r then node = None
       else \<exists>r \<in> set rs. vis r \<and> Iter_Valid node \<and> Iter_key (mt_table m) node = Some (rec_entry r)
         \<and> (\<forall>r' \<in> set rs. vis r' \<longrightarrow> r' = r \<or> MemTable_Compare user_compare (rec_entry r) (rec_entry r') < 0))"
proof -
  let ?C = "MemTable_Compare user_compare" and ?lk = "memtable_key (LookupKey_new u s)" and ?sl = "mt_table m"
  obtain ks where "sl_repr ?C valid_entry ?sl ks" and set: "set ks = rec_entry ` set rs"
    using rep by (auto simp: mem_repr_def)
  then obtain ch where ok: "sl_ok ?C valid_entry ?sl ch" and ks: "ks = sl_keys ?sl ch" by (auto simp: sl_repr_def)
  have m0: "0 < kMaxHeight" by (simp add: kMaxHeight_def)
  have fits: "rec_fits r" if "r \<in> set rs" for r using rep that by (auto simp: mem_repr_def)
  let ?B = "before ?C ?sl ?lk"
  have lk: "valid_entry ?lk" using u by (simp add: valid_entry_def memtable_key_slice)
  have bef: "?B a \<longleftrightarrow> \<not> vis r" if "r \<in> set rs" "key_of ?sl a = rec_entry r" for a r
    using rec_entry_before [OF _ s u] fits [OF that(1)] that(2) by (cases r) (auto simp: before_def vis_def)
  have seek: "Iter_Seek ?C ?sl ?lk = Some (pointer_to (dropWhile ?B (ch 0)))" by (rule mem.Iter_Seek_spec [OF ok lk])
  have node: "\<exists>r \<in> set rs. key_of ?sl a = rec_entry r" if "a \<in> set (ch 0)" for a
    using set that by (auto simp: ks sl_keys_def)
  have pos: "\<exists>a \<in> set (dropWhile ?B (ch 0)). key_of ?sl a = rec_entry r" if "r \<in> set rs" "vis r" for r
  proof -
    have "rec_entry r \<in> key_of ?sl ` set (ch 0)" using set that(1) by (simp add: ks sl_keys_def)
    then obtain a where a: "a \<in> set (ch 0)" "key_of ?sl a = rec_entry r" by auto
    moreover have "a \<notin> set (takeWhile ?B (ch 0))" using set_takeWhileD [of a ?B "ch 0"] bef [OF that(1) a(2)] that(2) by blast
    ultimately show ?thesis by (metis Un_iff set_append takeWhile_dropWhile_id)
  qed
  show ?thesis
  proof (cases "dropWhile ?B (ch 0)")
    case Nil
    then have "\<forall>r \<in> set rs. \<not> vis r" using pos by (metis empty_iff empty_set)
    then show ?thesis using seek Nil by (simp add: pointer_to_def del: dropWhile_eq_Nil_conv)
  next
    case (Cons a q)
    have a: "a \<in> set (ch 0)" by (metis Cons list.set_intros(1) set_dropWhileD)
    obtain r where r: "r \<in> set rs" "key_of ?sl a = rec_entry r" using node [OF a] by blast
    have "vis r" using hd_dropWhile [of ?B "ch 0"] Cons bef [OF r] by simp
    moreover have "r' = r \<or> ?C (rec_entry r) (rec_entry r') < 0" if r': "r' \<in> set rs" "vis r'" for r'
    proof -
      obtain a' where a': "a' \<in> set (a # q)" "key_of ?sl a' = rec_entry r'" using pos [OF r'] Cons by auto
      have "sorted_wrt (\<lambda>a b. ?C (key_of ?sl a) (key_of ?sl b) < 0) (takeWhile ?B (ch 0) @ a # q)"
        using sl_okD(8) [OF ok m0] Cons by (metis takeWhile_dropWhile_id)
      then have "a' = a \<or> ?C (key_of ?sl a) (key_of ?sl a') < 0" using a'(1) by (auto simp: sorted_wrt_append)
      then have "rec_entry r' = rec_entry r \<or> ?C (rec_entry r) (rec_entry r') < 0" unfolding a'(2) [symmetric] r(2) [symmetric] by blast
      then show ?thesis using rec_entry_inj [OF fits [OF r'(1)] fits [OF r(1)]] by blast
    qed
    moreover have "Iter_key ?sl (Some a) = Some (rec_entry r)"
      using Node_key_of sl_okD(10) [OF ok m0 a] r(2) by (simp add: Iter_key_def)
    moreover have "Iter_Valid (Some a)" by (simp add: Iter_Valid_def)
    moreover have "Iter_Seek ?C ?sl ?lk = Some (Some a)" using seek Cons by (simp add: pointer_to_def)
    ultimately show ?thesis using r(1) by (metis (lifting))
  qed
qed

lemma find_newest:
  assumes "sorted_wrt (\<lambda>r r'. fst r' < (fst r :: u64)) rs" "r \<in> set rs" "P r" "\<And>r'. r' \<in> set rs \<Longrightarrow> P r' \<Longrightarrow> r' = r \<or> fst r' < fst r"
  shows "find P rs = Some r"
  using assms
proof (induction rs)
  case (Cons x rs)
  show ?case
  proof (cases "P x")
    case True
    then have "x = r \<or> fst x < fst r" using Cons.prems(4) [of x] by simp
    moreover have "r = x \<or> fst r < fst x" using Cons.prems(1,2) by auto
    ultimately show ?thesis using True by auto
  next
    case False
    then show ?thesis using Cons by auto
  qed
qed simp

lemma Get_repr:
  assumes rep: "mem_repr user_compare m rs" and s: "s \<le> kMaxSequenceNumber" and u: "length u + 8 < 2 ^ 32"
  shows "MemTable_Get user_compare (LookupKey_new u s) m = Some (mem_lookup user_compare u s rs)"
proof -
  define vis where "vis = (\<lambda>(s' :: u64, t :: ValueType, k, v :: bytes). user_compare k u > 0 \<or> user_compare k u = 0 \<and> s' \<le> s)"
  define P where "P = (\<lambda>(s' :: u64, t :: ValueType, k, v :: bytes). user_compare k u = 0 \<and> s' \<le> s)"
  have ml: "mem_lookup user_compare u s rs = (case find P rs of None \<Rightarrow> GetNothing
      | Some (_, kTypeValue, _, v) \<Rightarrow> GetValue v | Some (_, kTypeDeletion, _, _) \<Rightarrow> GetStatus (NotFound [] []))"
    by (simp add: mem_lookup_def P_def)
  have lu: "lookup_user_key (LookupKey_new u s) = u" by (simp add: lookup_user_key_def LookupKey_new_def Let_def size_simps)
  have fits: "rec_fits r" if "r \<in> set rs" for r using rep that by (auto simp: mem_repr_def)
  have Pvis: "P r \<Longrightarrow> vis r" for r by (auto simp: P_def vis_def)
  obtain node where seek: "Iter_Seek (MemTable_Compare user_compare) (mt_table m) (memtable_key (LookupKey_new u s)) = Some node"
    and node: "if \<forall>r \<in> set rs. \<not> vis r then node = None
       else \<exists>r \<in> set rs. vis r \<and> Iter_Valid node \<and> Iter_key (mt_table m) node = Some (rec_entry r)
         \<and> (\<forall>r' \<in> set rs. vis r' \<longrightarrow> r' = r \<or> MemTable_Compare user_compare (rec_entry r) (rec_entry r') < 0)"
    using Seek_entries [OF assms, folded vis_def] by blast
  show ?thesis
  proof (cases "\<forall>r \<in> set rs. \<not> vis r")
    case True
    then have "find P rs = None" using Pvis by (auto simp: find_None_iff)
    then show ?thesis using True node by (simp add: ml MemTable_Get_def seek Iter_Valid_def)
  next
    case False
    have "\<exists>r \<in> set rs. vis r \<and> Iter_Valid node \<and> Iter_key (mt_table m) node = Some (rec_entry r)
         \<and> (\<forall>r' \<in> set rs. vis r' \<longrightarrow> r' = r \<or> MemTable_Compare user_compare (rec_entry r) (rec_entry r') < 0)"
      using node unfolding if_not_P [OF False] .
    then obtain s' t k v where r: "(s', t, k, v) \<in> set rs" "vis (s', t, k, v)" "Iter_Valid node"
        "Iter_key (mt_table m) node = Some (rec_entry (s', t, k, v))"
      and least: "\<forall>r' \<in> set rs. vis r' \<longrightarrow> r' = (s', t, k, v) \<or> MemTable_Compare user_compare (rec_entry (s', t, k, v)) (rec_entry r') < 0"
      by (metis prod_cases4)
    have other: "r' = (s', t, k, v) \<or> user_compare k u < 0 \<or> user_compare k u = 0 \<and> fst r' < s'"
      if r': "r' \<in> set rs" "P r'" for r'
    proof -
      obtain s2 t2 k2 v2 where r2: "r' = (s2, t2, k2, v2)" by (cases r')
      have k2: "user_compare k2 u = 0" using r'(2) by (simp add: P_def r2)
      have "r' = (s', t, k, v)" if "s2 = s'"
        using sorted_fst_inj [of rs r' "(s', t, k, v)"] rep r'(1) r(1) that by (simp add: mem_repr_def r2)
      moreover have "user_compare k k2 < 0 \<or> user_compare k k2 = 0 \<and> s2 < s'" if "s2 \<noteq> s'"
        using least r' Pvis [OF r'(2)] that rec_entry_less [OF fits [OF r(1)], of s2 t2 k2 v2] fits [OF r'(1)] by (auto simp: r2)
      moreover have "user_compare k u < 0" if "user_compare k k2 < 0"
        using Compare_less_trans [of k k2 u] k2 that by simp
      moreover have "user_compare k u = 0" if "user_compare k k2 = 0"
        using Compare_trans [of k k2 u] Compare_trans [of u k2 k] Compare_eq_sym [of k2 u] Compare_eq_sym [of k k2] Compare_ge_flip [of k u] k2 that by auto
      ultimately show ?thesis by (auto simp: r2)
    qed
    have "find P rs = (if user_compare k u = 0 then Some (s', t, k, v) else None)"
    proof (cases "user_compare k u = 0")
      case True
      have "r' = (s', t, k, v) \<or> fst r' < fst (s', t, k, v)" if "r' \<in> set rs" "P r'" for r'
        using other [OF that] True by auto
      moreover have "P (s', t, k, v)" using r(2) True by (auto simp: P_def vis_def)
      ultimately show ?thesis using find_newest [OF _ r(1), of P] rep True by (simp add: mem_repr_def)
    next
      case ne: False
      then have "\<not> P (s', t, k, v)" "0 < user_compare k u" using r(2) by (auto simp: P_def vis_def)
      then have "\<not> P r'" if "r' \<in> set rs" for r'
        using other [OF that] by fastforce
      then show ?thesis using ne by (auto simp: find_None_iff)
    qed
    moreover have "MemTable_Get user_compare (LookupKey_new u s) m = Some (if user_compare k u = 0
        then (case t of kTypeValue \<Rightarrow> GetValue v | kTypeDeletion \<Rightarrow> GetStatus (NotFound [] [])) else GetNothing)"
      using seek r(3,4) fits [OF r(1)] MemTable_entry_slice [of k s' t v] entry_slice_encode [of v "[]"]
      by (cases t) (simp_all add: MemTable_Get_def lu InternalKey_new_def AppendInternalKey_eq size_simps Pack_low DecodeFixed64_EncodeFixed64 [where rest = "[]", simplified])
    ultimately show ?thesis by (simp add: ml split: ValueType.split)
  qed
qed

end

subsection \<open>Batches in a memtable\<close>

text \<open>The handler of a batch adds to a memtable that may have failed an assertion before.\<close>

definition Add_to :: "(bytes \<Rightarrow> bytes \<Rightarrow> int) \<Rightarrow> (nat \<Rightarrow> nat option) \<Rightarrow> u64 \<Rightarrow> ValueType \<Rightarrow> bytes \<Rightarrow> bytes \<Rightarrow> MemTable option \<Rightarrow> MemTable option" where
  "Add_to user_compare junk s t k v m = do { m \<leftarrow> m; MemTable_Add user_compare junk s t k v m }"

fun op_record :: "u64 \<Rightarrow> op \<Rightarrow> mrec" where
  "op_record s (PutOp k v) = (s, kTypeValue, k, v)"
| "op_record s (DeleteOp k) = (s, kTypeDeletion, k, [])"

fun op_records :: "u64 \<Rightarrow> op list \<Rightarrow> mrec list" where
  "op_records s [] = []"
| "op_records s (x # xs) = op_records (s + 1) xs @ [op_record s x]"

lemma insert_ops_record: "op_record s x = (s, t, k, v) \<Longrightarrow> insert_ops Add s (x # ops) m = insert_ops Add (s + 1) ops (Add s t k v m)"
  by (cases x) auto

fun op_fits_memtable :: "op \<Rightarrow> bool" where
  "op_fits_memtable (PutOp k v) = (length k + 8 < 2 ^ 32 \<and> length v < 2 ^ 32)"
| "op_fits_memtable (DeleteOp k) = (length k + 8 < 2 ^ 32)"

context user_comparator
begin

lemma insert_ops_repr:
  assumes "mem_repr user_compare m rs" "\<forall>x \<in> set ops. op_fits_memtable x" "\<forall>r \<in> set rs. fst r < s"
    and "unat s + length ops \<le> 2 ^ 56 - 1"
  shows "\<exists>m'. insert_ops (Add_to user_compare junk) s ops (Some m) = Some m' \<and> mem_repr user_compare m' (op_records s ops @ rs)"
  using assms
proof (induction ops arbitrary: s m rs)
  case (Cons x ops)
  let ?r = "op_record s x"
  have s: "s \<le> kMaxSequenceNumber" using Cons.prems(4) by (simp add: word_le_nat_alt kMaxSequenceNumber_def)
  have next_s: "unat (s + 1) = unat s + 1" using Cons.prems(4) by (simp add: unat_word_ariths)
  have fits: "rec_fits ?r" using Cons.prems(2) s by (cases x) simp_all
  obtain t k v where r: "?r = (s, t, k, v)" by (cases x) simp_all
  obtain m' where m': "MemTable_Add user_compare junk s t k v m = Some m'" "mem_repr user_compare m' (?r # rs)"
    using Add_repr [OF Cons.prems(1) fits [unfolded r] Cons.prems(3)] r by metis
  have step: "insert_ops (Add_to user_compare junk) s (x # ops) (Some m) = insert_ops (Add_to user_compare junk) (s + 1) ops (Some m')"
    using insert_ops_record [OF r, of "Add_to user_compare junk" ops "Some m"] m'(1) by (simp add: Add_to_def)
  have "\<forall>r \<in> set (?r # rs). fst r < s + 1"
    using Cons.prems(3) next_s by (cases x) (auto simp: word_less_nat_alt)
  then show ?case using Cons.IH [OF m'(2), of "s + 1"] Cons.prems(2,4) next_s step by auto
qed simp

lemma InsertInto_repr:
  assumes "mem_repr user_compare m rs" "\<forall>x \<in> set ops. op_fits_memtable x" "\<forall>r \<in> set rs. fst r < s"
    and "unat s + length ops \<le> 2 ^ 56 - 1"
  shows "\<exists>b m'. build_batch ops WriteBatch_new = Some b
    \<and> InsertInto (Add_to user_compare junk) (SetSequence b s) (Some m) = Some (Status_OK, Some m')
    \<and> mem_repr user_compare m' (op_records s ops @ rs)"
proof -
  have "op_fits x" if "op_fits_memtable x" for x using that by (cases x) auto
  then have fits: "\<forall>x \<in> set ops. op_fits x" using assms(2) by blast
  show ?thesis using insert_ops_repr [OF assms, of junk]
    by (auto simp: WriteBatch_new_encode build_batch_encode SetSequence_encode InsertInto_def batch_parts Iterate_encode [OF fits] fold_inserter)
qed

end

fun write_batches :: "(bytes \<Rightarrow> bytes \<Rightarrow> int) \<Rightarrow> (nat \<Rightarrow> nat option) \<Rightarrow> u64 \<Rightarrow> op list list \<Rightarrow> MemTable \<Rightarrow> MemTable option" where
  "write_batches user_compare junk s [] m = Some m"
| "write_batches user_compare junk s (ops # batches) m = do {
     b \<leftarrow> build_batch ops WriteBatch_new;
     (st, m) \<leftarrow> InsertInto (Add_to user_compare junk) (SetSequence b s) (Some m);
     m \<leftarrow> m;
     write_batches user_compare junk (s + of_nat (length ops)) batches m }"

lemma op_records_append: "op_records s (xs @ ys) = op_records (s + of_nat (length xs)) ys @ op_records s xs"
  by (induction xs arbitrary: s) (simp_all add: add.assoc add.left_commute)

lemma op_records_less: "unat s + length ops \<le> 2 ^ 56 - 1 \<Longrightarrow> r \<in> set (op_records s ops) \<Longrightarrow> fst r < s + of_nat (length ops)"
proof (induction ops arbitrary: s)
  case (Cons x ops)
  have n: "unat (s + 1) = unat s + 1" "unat (s + of_nat (length (x # ops))) = unat s + length (x # ops)"
    using Cons.prems(1) by (simp_all add: unat_word_ariths unat_of_nat)
  show ?case
  proof (cases "r \<in> set (op_records (s + 1) ops)")
    case True
    then show ?thesis using Cons.IH [of "s + 1"] Cons.prems(1) n by (simp add: add.assoc)
  next
    case False
    then have "fst r = s" using Cons.prems(2) by (cases x) auto
    then show ?thesis using n by (simp add: word_less_nat_alt)
  qed
qed simp

context user_comparator
begin

lemma write_batches_repr:
  assumes "mem_repr user_compare m rs" "\<forall>ops \<in> set batches. \<forall>x \<in> set ops. op_fits_memtable x" "\<forall>r \<in> set rs. fst r < s"
    and "unat s + length (concat batches) \<le> 2 ^ 56 - 1"
  shows "\<exists>m'. write_batches user_compare junk s batches m = Some m' \<and> mem_repr user_compare m' (op_records s (concat batches) @ rs)"
  using assms
proof (induction batches arbitrary: s m rs)
  case (Cons ops batches)
  have b: "unat s + length ops \<le> 2 ^ 56 - 1" using Cons.prems(4) by simp
  have n: "unat (s + of_nat (length ops)) = unat s + length ops" using b by (simp add: unat_word_ariths unat_of_nat)
  obtain c m' where "build_batch ops WriteBatch_new = Some c"
      "InsertInto (Add_to user_compare junk) (SetSequence c s) (Some m) = Some (Status_OK, Some m')"
    and rep: "mem_repr user_compare m' (op_records s ops @ rs)"
    using InsertInto_repr [OF Cons.prems(1) _ Cons.prems(3) b] Cons.prems(2) by (metis list.set_intros(1))
  then have "write_batches user_compare junk s (ops # batches) m = write_batches user_compare junk (s + of_nat (length ops)) batches m'"
    by simp
  moreover have "s \<le> s + of_nat (length ops)" using n by (simp add: word_le_nat_alt)
  then have "\<forall>r \<in> set (op_records s ops @ rs). fst r < s + of_nat (length ops)"
    using op_records_less [OF b] Cons.prems(3) by fastforce
  ultimately show ?case using Cons.IH [OF rep, of "s + of_nat (length ops)"] Cons.prems(2,4) n by (simp add: op_records_append)
qed simp

end

text \<open>
  (C5) A memtable returns what was written to it. After any number of write batches was inserted into a new
  memtable, each with the sequence number that follows the last one, \<open>Get\<close> at a sequence number \<open>s\<close> returns
  for each user key the newest of its operations that has a number of at most \<open>s\<close>: the value of a put, \<open>NotFound\<close>
  for a delete, and nothing when there is none. All insertions and reads return.
\<close>

theorem MemTable_Get_newest_visible:
  assumes "\<forall>ops \<in> set batches. \<forall>x \<in> set ops. op_fits_memtable x" "length (concat batches) \<le> 2 ^ 56 - 2"
    and "s \<le> kMaxSequenceNumber" "length u + 8 < 2 ^ 32"
  shows "\<exists>m. write_batches Bytewise_Compare junk 1 batches MemTable_new = Some m
    \<and> MemTable_Get Bytewise_Compare (LookupKey_new u s) m = Some (mem_lookup Bytewise_Compare u s (op_records 1 (concat batches)))"
proof -
  obtain m where "write_batches Bytewise_Compare junk 1 batches MemTable_new = Some m" "mem_repr Bytewise_Compare m (op_records 1 (concat batches))"
    using bytewise_user.write_batches_repr [OF MemTable_new_repr assms(1), of 1 junk] assms(2) by auto
  then show ?thesis using bytewise_user.Get_repr [OF _ assms(3,4)] by blast
qed

theorem MemTable_Get_newest_visible_witness:
  "(\<exists>m. write_batches Bytewise_Compare (\<lambda>_. None) 1 [[PutOp [97] [1], PutOp [98] [2]], [DeleteOp [97]]] MemTable_new = Some m
    \<and> MemTable_Get Bytewise_Compare (LookupKey_new [97] 2) m = Some (GetValue [1]))
  \<and> (\<exists>m. write_batches Bytewise_Compare (\<lambda>_. None) 1 [[PutOp [97] [1], PutOp [98] [2]], [DeleteOp [97]]] MemTable_new = Some m
    \<and> MemTable_Get Bytewise_Compare (LookupKey_new [97] 3) m = Some (GetStatus (NotFound [] [])))"
  using MemTable_Get_newest_visible [of "[[PutOp [97] [1], PutOp [98] [2]], [DeleteOp [97]]]" 2 "[97]" "\<lambda>_. None"]
    MemTable_Get_newest_visible [of "[[PutOp [97] [1], PutOp [98] [2]], [DeleteOp [97]]]" 3 "[97]" "\<lambda>_. None"]
  by (simp add: mem_lookup_def Bytewise_Compare_lex kMaxSequenceNumber_def)

end
