(* ===== verification/Iterators.thy ===== *)
theory Iterators
  imports Comparator Status "HOL-Library.Monad_Syntax"
begin

section \<open>The iterator interface (leveldb/iterator.h, table/iterator.cc, table/iterator_wrapper.h)\<close>

text \<open>
  The virtual methods of the class \<open>Iterator\<close> are a record of functions on the state of an object; \<open>None\<close> is a failed
  assertion or a call that does not return. The locale \<open>db_iterator\<close> is the contract of the header: an iterator
  stands at a position of a sorted list of entries, and behind the last one when it is not valid. The
  providers (blocks, memtables, merged and concatenated iterators) show the laws, the clients are proved from them.
\<close>

record 'it Iterator =
  v_Valid :: "'it \<Rightarrow> bool"
  v_SeekToFirst :: "'it \<Rightarrow> 'it option"
  v_SeekToLast :: "'it \<Rightarrow> 'it option"
  v_Seek :: "bytes \<Rightarrow> 'it \<Rightarrow> 'it option"
  v_Next :: "'it \<Rightarrow> 'it option"
  v_Prev :: "'it \<Rightarrow> 'it option"
  v_key :: "'it \<Rightarrow> bytes option"
  v_value :: "'it \<Rightarrow> bytes option"
  v_status :: "'it \<Rightarrow> Status"

text \<open>The cleanup functions of an iterator: the head node is inlined, further ones are pushed behind it.\<close>

record 'f CleanupList =
  cl_head :: "'f option"
  cl_rest :: "'f list"

definition CleanupList_new :: "'f CleanupList" where
  "CleanupList_new = \<lparr>cl_head = None, cl_rest = []\<rparr>"

definition RegisterCleanup :: "'f \<Rightarrow> 'f CleanupList \<Rightarrow> 'f CleanupList" where
  "RegisterCleanup f this =
     (case cl_head this of None \<Rightarrow> this\<lparr>cl_head := Some f\<rparr> | Some _ \<Rightarrow> this\<lparr>cl_rest := f # cl_rest this\<rparr>)"

definition run_cleanups :: "('f \<Rightarrow> 's \<Rightarrow> 's) \<Rightarrow> 'f CleanupList \<Rightarrow> 's \<Rightarrow> 's" where
  "run_cleanups call this s =
     (case cl_head this of None \<Rightarrow> s | Some f \<Rightarrow> fold call (cl_rest this) (call f s))"

definition EmptyIterator :: "Status Iterator" where
  "EmptyIterator = \<lparr>v_Valid = (\<lambda>_. False), v_SeekToFirst = Some, v_SeekToLast = Some, v_Seek = (\<lambda>_. Some),
     v_Next = (\<lambda>_. None), v_Prev = (\<lambda>_. None), v_key = (\<lambda>_. None), v_value = (\<lambda>_. None), v_status = (\<lambda>s. s)\<rparr>"

definition NewEmptyIterator :: Status where "NewEmptyIterator = Status_OK"

definition NewErrorIterator :: "Status \<Rightarrow> Status" where "NewErrorIterator status = status"

subsection \<open>The wrapper that caches validity and key\<close>

record 'it IteratorWrapper =
  w_iter :: "'it option"
  w_valid :: bool
  w_key :: bytes

definition Wrapper_new :: "'it IteratorWrapper" where
  "Wrapper_new = \<lparr>w_iter = None, w_valid = False, w_key = []\<rparr>"

definition Wrapper_Update :: "'it Iterator \<Rightarrow> 'it \<Rightarrow> 'it IteratorWrapper \<Rightarrow> 'it IteratorWrapper option" where
  "Wrapper_Update I it this =
     (if v_Valid I it
      then do { k \<leftarrow> v_key I it; Some (this\<lparr>w_iter := Some it, w_valid := True, w_key := k\<rparr>) }
      else Some (this\<lparr>w_iter := Some it, w_valid := False\<rparr>))"

definition Wrapper_Set :: "'it Iterator \<Rightarrow> 'it option \<Rightarrow> 'it IteratorWrapper \<Rightarrow> 'it IteratorWrapper option" where
  "Wrapper_Set I it this =
     (case it of None \<Rightarrow> Some (this\<lparr>w_iter := None, w_valid := False\<rparr>) | Some it \<Rightarrow> Wrapper_Update I it this)"

definition Wrapper_key :: "'it IteratorWrapper \<Rightarrow> bytes option" where
  "Wrapper_key this = (if w_valid this then Some (w_key this) else None)"

definition Wrapper_value :: "'it Iterator \<Rightarrow> 'it IteratorWrapper \<Rightarrow> bytes option" where
  "Wrapper_value I this = (if w_valid this then do { it \<leftarrow> w_iter this; v_value I it } else None)"

definition Wrapper_status :: "'it Iterator \<Rightarrow> 'it IteratorWrapper \<Rightarrow> Status option" where
  "Wrapper_status I this = map_option (v_status I) (w_iter this)"

definition Wrapper_Next :: "'it Iterator \<Rightarrow> 'it IteratorWrapper \<Rightarrow> 'it IteratorWrapper option" where
  "Wrapper_Next I this = do { it \<leftarrow> w_iter this; it \<leftarrow> v_Next I it; Wrapper_Update I it this }"

definition Wrapper_Prev :: "'it Iterator \<Rightarrow> 'it IteratorWrapper \<Rightarrow> 'it IteratorWrapper option" where
  "Wrapper_Prev I this = do { it \<leftarrow> w_iter this; it \<leftarrow> v_Prev I it; Wrapper_Update I it this }"

definition Wrapper_Seek :: "'it Iterator \<Rightarrow> bytes \<Rightarrow> 'it IteratorWrapper \<Rightarrow> 'it IteratorWrapper option" where
  "Wrapper_Seek I k this = do { it \<leftarrow> w_iter this; it \<leftarrow> v_Seek I k it; Wrapper_Update I it this }"

definition Wrapper_SeekToFirst :: "'it Iterator \<Rightarrow> 'it IteratorWrapper \<Rightarrow> 'it IteratorWrapper option" where
  "Wrapper_SeekToFirst I this = do { it \<leftarrow> w_iter this; it \<leftarrow> v_SeekToFirst I it; Wrapper_Update I it this }"

definition Wrapper_SeekToLast :: "'it Iterator \<Rightarrow> 'it IteratorWrapper \<Rightarrow> 'it IteratorWrapper option" where
  "Wrapper_SeekToLast I this = do { it \<leftarrow> w_iter this; it \<leftarrow> v_SeekToLast I it; Wrapper_Update I it this }"

subsection \<open>The contract\<close>

text \<open>The entries an iterator yields from where it stands, in at most \<open>n\<close> steps of the given move.\<close>

fun scan :: "'it Iterator \<Rightarrow> ('it \<Rightarrow> 'it option) \<Rightarrow> nat \<Rightarrow> 'it \<Rightarrow> (bytes \<times> bytes) list option" where
  "scan I move 0 it = (if v_Valid I it then None else Some [])"
| "scan I move (Suc n) it =
     (if v_Valid I it
      then do { k \<leftarrow> v_key I it; v \<leftarrow> v_value I it; it \<leftarrow> move it; r \<leftarrow> scan I move n it; Some ((k, v) # r) }
      else Some [])"

definition sorted_entries :: "(bytes \<Rightarrow> bytes \<Rightarrow> int) \<Rightarrow> (bytes \<Rightarrow> bool) \<Rightarrow> (bytes \<times> bytes) list \<Rightarrow> bool" where
  "sorted_entries Compare valid es \<longleftrightarrow> sorted_wrt (\<lambda>a b. Compare (fst a) (fst b) < 0) es \<and> (\<forall>e \<in> set es. valid (fst e))"

text \<open>The position of the first entry at or past a target.\<close>

definition seek_pos :: "(bytes \<Rightarrow> bytes \<Rightarrow> int) \<Rightarrow> bytes \<Rightarrow> (bytes \<times> bytes) list \<Rightarrow> nat" where
  "seek_pos Compare target es = length (takeWhile (\<lambda>e. Compare (fst e) target < 0) es)"

lemma seek_pos_le: "seek_pos Compare target es \<le> length es"
  by (simp add: seek_pos_def length_takeWhile_le)

locale db_iterator =
  fixes I :: "'it Iterator"
    and Compare :: "bytes \<Rightarrow> bytes \<Rightarrow> int"
    and valid :: "bytes \<Rightarrow> bool"
    and repr :: "'it \<Rightarrow> (bytes \<times> bytes) list \<Rightarrow> nat \<Rightarrow> bool"
  assumes repr_entries: "repr it es i \<Longrightarrow> i \<le> length es \<and> sorted_entries Compare valid es"
    and repr_status: "repr it es i \<Longrightarrow> v_status I it = Status_OK"
    and repr_Valid: "repr it es i \<Longrightarrow> v_Valid I it \<longleftrightarrow> i < length es"
    and repr_entry: "repr it es i \<Longrightarrow> i < length es \<Longrightarrow> v_key I it = Some (fst (es ! i)) \<and> v_value I it = Some (snd (es ! i))"
    and repr_SeekToFirst: "repr it es i \<Longrightarrow> \<exists>it'. v_SeekToFirst I it = Some it' \<and> repr it' es 0"
    and repr_SeekToLast: "repr it es i \<Longrightarrow> \<exists>it'. v_SeekToLast I it = Some it' \<and> repr it' es (length es - 1)"
    and repr_Seek: "repr it es i \<Longrightarrow> valid target \<Longrightarrow> \<exists>it'. v_Seek I target it = Some it' \<and> repr it' es (seek_pos Compare target es)"
    and repr_Next: "repr it es i \<Longrightarrow> i < length es \<Longrightarrow> \<exists>it'. v_Next I it = Some it' \<and> repr it' es (Suc i)"
    and repr_Prev: "repr it es i \<Longrightarrow> i < length es \<Longrightarrow> \<exists>it'. v_Prev I it = Some it' \<and> repr it' es (if i = 0 then length es else i - 1)"
begin

lemma scan_forward:
  assumes "repr it es i" "length es - i \<le> n"
  shows "scan I (v_Next I) n it = Some (drop i es)"
  using assms
proof (induction n arbitrary: it i)
  case 0
  then show ?case using repr_Valid [OF 0(1)] by simp
next
  case (Suc n)
  show ?case
  proof (cases "i < length es")
    case True
    obtain it' where "v_Next I it = Some it'" "repr it' es (Suc i)" using repr_Next [OF Suc.prems(1) True] by blast
    then show ?thesis using Suc.IH [of it' "Suc i"] Suc.prems repr_Valid [OF Suc.prems(1)] repr_entry [OF Suc.prems(1) True] True
      by (simp add: Cons_nth_drop_Suc [symmetric])
  next
    case False
    then show ?thesis using repr_Valid [OF Suc.prems(1)] by simp
  qed
qed

lemma scan_backward:
  assumes "repr it es i" "i < length es" "Suc i \<le> n"
  shows "scan I (v_Prev I) n it = Some (rev (take (Suc i) es))"
  using assms
proof (induction n arbitrary: it i)
  case (Suc n)
  obtain it' where p: "v_Prev I it = Some it'" "repr it' es (if i = 0 then length es else i - 1)" using repr_Prev [OF Suc.prems(1,2)] by blast
  have "scan I (v_Prev I) n it' = Some (rev (take i es))"
  proof (cases "i = 0")
    case True
    then show ?thesis using p(2) repr_Valid [of it' es "length es"] by (cases n) auto
  next
    case False
    then show ?thesis using Suc.IH [of it' "i - 1"] p(2) Suc.prems by simp
  qed
  then show ?case using p(1) repr_Valid [OF Suc.prems(1)] repr_entry [OF Suc.prems(1,2)] Suc.prems(2)
    by (simp add: take_Suc_conv_app_nth)
qed simp

end

text \<open>The state of a wrapper whose iterator stands at a position.\<close>

definition wrapper_repr :: "('it \<Rightarrow> (bytes \<times> bytes) list \<Rightarrow> nat \<Rightarrow> bool) \<Rightarrow> 'it IteratorWrapper \<Rightarrow> (bytes \<times> bytes) list \<Rightarrow> nat \<Rightarrow> bool" where
  "wrapper_repr repr w es i \<longleftrightarrow> (\<exists>it. w_iter w = Some it \<and> repr it es i) \<and> w_valid w = (i < length es) \<and> (i < length es \<longrightarrow> w_key w = fst (es ! i))"

context db_iterator
begin

lemma Update_repr:
  assumes "repr it es i"
  shows "\<exists>w'. Wrapper_Update I it w = Some w' \<and> wrapper_repr repr w' es i"
  using assms repr_Valid [OF assms] repr_entry [OF assms] by (cases "i < length es") (auto simp: Wrapper_Update_def wrapper_repr_def)

lemma Wrapper_Set_repr: "repr it es i \<Longrightarrow> \<exists>w'. Wrapper_Set I (Some it) w = Some w' \<and> wrapper_repr repr w' es i"
  by (simp add: Wrapper_Set_def Update_repr)

lemma Wrapper_move_repr:
  assumes "wrapper_repr repr w es i"
  shows "\<exists>w'. Wrapper_SeekToFirst I w = Some w' \<and> wrapper_repr repr w' es 0"
    "\<exists>w'. Wrapper_SeekToLast I w = Some w' \<and> wrapper_repr repr w' es (length es - 1)"
    "valid target \<Longrightarrow> \<exists>w'. Wrapper_Seek I target w = Some w' \<and> wrapper_repr repr w' es (seek_pos Compare target es)"
    "i < length es \<Longrightarrow> \<exists>w'. Wrapper_Next I w = Some w' \<and> wrapper_repr repr w' es (Suc i)"
    "i < length es \<Longrightarrow> \<exists>w'. Wrapper_Prev I w = Some w' \<and> wrapper_repr repr w' es (if i = 0 then length es else i - 1)"
proof -
  obtain it where w: "w_iter w = Some it" and r: "repr it es i" using assms by (auto simp: wrapper_repr_def)
  have U: "\<exists>w'. do { it \<leftarrow> w_iter w; it \<leftarrow> f it; Wrapper_Update I it w } = Some w' \<and> wrapper_repr repr w' es j"
    if "\<exists>it'. f it = Some it' \<and> repr it' es j" for f j
    using that w Update_repr by auto
  show "\<exists>w'. Wrapper_SeekToFirst I w = Some w' \<and> wrapper_repr repr w' es 0"
    unfolding Wrapper_SeekToFirst_def by (rule U) (rule repr_SeekToFirst [OF r])
  show "\<exists>w'. Wrapper_SeekToLast I w = Some w' \<and> wrapper_repr repr w' es (length es - 1)"
    unfolding Wrapper_SeekToLast_def by (rule U) (rule repr_SeekToLast [OF r])
  show "valid target \<Longrightarrow> \<exists>w'. Wrapper_Seek I target w = Some w' \<and> wrapper_repr repr w' es (seek_pos Compare target es)"
    unfolding Wrapper_Seek_def by (rule U) (rule repr_Seek [OF r])
  show "i < length es \<Longrightarrow> \<exists>w'. Wrapper_Next I w = Some w' \<and> wrapper_repr repr w' es (Suc i)"
    unfolding Wrapper_Next_def by (rule U) (rule repr_Next [OF r])
  show "i < length es \<Longrightarrow> \<exists>w'. Wrapper_Prev I w = Some w' \<and> wrapper_repr repr w' es (if i = 0 then length es else i - 1)"
    unfolding Wrapper_Prev_def by (rule U) (rule repr_Prev [OF r])
qed

lemma Wrapper_value_repr: "wrapper_repr repr w es i \<Longrightarrow> i < length es \<Longrightarrow> Wrapper_value I w = Some (snd (es ! i))"
  using repr_entry by (auto simp: Wrapper_value_def wrapper_repr_def)

lemma wrapper_repr_entries: "wrapper_repr repr w es i \<Longrightarrow> i \<le> length es \<and> sorted_entries Compare valid es"
  using repr_entries by (auto simp: wrapper_repr_def)

end

interpretation empty_iterator: db_iterator EmptyIterator Bytewise_Compare "\<lambda>_. True" "\<lambda>s es i. s = Status_OK \<and> es = [] \<and> i = 0"
  by unfold_locales (auto simp: EmptyIterator_def sorted_entries_def seek_pos_def)

subsection \<open>An iterator is a cursor\<close>

text \<open>The specification of an iterator: a position in the sorted list of entries, with the length as the position past the end.\<close>

datatype Move = MoveFirst | MoveLast | MoveSeek bytes | MoveNext | MovePrev

fun move_cursor :: "(bytes \<Rightarrow> bytes \<Rightarrow> int) \<Rightarrow> (bytes \<times> bytes) list \<Rightarrow> Move \<Rightarrow> nat \<Rightarrow> nat option" where
  "move_cursor Compare es MoveFirst i = Some 0"
| "move_cursor Compare es MoveLast i = Some (length es - 1)"
| "move_cursor Compare es (MoveSeek target) i = Some (seek_pos Compare target es)"
| "move_cursor Compare es MoveNext i = (if i < length es then Some (Suc i) else None)"
| "move_cursor Compare es MovePrev i = (if i < length es then Some (if i = 0 then length es else i - 1) else None)"

fun move_iterator :: "'it Iterator \<Rightarrow> Move \<Rightarrow> 'it \<Rightarrow> 'it option" where
  "move_iterator I MoveFirst it = v_SeekToFirst I it"
| "move_iterator I MoveLast it = v_SeekToLast I it"
| "move_iterator I (MoveSeek target) it = v_Seek I target it"
| "move_iterator I MoveNext it = v_Next I it"
| "move_iterator I MovePrev it = v_Prev I it"

fun moves :: "('m \<Rightarrow> 's \<Rightarrow> 's option) \<Rightarrow> 'm list \<Rightarrow> 's \<Rightarrow> 's option" where
  "moves f [] s = Some s"
| "moves f (m # ms) s = do { s \<leftarrow> f m s; moves f ms s }"

definition observe :: "'it Iterator \<Rightarrow> 'it \<Rightarrow> (bytes \<times> bytes) option option" where
  "observe I it = (if v_Valid I it then do { k \<leftarrow> v_key I it; v \<leftarrow> v_value I it; Some (Some (k, v)) } else Some None)"

context db_iterator
begin

lemma move_refines:
  assumes "repr it es i" "move_cursor Compare es m i = Some j" "\<forall>t. m = MoveSeek t \<longrightarrow> valid t"
  shows "\<exists>it'. move_iterator I m it = Some it' \<and> repr it' es j"
  using assms repr_SeekToFirst [OF assms(1)] repr_SeekToLast [OF assms(1)] repr_Seek [OF assms(1)] repr_Next [OF assms(1)] repr_Prev [OF assms(1)]
  by (cases m) (auto split: if_splits)

lemma moves_refine:
  assumes "repr it es i" "moves (move_cursor Compare es) ms i = Some j" "\<forall>t. MoveSeek t \<in> set ms \<longrightarrow> valid t"
  shows "\<exists>it'. moves (move_iterator I) ms it = Some it' \<and> repr it' es j"
  using assms
proof (induction ms arbitrary: it i)
  case (Cons m ms)
  then obtain i' where i': "move_cursor Compare es m i = Some i'" "moves (move_cursor Compare es) ms i' = Some j" by (auto split: Option.bind_splits)
  then obtain it' where "move_iterator I m it = Some it'" "repr it' es i'" using move_refines [OF Cons.prems(1) i'(1)] Cons.prems(3) by fastforce
  then show ?case using Cons.IH [OF _ i'(2)] Cons.prems(3) by auto
qed auto

lemma observe_repr: "repr it es i \<Longrightarrow> observe I it = Some (if i < length es then Some (es ! i) else None)"
  using repr_Valid [of it es i] repr_entry [of it es i] by (auto simp: observe_def)

end

end
