(* ===== verification/Block.thy ===== *)
theory Block
  imports DbFormat Iterators
begin

section \<open>Blocks (table/block_builder.cc, table/block.h, table/block.cc)\<close>

text \<open>
  A block is a sequence of entries and an array of restart points. The contents of a block are a byte list;
  pointers into it are offsets, which the source stores in 32 bits. An iterator's value is a slice of the block,
  its offset and size, or the static empty string (\<open>None\<close>). The outer \<open>None\<close> of an operation is a failed assertion, a
  read outside the contents or a loop that does not end.
\<close>

subsection \<open>The builder\<close>

record BlockBuilder =
  bb_buffer :: bytes
  bb_restarts :: "u32 list"
  bb_counter :: int
  bb_finished :: bool
  bb_last_key :: bytes

definition BlockBuilder_new :: "int \<Rightarrow> BlockBuilder option" where
  "BlockBuilder_new block_restart_interval =
     (if 1 \<le> block_restart_interval
      then Some \<lparr>bb_buffer = [], bb_restarts = [0], bb_counter = 0, bb_finished = False, bb_last_key = []\<rparr> else None)"

definition BlockBuilder_Reset :: "BlockBuilder \<Rightarrow> BlockBuilder" where
  "BlockBuilder_Reset this = this\<lparr>bb_buffer := [], bb_restarts := [0], bb_counter := 0, bb_finished := False, bb_last_key := []\<rparr>"

definition CurrentSizeEstimate :: "BlockBuilder \<Rightarrow> nat" where
  "CurrentSizeEstimate this = length (bb_buffer this) + length (bb_restarts this) * 4 + 4"

fun Finish_loop :: "bytes \<Rightarrow> u32 list \<Rightarrow> bytes" where
  "Finish_loop buffer [] = buffer"
| "Finish_loop buffer (r # restarts) = Finish_loop (PutFixed32 buffer r) restarts"

definition BlockBuilder_Finish :: "BlockBuilder \<Rightarrow> bytes \<times> BlockBuilder" where
  "BlockBuilder_Finish this =
     (let buffer = PutFixed32 (Finish_loop (bb_buffer this) (bb_restarts this)) (of_nat (length (bb_restarts this)))
      in (buffer, this\<lparr>bb_buffer := buffer, bb_finished := True\<rparr>))"

definition BlockBuilder_Add :: "int \<Rightarrow> (bytes \<Rightarrow> bytes \<Rightarrow> int) \<Rightarrow> bytes \<Rightarrow> bytes \<Rightarrow> BlockBuilder \<Rightarrow> BlockBuilder option" where
  "BlockBuilder_Add block_restart_interval compare key val this =
     (if bb_finished this \<or> \<not> bb_counter this \<le> block_restart_interval
         \<or> \<not> (bb_buffer this = [] \<or> 0 < compare key (bb_last_key this)) then None
      else
        let shared = 0;
            this = (if bb_counter this < block_restart_interval then this
                    else this\<lparr>bb_restarts := bb_restarts this @ [of_nat (length (bb_buffer this))], bb_counter := 0\<rparr>);
            non_shared = length key - shared;
            buffer = PutVarint32 (bb_buffer this) (of_nat shared);
            buffer = PutVarint32 buffer (of_nat non_shared);
            buffer = PutVarint32 buffer (of_nat (length val));
            buffer = buffer @ take non_shared (drop shared key);
            buffer = buffer @ val;
            last_key = take shared (bb_last_key this) @ take non_shared (drop shared key)
        in if last_key = key
           then Some (this\<lparr>bb_buffer := buffer, bb_last_key := last_key, bb_counter := bb_counter this + 1\<rparr>)
           else None)"

subsection \<open>Blocks and their iterators\<close>

record Block =
  bl_data :: bytes
  bl_size :: nat
  bl_restart_offset :: nat

definition NumRestarts :: "bytes \<Rightarrow> nat \<Rightarrow> u32 option" where
  "NumRestarts data sz = (if 4 \<le> sz then DecodeFixed32 (drop (sz - 4) data) else None)"

definition Block_new :: "bytes \<Rightarrow> Block option" where
  "Block_new contents =
     (let sz = length contents in
      if sz < 4 then Some \<lparr>bl_data = contents, bl_size = 0, bl_restart_offset = 0\<rparr>
      else do {
        n \<leftarrow> NumRestarts contents sz;
        let max_restarts_allowed = (sz - 4) div 4;
        if max_restarts_allowed < unat n then Some \<lparr>bl_data = contents, bl_size = 0, bl_restart_offset = 0\<rparr>
        else Some \<lparr>bl_data = contents, bl_size = sz, bl_restart_offset = (sz - unat (1 + n) * 4) mod 2 ^ 32\<rparr>
      })"

definition DecodeEntry :: "bytes \<Rightarrow> (u32 \<times> u32 \<times> u32 \<times> bytes) option" where
  "DecodeEntry p =
     (if length p < 3 then None
      else
        let shared = ucast (p ! 0) :: u32; non_shared = ucast (p ! 1) :: u32; value_length = ucast (p ! 2) :: u32 in do {
          (shared, non_shared, value_length, p) \<leftarrow>
            (if shared OR non_shared OR value_length < 128 then Some (shared, non_shared, value_length, drop 3 p)
             else do {
               (shared, p) \<leftarrow> GetVarint32Ptr p;
               (non_shared, p) \<leftarrow> GetVarint32Ptr p;
               (value_length, p) \<leftarrow> GetVarint32Ptr p;
               Some (shared, non_shared, value_length, p)
             });
          if of_nat (length p) < non_shared + value_length then None
          else Some (shared, non_shared, value_length, p)
        })"

record BlockIter =
  bi_data :: bytes
  bi_restarts :: nat
  bi_num_restarts :: nat
  bi_current :: nat
  bi_restart_index :: nat
  bi_key :: bytes
  bi_value :: "(nat \<times> nat) option"
  bi_status :: Status

definition BlockIter_new :: "bytes \<Rightarrow> nat \<Rightarrow> nat \<Rightarrow> BlockIter option" where
  "BlockIter_new data restarts num_restarts =
     (if 0 < num_restarts
      then Some \<lparr>bi_data = data, bi_restarts = restarts, bi_num_restarts = num_restarts, bi_current = restarts,
        bi_restart_index = num_restarts, bi_key = [], bi_value = None, bi_status = Status_OK\<rparr>
      else None)"

definition NextEntryOffset :: "BlockIter \<Rightarrow> nat option" where
  "NextEntryOffset this = do { (off, len) \<leftarrow> bi_value this; Some ((off + len) mod 2 ^ 32) }"

definition GetRestartPoint :: "BlockIter \<Rightarrow> nat \<Rightarrow> nat option" where
  "GetRestartPoint this index =
     (if index < bi_num_restarts this
      then map_option unat (DecodeFixed32 (drop (bi_restarts this + index * 4) (bi_data this))) else None)"

definition SeekToRestartPoint :: "nat \<Rightarrow> BlockIter \<Rightarrow> BlockIter option" where
  "SeekToRestartPoint index this = do {
     offset \<leftarrow> GetRestartPoint this index;
     Some (this\<lparr>bi_key := [], bi_restart_index := index, bi_value := Some (offset, 0)\<rparr>) }"

definition BlockIter_Valid :: "BlockIter \<Rightarrow> bool" where
  "BlockIter_Valid this \<longleftrightarrow> bi_current this < bi_restarts this"

definition BlockIter_key :: "BlockIter \<Rightarrow> bytes option" where
  "BlockIter_key this = (if BlockIter_Valid this then Some (bi_key this) else None)"

definition BlockIter_value :: "BlockIter \<Rightarrow> bytes option" where
  "BlockIter_value this =
     (if BlockIter_Valid this
      then do { (off, len) \<leftarrow> bi_value this;
                if off + len \<le> length (bi_data this) then Some (take len (drop off (bi_data this))) else None }
      else None)"

definition CorruptionError :: "BlockIter \<Rightarrow> BlockIter" where
  "CorruptionError this = this\<lparr>bi_current := bi_restarts this, bi_restart_index := bi_num_restarts this,
     bi_status := Corruption (bytes_of_string ''bad entry in block'') [], bi_key := [], bi_value := None\<rparr>"

function advance_restart_index :: "BlockIter \<Rightarrow> nat \<Rightarrow> nat option" where
  "advance_restart_index this i =
     (if i + 1 < bi_num_restarts this
      then (case GetRestartPoint this (i + 1) of None \<Rightarrow> None
        | Some r \<Rightarrow> if r < bi_current this then advance_restart_index this (i + 1) else Some i)
      else Some i)"
  by pat_completeness auto
termination
  by (relation "measure (\<lambda>(this, i). bi_num_restarts this - i)") auto

declare advance_restart_index.simps [simp del]

definition ParseNextKey :: "BlockIter \<Rightarrow> (bool \<times> BlockIter) option" where
  "ParseNextKey this = do {
     current \<leftarrow> NextEntryOffset this;
     if bi_restarts this \<le> current
     then Some (False, this\<lparr>bi_current := bi_restarts this, bi_restart_index := bi_num_restarts this\<rparr>)
     else case DecodeEntry (drop current (take (bi_restarts this) (bi_data this))) of
         None \<Rightarrow> Some (False, CorruptionError this)
       | Some (shared, non_shared, value_length, p) \<Rightarrow>
           if length (bi_key this) < unat shared then Some (False, CorruptionError this)
           else do {
             let pos = bi_restarts this - length p;
             let this = this\<lparr>bi_current := current,
                   bi_key := take (unat shared) (bi_key this) @ take (unat non_shared) (drop pos (bi_data this)),
                   bi_value := Some (pos + unat non_shared, unat value_length)\<rparr>;
             if length (bi_data this) < pos + unat non_shared then None
             else do {
               i \<leftarrow> advance_restart_index this (bi_restart_index this);
               Some (True, this\<lparr>bi_restart_index := i\<rparr>)
             }
           }
   }"

definition BlockIter_Next :: "BlockIter \<Rightarrow> BlockIter option" where
  "BlockIter_Next this = (if BlockIter_Valid this then map_option snd (ParseNextKey this) else None)"

fun Prev_restart :: "BlockIter \<Rightarrow> nat \<Rightarrow> nat \<Rightarrow> nat option option" where
  "Prev_restart this original i = do {
     r \<leftarrow> GetRestartPoint this i;
     if original \<le> r then (if i = 0 then Some None else Prev_restart this original (i - 1))
     else Some (Some i) }"

declare Prev_restart.simps [simp del]

text \<open>\<open>ParseNextKey\<close> is repeated while it succeeds and the entry ends before \<open>limit\<close>.\<close>

partial_function (option) parse_until :: "nat \<Rightarrow> BlockIter \<Rightarrow> BlockIter option" where
  "parse_until limit this = do {
     (ok, this) \<leftarrow> ParseNextKey this;
     if ok then do {
       e \<leftarrow> NextEntryOffset this;
       if e < limit then parse_until limit this else Some this
     }
     else Some this }"

definition BlockIter_Prev :: "BlockIter \<Rightarrow> BlockIter option" where
  "BlockIter_Prev this =
     (if BlockIter_Valid this then do {
        let original = bi_current this;
        r \<leftarrow> Prev_restart this original (bi_restart_index this);
        case r of
          None \<Rightarrow> Some (this\<lparr>bi_current := bi_restarts this, bi_restart_index := bi_num_restarts this\<rparr>)
        | Some i \<Rightarrow> do { this \<leftarrow> SeekToRestartPoint i (this\<lparr>bi_restart_index := i\<rparr>); parse_until original this }
      }
      else None)"

text \<open>The binary search: \<open>Inl\<close> when an entry at a restart point is corrupt.\<close>

definition restart_key :: "BlockIter \<Rightarrow> nat \<Rightarrow> bytes option option" where
  "restart_key this mid = do {
     region_offset \<leftarrow> GetRestartPoint this mid;
     case DecodeEntry (drop region_offset (take (bi_restarts this) (bi_data this))) of
       None \<Rightarrow> Some None
     | Some (shared, non_shared, value_length, p) \<Rightarrow>
         if shared \<noteq> 0 then Some None
         else if length (bi_data this) < bi_restarts this - length p + unat non_shared then None
         else Some (Some (take (unat non_shared) (drop (bi_restarts this - length p) (bi_data this)))) }"

function Seek_search :: "(bytes \<Rightarrow> bytes \<Rightarrow> int) \<Rightarrow> BlockIter \<Rightarrow> bytes \<Rightarrow> nat \<Rightarrow> nat \<Rightarrow> nat option option" where
  "Seek_search compare this target left right =
     (if left < right then
        (let mid = (left + right + 1) div 2 in
         case restart_key this mid of None \<Rightarrow> None
         | Some None \<Rightarrow> Some None
         | Some (Some mid_key) \<Rightarrow>
             if compare mid_key target < 0 then Seek_search compare this target mid right
             else Seek_search compare this target left (mid - 1))
      else Some (Some left))"
  by pat_completeness auto
termination
  by (relation "measure (\<lambda>(compare, this, target, left, right). right - left)") auto

declare Seek_search.simps [simp del]

partial_function (option) Seek_linear :: "(bytes \<Rightarrow> bytes \<Rightarrow> int) \<Rightarrow> bytes \<Rightarrow> BlockIter \<Rightarrow> BlockIter option" where
  "Seek_linear compare target this = do {
     (ok, this) \<leftarrow> ParseNextKey this;
     if \<not> ok \<or> 0 \<le> compare (bi_key this) target then Some this else Seek_linear compare target this }"

definition BlockIter_Seek :: "(bytes \<Rightarrow> bytes \<Rightarrow> int) \<Rightarrow> bytes \<Rightarrow> BlockIter \<Rightarrow> BlockIter option" where
  "BlockIter_Seek compare target this = do {
     r \<leftarrow> Seek_search compare this target 0 (bi_num_restarts this - 1);
     case r of None \<Rightarrow> Some (CorruptionError this)
     | Some left \<Rightarrow> do { this \<leftarrow> SeekToRestartPoint left this; Seek_linear compare target this } }"

definition BlockIter_SeekToFirst :: "BlockIter \<Rightarrow> BlockIter option" where
  "BlockIter_SeekToFirst this = do { this \<leftarrow> SeekToRestartPoint 0 this; map_option snd (ParseNextKey this) }"

definition BlockIter_SeekToLast :: "BlockIter \<Rightarrow> BlockIter option" where
  "BlockIter_SeekToLast this = do {
     this \<leftarrow> SeekToRestartPoint (bi_num_restarts this - 1) this;
     parse_until (bi_restarts this) this }"

text \<open>The search between two restart points that tables use for a position of a learned index.\<close>

function Seek_range_search :: "(bytes \<Rightarrow> bytes \<Rightarrow> int) \<Rightarrow> BlockIter \<Rightarrow> bytes \<Rightarrow> nat \<Rightarrow> nat \<Rightarrow> nat option option" where
  "Seek_range_search compare this target left right =
     (if left < right then
        (let mid = (left + right) div 2 in
         case restart_key this mid of None \<Rightarrow> None
         | Some None \<Rightarrow> Some None
         | Some (Some mid_key) \<Rightarrow>
             if compare mid_key target < 0 then Seek_range_search compare this target (mid + 1) right
             else Seek_range_search compare this target left mid)
      else Some (Some left))"
  by pat_completeness auto
termination
  by (relation "measure (\<lambda>(compare, this, target, left, right). right - left)") auto

declare Seek_range_search.simps [simp del]

definition BlockIter_Seek_range :: "(bytes \<Rightarrow> bytes \<Rightarrow> int) \<Rightarrow> nat \<Rightarrow> nat \<Rightarrow> bytes \<Rightarrow> BlockIter \<Rightarrow> BlockIter option" where
  "BlockIter_Seek_range compare left right target this = do {
     r \<leftarrow> Seek_range_search compare this target left right;
     case r of None \<Rightarrow> Some (CorruptionError this)
     | Some left \<Rightarrow> do { this \<leftarrow> SeekToRestartPoint left this; map_option snd (ParseNextKey this) } }"

text \<open>\<open>Block::NewIterator\<close>: an iterator, or the empty iterator with a status.\<close>

definition Block_NewIterator :: "Block \<Rightarrow> (Status + BlockIter) option" where
  "Block_NewIterator this =
     (if bl_size this < 4 then Some (Inl (Corruption (bytes_of_string ''bad block contents'') []))
      else do {
        num_restarts \<leftarrow> NumRestarts (bl_data this) (bl_size this);
        if num_restarts = 0 then Some (Inl Status_OK)
        else map_option Inr (BlockIter_new (bl_data this) (bl_restart_offset this) (unat num_restarts)) })"

subsection \<open>The layout of a block\<close>

fun entry_bytes :: "bytes \<times> bytes \<Rightarrow> bytes" where
  "entry_bytes (k, v) = EncodeVarint32 0 @ EncodeVarint32 (of_nat (length k)) @ EncodeVarint32 (of_nat (length v)) @ k @ v"

definition entries_bytes :: "(bytes \<times> bytes) list \<Rightarrow> bytes" where
  "entries_bytes es = concat (map entry_bytes es)"

definition off :: "(bytes \<times> bytes) list \<Rightarrow> nat \<Rightarrow> nat" where
  "off es i = length (entries_bytes (take i es))"

text \<open>A block with the entries \<open>es\<close> and restart points at the entries \<open>ixs\<close>.\<close>

definition block_bytes :: "(bytes \<times> bytes) list \<Rightarrow> nat list \<Rightarrow> bytes" where
  "block_bytes es ixs = entries_bytes es @ concat (map (\<lambda>i. EncodeFixed32 (of_nat (off es i))) ixs) @ EncodeFixed32 (of_nat (length ixs))"

definition layout_ok :: "(bytes \<times> bytes) list \<Rightarrow> nat list \<Rightarrow> bool" where
  "layout_ok es ixs \<longleftrightarrow> length (block_bytes es ixs) < 2 ^ 32 \<and> ixs \<noteq> [] \<and> ixs ! 0 = 0 \<and> sorted_wrt (<) ixs
     \<and> (\<forall>i \<in> set ixs. i < length es \<or> i = 0)"

lemma entries_bytes_simps [simp]:
  "entries_bytes [] = []" "entries_bytes (e # es) = entry_bytes e @ entries_bytes es" "entries_bytes (es @ es') = entries_bytes es @ entries_bytes es'"
  by (simp_all add: entries_bytes_def)

lemma length_entry_bytes: "length (entry_bytes (k, v)) \<ge> 3 + length k + length v"
proof -
  have "1 \<le> length (EncodeVarint32 w)" for w using EncodeVarint32_nonempty [of w] by (cases "EncodeVarint32 w") auto
  from this [of 0] this [of "of_nat (length k)"] this [of "of_nat (length v)"] show ?thesis by simp
qed

lemma off_split: "i < length es \<Longrightarrow> off es (Suc i) = off es i + length (entry_bytes (es ! i))"
  by (simp add: off_def take_Suc_conv_app_nth)

lemma off_0 [simp]: "off es 0 = 0"
  by (simp add: off_def)

lemma off_all: "off es (length es) = length (entries_bytes es)"
  by (simp add: off_def)

lemma off_mono: "i \<le> j \<Longrightarrow> off es i \<le> off es j"
proof -
  assume "i \<le> j"
  then have "take j es = take i es @ take (j - i) (drop i es)" by (metis le_add_diff_inverse take_add)
  then show ?thesis by (simp add: off_def)
qed

lemma off_less: "i < j \<Longrightarrow> j \<le> length es \<Longrightarrow> off es i < off es j"
proof -
  assume ij: "i < j" "j \<le> length es"
  then have "off es (Suc i) \<le> off es j" by (intro off_mono) simp
  moreover have "0 < length (entry_bytes (es ! i))" using length_entry_bytes [of "fst (es ! i)" "snd (es ! i)"] unfolding prod.collapse by linarith
  ultimately show ?thesis using off_split [of i es] ij by linarith
qed

lemma off_less_iff: "i \<le> length es \<Longrightarrow> j \<le> length es \<Longrightarrow> off es i < off es j \<longleftrightarrow> i < j"
  by (meson leD le_less_linear off_less off_mono)

lemma off_le_iff: "i \<le> length es \<Longrightarrow> j \<le> length es \<Longrightarrow> off es i \<le> off es j \<longleftrightarrow> i \<le> j"
  by (meson leD le_less_linear off_less off_mono)

lemma entries_from: "i < length es \<Longrightarrow> drop (off es i) (entries_bytes es) = entry_bytes (es ! i) @ entries_bytes (drop (Suc i) es)"
proof -
  assume i: "i < length es"
  have "entries_bytes es = entries_bytes (take i es) @ entry_bytes (es ! i) @ entries_bytes (drop (Suc i) es)"
    by (subst id_take_nth_drop [OF i]) simp
  then show ?thesis by (simp add: off_def)
qed

lemma byte_round:
  assumes "unat (x :: u32) < 128"
  shows "ucast (ucast x :: byte) = x"
proof (rule bit_word_eqI)
  fix n assume n: "n < LENGTH(32)"
  have "\<not> bit x n" if "8 \<le> n" using not_bit_if_less_exp [of x 7 n] assms that by simp
  then show "bit (ucast (ucast x :: byte) :: u32) n = bit x n" using n by (cases "8 \<le> n") (auto simp: bit_simps)
qed

lemma or_less_128:
  assumes "unat (x :: u32) < 128" "unat y < 128"
  shows "x OR y < 128"
proof -
  have "take_bit 7 (unat x) = unat x" "take_bit 7 (unat y) = unat y" using assms by (simp_all add: take_bit_nat_eq_self_iff)
  then have "take_bit 7 (unat x OR unat y) = unat x OR unat y" by (simp only: take_bit_or)
  then have "unat x OR unat y < 128" by (simp only: take_bit_nat_eq_self_iff) simp
  then show ?thesis by (simp add: word_less_nat_alt unsigned_or_eq)
qed

lemma varint32_long_head: "128 \<le> unat v \<Longrightarrow> \<exists>b r. EncodeVarint32 v = b # r \<and> bit b 7"
  by (subst EncodeVarint32_eq_EncodeVarint64, subst EncodeVarint64_step) (simp add: unat_ucast_32_64 bit_simps bit_128_iff)

lemma not_less_128_if_bit: "bit (w :: u32) 7 \<Longrightarrow> \<not> w < 128"
  using not_bit_if_less_exp [of w 7 7] by (auto simp: word_less_nat_alt)

lemma DecodeEntry_entry_bytes:
  assumes "length (entry_bytes (k, v) @ rest) < 2 ^ 32"
  shows "DecodeEntry (entry_bytes (k, v) @ rest) = Some (0, of_nat (length k), of_nat (length v), k @ v @ rest)"
proof -
  let ?p = "entry_bytes (k, v) @ rest" and ?k = "of_nat (length k) :: u32" and ?v = "of_nat (length v) :: u32"
  have len: "length k < 2 ^ 32" "length v < 2 ^ 32" "length k + length v < 2 ^ 32" "length (k @ v @ rest) < 2 ^ 32" "3 \<le> length ?p"
    using assms length_entry_bytes [of k v] by auto
  have u: "unat ?k = length k" "unat ?v = length v" using unat_of_nat_u32 len by auto
  have z: "EncodeVarint32 0 = [0]" by (simp add: EncodeVarint32_def)
  have "unat (?k + ?v) = length k + length v" "unat (of_nat (length (k @ v @ rest)) :: u32) = length (k @ v @ rest)"
    using unat_of_nat_u32 [OF len(3)] unat_of_nat_u32 [OF len(4)] by simp_all
  then have fit: "\<not> (of_nat (length (k @ v @ rest)) :: u32) < ?k + ?v" by (simp add: word_less_nat_alt)
  show ?thesis
  proof (cases "length k < 128 \<and> length v < 128")
    case True
    then have e: "EncodeVarint32 ?k = [ucast ?k]" "EncodeVarint32 ?v = [ucast ?v]" using EncodeVarint32_small u by auto
    have c: "ucast (ucast ?k :: byte) = ?k" "ucast (ucast ?v :: byte) = ?v"
      using byte_round True u by simp_all
    have "?k OR ?v < 128" using or_less_128 True u by simp
    then show ?thesis using fit len(5) by (simp add: DecodeEntry_def z e c Let_def)
  next
    case False
    have "\<not> (ucast (?p ! 0) OR ucast (?p ! 1) OR ucast (?p ! 2) :: u32) < 128"
    proof (cases "128 \<le> length k")
      case True
      then obtain b r where "EncodeVarint32 ?k = b # r" "bit b 7" using varint32_long_head u(1) by metis
      then show ?thesis by (intro not_less_128_if_bit) (simp add: z bit_simps)
    next
      case k: False
      then have "EncodeVarint32 ?k = [ucast ?k]" "128 \<le> unat ?v" using EncodeVarint32_small u False by auto
      moreover from this obtain b r where "EncodeVarint32 ?v = b # r" "bit b 7" using varint32_long_head by metis
      ultimately show ?thesis by (intro not_less_128_if_bit) (simp add: z bit_simps)
    qed
    then show ?thesis using fit len(5) by (simp add: DecodeEntry_def Let_def codec_simps del: entry_bytes.simps) (simp add: codec_simps)
  qed
qed
subsection \<open>Positions of an iterator\<close>

definition iter_block :: "BlockIter \<Rightarrow> (bytes \<times> bytes) list \<Rightarrow> nat list \<Rightarrow> bool" where
  "iter_block it es ixs \<longleftrightarrow> layout_ok es ixs \<and> bi_data it = block_bytes es ixs \<and> bi_restarts it = off es (length es) \<and> bi_num_restarts it = length ixs \<and> bi_status it = Status_OK"

definition restart_before :: "nat list \<Rightarrow> nat \<Rightarrow> nat \<Rightarrow> bool" where
  "restart_before ixs i j \<longleftrightarrow> j < length ixs \<and> ixs ! j \<le> i"

definition iter_at :: "BlockIter \<Rightarrow> (bytes \<times> bytes) list \<Rightarrow> nat list \<Rightarrow> nat \<Rightarrow> bool" where
  "iter_at it es ixs i \<longleftrightarrow> iter_block it es ixs \<and>
     (if i < length es
      then bi_current it = off es i \<and> bi_key it = fst (es ! i)
        \<and> bi_value it = Some (off es (Suc i) - length (snd (es ! i)), length (snd (es ! i)))
        \<and> restart_before ixs i (bi_restart_index it)
      else i = length es \<and> bi_current it = bi_restarts it)"

text \<open>The state before \<open>ParseNextKey\<close> moves to entry \<open>i\<close>.\<close>

definition iter_before :: "BlockIter \<Rightarrow> (bytes \<times> bytes) list \<Rightarrow> nat list \<Rightarrow> nat \<Rightarrow> bool" where
  "iter_before it es ixs i \<longleftrightarrow> iter_block it es ixs \<and> i \<le> length es \<and> NextEntryOffset it = Some (off es i)
     \<and> restart_before ixs i (bi_restart_index it)"

lemma length_fixed32s: "length (concat (map (\<lambda>i. EncodeFixed32 (f i)) xs)) = 4 * length xs"
  by (induction xs) (simp_all add: size_simps)

lemma drop_fixed32s:
  "j < length xs \<Longrightarrow> drop (j * 4) (concat (map (\<lambda>i. EncodeFixed32 (f i)) xs)) = EncodeFixed32 (f (xs ! j)) @ concat (map (\<lambda>i. EncodeFixed32 (f i)) (drop (Suc j) xs))"
proof (induction xs arbitrary: j)
  case (Cons x xs)
  show ?case
  proof (cases j)
    case (Suc i)
    then show ?thesis using Cons.IH [of i] Cons.prems by (simp add: size_simps)
  qed simp
qed simp

lemma layout_okD:
  assumes "layout_ok es ixs"
  shows "length (entries_bytes es) < 2 ^ 32" "off es i < 2 ^ 32" "length ixs < 2 ^ 32" "ixs \<noteq> []" "ixs ! 0 = 0" "sorted_wrt (<) ixs"
    "j < length ixs \<Longrightarrow> ixs ! j < length es \<or> ixs ! j = 0"
proof -
  have l: "length (entries_bytes es) + 4 * length ixs < 2 ^ 32" using assms by (simp add: layout_ok_def block_bytes_def length_fixed32s size_simps)
  then show "length (entries_bytes es) < 2 ^ 32" "length ixs < 2 ^ 32" by simp_all
  have "off es i \<le> off es (max i (length es))" by (rule off_mono) simp
  then show "off es i < 2 ^ 32" using l by (simp add: off_def)
qed (use assms in \<open>auto simp: layout_ok_def\<close>)

lemma GetRestartPoint_layout:
  assumes "iter_block it es ixs" "j < length ixs"
  shows "GetRestartPoint it j = Some (off es (ixs ! j))"
proof -
  have L: "layout_ok es ixs" using assms by (simp add: iter_block_def)
  have "drop (bi_restarts it + j * 4) (bi_data it) = drop (j * 4) (concat (map (\<lambda>i. EncodeFixed32 (of_nat (off es i))) ixs) @ EncodeFixed32 (of_nat (length ixs)))"
    using assms by (simp add: iter_block_def block_bytes_def off_all add.commute flip: drop_drop)
  also have "\<dots> = EncodeFixed32 (of_nat (off es (ixs ! j))) @ concat (map (\<lambda>i. EncodeFixed32 (of_nat (off es i))) (drop (Suc j) ixs)) @ EncodeFixed32 (of_nat (length ixs))"
    using assms(2) drop_fixed32s [OF assms(2), of "\<lambda>i. of_nat (off es i)"] length_fixed32s [of "\<lambda>i. of_nat (off es i)" ixs] by simp
  finally have "DecodeFixed32 (drop (bi_restarts it + j * 4) (bi_data it)) = Some (of_nat (off es (ixs ! j)))"
    by (simp only: DecodeFixed32_EncodeFixed32)
  then show ?thesis using assms unat_of_nat_u32 [OF layout_okD(2) [OF L]] by (simp add: GetRestartPoint_def iter_block_def)
qed

lemma take_restarts: "iter_block it es ixs \<Longrightarrow> take (bi_restarts it) (bi_data it) = entries_bytes es"
  by (simp add: iter_block_def block_bytes_def off_all)

lemma DecodeEntry_at:
  assumes "iter_block it es ixs" "i < length es"
  shows "DecodeEntry (drop (off es i) (take (bi_restarts it) (bi_data it))) =
      Some (0, of_nat (length (fst (es ! i))), of_nat (length (snd (es ! i))), fst (es ! i) @ snd (es ! i) @ entries_bytes (drop (Suc i) es))"
    "unat (of_nat (length (fst (es ! i))) :: u32) = length (fst (es ! i))" "unat (of_nat (length (snd (es ! i))) :: u32) = length (snd (es ! i))"
proof -
  obtain k v where e: "es ! i = (k, v)" by fastforce
  have "length (drop (off es i) (entries_bytes es)) < 2 ^ 32" using assms layout_okD(1) [of es ixs] by (simp add: iter_block_def)
  then have l: "length (entry_bytes (k, v) @ entries_bytes (drop (Suc i) es)) < 2 ^ 32" using entries_from [OF assms(2)] e by simp
  then show "DecodeEntry (drop (off es i) (take (bi_restarts it) (bi_data it))) =
      Some (0, of_nat (length (fst (es ! i))), of_nat (length (snd (es ! i))), fst (es ! i) @ snd (es ! i) @ entries_bytes (drop (Suc i) es))"
    unfolding take_restarts [OF assms(1)] entries_from [OF assms(2)] e by (simp only: DecodeEntry_entry_bytes fst_conv snd_conv)
  have "length k < 2 ^ 32" "length v < 2 ^ 32" using l length_entry_bytes [of k v] by (simp_all del: entry_bytes.simps)
  then show "unat (of_nat (length (fst (es ! i))) :: u32) = length (fst (es ! i))" "unat (of_nat (length (snd (es ! i))) :: u32) = length (snd (es ! i))"
    using unat_of_nat_u32 by (simp_all add: e)
qed

lemma rest_position:
  assumes "iter_block it es ixs" "i < length es"
  defines "p \<equiv> fst (es ! i) @ snd (es ! i) @ entries_bytes (drop (Suc i) es)"
  shows "bi_restarts it - length p + length (fst (es ! i)) + length (snd (es ! i)) = off es (Suc i)"
    "take (length (fst (es ! i))) (drop (bi_restarts it - length p) (bi_data it)) = fst (es ! i)"
    "take (length (snd (es ! i))) (drop (off es (Suc i) - length (snd (es ! i))) (bi_data it)) = snd (es ! i)"
    "bi_restarts it - length p + length (fst (es ! i)) \<le> length (bi_data it)" "off es (Suc i) \<le> length (bi_data it)"
    "length (snd (es ! i)) \<le> off es (Suc i)"
proof -
  obtain k v where e: "es ! i = (k, v)" by fastforce
  let ?q = "entries_bytes (take i es) @ EncodeVarint32 0 @ EncodeVarint32 (of_nat (length k)) @ EncodeVarint32 (of_nat (length v))"
  have es: "entries_bytes es = ?q @ p" by (subst id_take_nth_drop [OF assms(2)]) (simp add: e p_def)
  have r: "bi_restarts it = length (entries_bytes es)" using assms(1) by (simp add: iter_block_def off_all)
  have d: "bi_data it = ?q @ p @ drop (length (entries_bytes es)) (bi_data it)"
    using take_restarts [OF assms(1)] es r by (metis append.assoc append_take_drop_id)
  have o: "off es (Suc i) = length ?q + length k + length v" using off_split [OF assms(2)] by (simp add: off_def e)
  have s: "bi_restarts it - length p = length ?q" using es r by simp
  show "bi_restarts it - length p + length (fst (es ! i)) + length (snd (es ! i)) = off es (Suc i)" using s o e by simp
  show "take (length (fst (es ! i))) (drop (bi_restarts it - length p) (bi_data it)) = fst (es ! i)"
    unfolding s by (subst d) (simp add: p_def e)
  show "take (length (snd (es ! i))) (drop (off es (Suc i) - length (snd (es ! i))) (bi_data it)) = snd (es ! i)"
    by (subst d) (simp add: o p_def e)
  show "bi_restarts it - length p + length (fst (es ! i)) \<le> length (bi_data it)" "off es (Suc i) \<le> length (bi_data it)"
    unfolding s o by (subst d, simp add: p_def e)+
  show "length (snd (es ! i)) \<le> off es (Suc i)" using o e by simp
qed

lemma restart_le: "layout_ok es ixs \<Longrightarrow> j < length ixs \<Longrightarrow> ixs ! j \<le> length es"
  using layout_okD(7) [of es ixs j] by auto

lemma advance_restart_index_ok:
  assumes "iter_block it es ixs" "bi_current it = off es i" "i \<le> length es" "restart_before ixs i j"
  shows "\<exists>j'. advance_restart_index it j = Some j' \<and> restart_before ixs i j'"
  using assms
proof (induction it j rule: advance_restart_index.induct)
  case (1 it j)
  have L: "layout_ok es ixs" and n: "bi_num_restarts it = length ixs" using 1(2) by (simp_all add: iter_block_def)
  show ?case
  proof (cases "j + 1 < length ixs")
    case True
    note r = GetRestartPoint_layout [OF 1(2) True]
    show ?thesis
    proof (cases "off es (ixs ! (j + 1)) < off es i")
      case less: True
      then have "restart_before ixs i (j + 1)"
        using True off_less_iff [OF restart_le [OF L True] 1(4)] by (simp add: restart_before_def)
      then show ?thesis using 1(1) [OF _ r _ 1(2-4)] True less n 1(3) r by (subst advance_restart_index.simps) simp
    next
      case False
      then show ?thesis using True n r 1(3,5) by (subst advance_restart_index.simps) simp
    qed
  next
    case False
    then show ?thesis using n 1(5) by (subst advance_restart_index.simps) simp
  qed
qed

lemma iter_block_update [simp]:
  "iter_block (it\<lparr>bi_current := c\<rparr>) = iter_block it" "iter_block (it\<lparr>bi_key := k\<rparr>) = iter_block it"
  "iter_block (it\<lparr>bi_value := v\<rparr>) = iter_block it" "iter_block (it\<lparr>bi_restart_index := r\<rparr>) = iter_block it"
  by (simp_all add: iter_block_def fun_eq_iff)

lemma iter_at_before:
  assumes "iter_at it es ixs i" "i < length es"
  shows "iter_before it es ixs (Suc i)"
proof -
  have b: "iter_block it es ixs" using assms by (simp add: iter_at_def)
  then have "off es (Suc i) < 2 ^ 32" using layout_okD(2) [of es ixs] by (simp add: iter_block_def)
  then show ?thesis using assms rest_position(6) [OF b assms(2)] by (simp add: iter_at_def iter_before_def NextEntryOffset_def restart_before_def)
qed

lemma ParseNextKey_ok:
  assumes "iter_before it es ixs i" "i < length es"
  shows "\<exists>it'. ParseNextKey it = Some (True, it') \<and> iter_at it' es ixs i"
proof -
  have b: "iter_block it es ixs" and n: "NextEntryOffset it = Some (off es i)" and rb: "restart_before ixs i (bi_restart_index it)"
    using assms(1) by (simp_all add: iter_before_def)
  define p where "p = fst (es ! i) @ snd (es ! i) @ entries_bytes (drop (Suc i) es)"
  define pos where "pos = bi_restarts it - length p"
  note R = rest_position [OF b assms(2), folded p_def, folded pos_def] and D = DecodeEntry_at [OF b assms(2), folded p_def]
  define it1 where "it1 = it\<lparr>bi_current := off es i, bi_key := fst (es ! i), bi_value := Some (pos + length (fst (es ! i)), length (snd (es ! i)))\<rparr>"
  have b1: "iter_block it1 es ixs" using b by (simp add: it1_def)
  obtain j where j: "advance_restart_index it1 (bi_restart_index it) = Some j" "restart_before ixs i j"
    using advance_restart_index_ok [OF b1 _ _ rb] assms(2) by (auto simp: it1_def)
  have "off es i < bi_restarts it" using b off_less [of i "length es" es] assms(2) by (simp add: iter_block_def)
  then have "ParseNextKey it = Some (True, it1\<lparr>bi_restart_index := j\<rparr>)"
    using R(4) [unfolded pos_def] j(1) by (simp add: ParseNextKey_def n D Let_def R(2) [unfolded pos_def] it1_def pos_def)
  moreover have "iter_at (it1\<lparr>bi_restart_index := j\<rparr>) es ixs i"
    using b1 R(1) j(2) assms(2) by (auto simp: iter_at_def it1_def)
  ultimately show ?thesis by blast
qed

lemma ParseNextKey_end:
  assumes "iter_before it es ixs (length es)"
  shows "\<exists>it'. ParseNextKey it = Some (False, it') \<and> iter_at it' es ixs (length es)"
  using assms by (auto simp: iter_before_def ParseNextKey_def iter_at_def) (simp_all add: iter_block_def)

lemma SeekToRestartPoint_ok:
  assumes "iter_block it es ixs" "j < length ixs"
  shows "\<exists>it'. SeekToRestartPoint j it = Some it' \<and> iter_before it' es ixs (ixs ! j)"
proof -
  have L: "layout_ok es ixs" using assms by (simp add: iter_block_def)
  show ?thesis using assms restart_le [OF L assms(2)] layout_okD(2) [OF L]
    by (simp add: SeekToRestartPoint_def GetRestartPoint_layout iter_before_def NextEntryOffset_def restart_before_def)
qed

lemma iter_at_block: "iter_at it es ixs i \<Longrightarrow> iter_block it es ixs"
  by (simp add: iter_at_def)

lemma BlockIter_Next_ok:
  assumes "iter_at it es ixs i" "i < length es"
  shows "\<exists>it'. BlockIter_Next it = Some it' \<and> iter_at it' es ixs (Suc i)"
proof -
  have "BlockIter_Valid it" using assms off_less [of i "length es" es] by (simp add: BlockIter_Valid_def iter_at_def iter_block_def)
  moreover have "\<exists>ok it'. ParseNextKey it = Some (ok, it') \<and> iter_at it' es ixs (Suc i)"
    using ParseNextKey_ok [OF iter_at_before [OF assms]] ParseNextKey_end [of it es ixs] iter_at_before [OF assms] assms(2)
    by (cases "Suc i < length es") (auto dest: less_antisym simp: not_less le_Suc_eq Suc_leI le_antisym)
  ultimately show ?thesis by (auto simp: BlockIter_Next_def)
qed

lemma parse_until_ok:
  assumes "iter_before it es ixs i" "i < m" "m \<le> length es"
  shows "\<exists>it'. parse_until (off es m) it = Some it' \<and> iter_at it' es ixs (m - 1)"
  using assms
proof (induction "m - i" arbitrary: it i)
  case (Suc d)
  obtain it1 where p: "ParseNextKey it = Some (True, it1)" "iter_at it1 es ixs i" using ParseNextKey_ok [OF Suc.prems(1)] Suc.prems by auto
  have b: "iter_before it1 es ixs (Suc i)" using iter_at_before [OF p(2)] Suc.prems by simp
  then have n: "NextEntryOffset it1 = Some (off es (Suc i))" by (simp add: iter_before_def)
  show ?case
  proof (cases "Suc i < m")
    case True
    then have "off es (Suc i) < off es m" using off_less Suc.prems(3) by blast
    then show ?thesis using Suc.hyps(1) [OF _ b True Suc.prems(3)] Suc.hyps(2) p(1) n by (subst parse_until.simps) simp
  next
    case False
    then have "m = Suc i" using Suc.prems(2) by simp
    then show ?thesis using p n by (subst parse_until.simps) simp
  qed
qed simp

lemma Prev_restart_ok:
  assumes "iter_block it es ixs" "i \<le> length es" "j < length ixs"
  shows "if i = 0 then Prev_restart it (off es i) j = Some None
    else \<exists>j'. Prev_restart it (off es i) j = Some (Some j') \<and> j' < length ixs \<and> ixs ! j' < i"
  using assms(3)
proof (induction j)
  case 0
  have "ixs ! 0 = 0" using layout_okD(5) assms(1) by (auto simp: iter_block_def)
  then show ?case using GetRestartPoint_layout [OF assms(1) 0] off_less_iff [of 0 es i] assms(2) 0 by (subst (1 2) Prev_restart.simps) auto
next
  case (Suc j)
  have L: "layout_ok es ixs" using assms(1) by (simp add: iter_block_def)
  show ?case
    using Suc GetRestartPoint_layout [OF assms(1) Suc.prems] off_less_iff [OF restart_le [OF L Suc.prems] assms(2)]
    by (subst (1 2) Prev_restart.simps) (auto simp: not_less [symmetric])
qed

lemma BlockIter_Prev_ok:
  assumes "iter_at it es ixs i" "i < length es"
  shows "\<exists>it'. BlockIter_Prev it = Some it' \<and> iter_at it' es ixs (if i = 0 then length es else i - 1)"
proof -
  have b: "iter_block it es ixs" and r: "bi_restart_index it < length ixs" and c: "bi_current it = off es i"
    using assms by (simp_all add: iter_at_def restart_before_def)
  have v: "BlockIter_Valid it" using assms off_less [of i "length es" es] by (simp add: BlockIter_Valid_def iter_at_def iter_block_def)
  note P = Prev_restart_ok [OF b less_imp_le [OF assms(2)] r]
  show ?thesis
  proof (cases "i = 0")
    case True
    then show ?thesis using P v c b by (simp add: BlockIter_Prev_def iter_at_def)
  next
    case False
    then obtain j where j: "Prev_restart it (off es i) (bi_restart_index it) = Some (Some j)" "j < length ixs" "ixs ! j < i" using P by auto
    obtain it1 where "SeekToRestartPoint j (it\<lparr>bi_restart_index := j\<rparr>) = Some it1" "iter_before it1 es ixs (ixs ! j)"
      using SeekToRestartPoint_ok [of "it\<lparr>bi_restart_index := j\<rparr>" es ixs j] b j(2) by auto
    then show ?thesis using parse_until_ok [of it1 es ixs "ixs ! j" i] j v c False assms(2) by (auto simp: BlockIter_Prev_def)
  qed
qed

lemma ParseNextKey_at:
  assumes "iter_before it es ixs i"
  shows "\<exists>ok it'. ParseNextKey it = Some (ok, it') \<and> iter_at it' es ixs i \<and> ok = (i < length es)"
  using assms ParseNextKey_ok [OF assms] ParseNextKey_end [of it es ixs]
  by (cases "i < length es") (auto simp: iter_before_def)

lemma BlockIter_SeekToFirst_ok:
  assumes "iter_block it es ixs"
  shows "\<exists>it'. BlockIter_SeekToFirst it = Some it' \<and> iter_at it' es ixs 0"
proof -
  have L: "0 < length ixs" "ixs ! 0 = 0" using assms layout_okD(4,5) [of es ixs] by (simp_all add: iter_block_def)
  obtain it1 where "SeekToRestartPoint 0 it = Some it1" "iter_before it1 es ixs 0" using SeekToRestartPoint_ok [OF assms L(1)] L(2) by auto
  then show ?thesis using ParseNextKey_at [of it1 es ixs 0] by (auto simp: BlockIter_SeekToFirst_def)
qed

lemma BlockIter_SeekToLast_ok:
  assumes "iter_block it es ixs"
  shows "\<exists>it'. BlockIter_SeekToLast it = Some it' \<and> iter_at it' es ixs (length es - 1)"
proof -
  have L: "length ixs - 1 < length ixs" "layout_ok es ixs" and n: "bi_num_restarts it = length ixs"
    using assms layout_okD(4) [of es ixs] by (simp_all add: iter_block_def)
  obtain it1 where s: "SeekToRestartPoint (length ixs - 1) it = Some it1" "iter_before it1 es ixs (ixs ! (length ixs - 1))"
    using SeekToRestartPoint_ok [OF assms L(1)] by auto
  have r: "bi_restarts it1 = off es (length es)" using s(2) by (simp add: iter_before_def iter_block_def)
  show ?thesis
  proof (cases "es = []")
    case True
    then show ?thesis using s ParseNextKey_at [OF s(2)] n r restart_le [OF L(2,1)]
      by (auto simp: BlockIter_SeekToLast_def parse_until.simps [of _ it1])
  next
    case False
    then have "ixs ! (length ixs - 1) < length es" using layout_okD(7) [OF L(2,1)] by auto
    then show ?thesis using s(1) parse_until_ok [OF s(2) _ le_refl] n r by (auto simp: BlockIter_SeekToLast_def)
  qed
qed

lemma restart_key_ok:
  assumes "iter_block it es ixs" "j < length ixs" "0 < j \<or> es \<noteq> []"
  shows "restart_key it j = Some (Some (fst (es ! (ixs ! j)))) \<and> ixs ! j < length es"
proof -
  have L: "layout_ok es ixs" using assms(1) by (simp add: iter_block_def)
  have "ixs ! 0 < ixs ! j" if "0 < j" using sorted_wrt_nth_less [OF layout_okD(6) [OF L] that assms(2)] by simp
  then have i: "ixs ! j < length es" using layout_okD(5) [OF L] layout_okD(7) [OF L assms(2)] assms(3) by auto
  show ?thesis using rest_position(2,4) [OF assms(1) i] i
    by (simp add: restart_key_def GetRestartPoint_layout [OF assms(1,2)] DecodeEntry_at [OF assms(1) i])
qed

context key_comparator
begin

lemma Seek_search_ok:
  assumes "iter_block it es ixs" "left \<le> right" "right < length ixs" "left = 0 \<or> ixs ! left < length es \<and> Compare (fst (es ! (ixs ! left))) target < 0"
  shows "\<exists>l. Seek_search Compare it target left right = Some (Some l) \<and> l < length ixs
    \<and> (l = 0 \<or> ixs ! l < length es \<and> Compare (fst (es ! (ixs ! l))) target < 0)"
  using assms
proof (induction "right - left" arbitrary: left right rule: less_induct)
  case less
  show ?case
  proof (cases "left < right")
    case True
    define mid where "mid = Suc (left + right) div 2"
    have mid: "left < mid" "mid \<le> right" using True by (auto simp: mid_def)
    then have dec: "right - mid < right - left" "mid - 1 - left < right - left" by arith+
    note k = restart_key_ok [OF less.prems(1), of mid]
    show ?thesis
    proof (cases "Compare (fst (es ! (ixs ! mid))) target < 0")
      case c: True
      then show ?thesis using less.hyps [OF dec(1)] less.prems k mid True
        by (subst Seek_search.simps) (simp add: Let_def mid_def [symmetric])
    next
      case c: False
      then show ?thesis using less.hyps [OF dec(2)] less.prems k mid True
        by (subst Seek_search.simps) (simp add: Let_def mid_def [symmetric])
    qed
  next
    case False
    then show ?thesis using less.prems by (subst Seek_search.simps) auto
  qed
qed

lemma Seek_linear_ok:
  assumes "iter_before it es ixs i"
  shows "\<exists>it'. Seek_linear Compare target it = Some it'
    \<and> iter_at it' es ixs (i + length (takeWhile (\<lambda>e. Compare (fst e) target < 0) (drop i es)))"
  using assms
proof (induction "length es - i" arbitrary: it i)
  case 0
  then have i: "i = length es" by (simp add: iter_before_def)
  then obtain it1 where "ParseNextKey it = Some (False, it1)" "iter_at it1 es ixs i" using ParseNextKey_at [OF 0(2)] by auto
  then show ?case using i by (subst Seek_linear.simps) simp
next
  case (Suc d)
  then have i: "i < length es" by simp
  obtain it1 where p: "ParseNextKey it = Some (True, it1)" "iter_at it1 es ixs i" using ParseNextKey_at [OF Suc.prems] i by auto
  have k: "bi_key it1 = fst (es ! i)" using p(2) i by (simp add: iter_at_def)
  have d: "drop i es = es ! i # drop (Suc i) es" by (simp add: Cons_nth_drop_Suc i)
  show ?case
  proof (cases "Compare (fst (es ! i)) target < 0")
    case True
    then show ?thesis using Suc.hyps(1) [OF _ iter_at_before [OF p(2) i]] Suc.hyps(2) p(1) k d by (subst Seek_linear.simps) simp
  next
    case False
    then show ?thesis using p k d by (subst Seek_linear.simps) simp
  qed
qed

lemma BlockIter_Seek_ok:
  assumes b: "iter_block it es ixs" and srt: "sorted_wrt (\<lambda>a b. Compare (fst a) (fst b) < 0) es"
    and valid: "\<forall>e \<in> set es. valid (fst e)" "valid target"
  shows "\<exists>it'. BlockIter_Seek Compare target it = Some it'
    \<and> iter_at it' es ixs (length (takeWhile (\<lambda>e. Compare (fst e) target < 0) es))"
proof -
  let ?P = "\<lambda>e. Compare (fst e) target < 0"
  have L: "length ixs - 1 < length ixs" "layout_ok es ixs" "bi_num_restarts it = length ixs" using b layout_okD(4) [of es ixs] by (simp_all add: iter_block_def)
  obtain l where l: "Seek_search Compare it target 0 (length ixs - 1) = Some (Some l)" "l < length ixs"
      "l = 0 \<or> ixs ! l < length es \<and> Compare (fst (es ! (ixs ! l))) target < 0"
    using Seek_search_ok [OF b _ L(1), of 0 target] by auto
  have "?P e" if e: "e \<in> set (take (ixs ! l) es)" for e
  proof -
    have "l \<noteq> 0" using e layout_okD(5) [OF L(2)] by (cases "l = 0") auto
    then have il: "ixs ! l < length es" "?P (es ! (ixs ! l))" using l(3) by auto
    obtain m where m: "m < ixs ! l" "e = es ! m" using e by (auto simp: in_set_conv_nth)
    have "Compare (fst e) (fst (es ! (ixs ! l))) < 0" using sorted_wrt_nth_less [OF srt m(1) il(1)] m(2) by simp
    then show ?thesis using Compare_less_trans [of "fst e" "fst (es ! (ixs ! l))" target] valid il m by (auto simp: less_imp_le)
  qed
  then have "takeWhile ?P (take (ixs ! l) es @ drop (ixs ! l) es) = take (ixs ! l) es @ takeWhile ?P (drop (ixs ! l) es)"
    by (rule takeWhile_append2)
  then have "takeWhile ?P es = take (ixs ! l) es @ takeWhile ?P (drop (ixs ! l) es)"
    by (simp only: append_take_drop_id)
  then have len: "length (takeWhile ?P es) = ixs ! l + length (takeWhile ?P (drop (ixs ! l) es))"
    using restart_le [OF L(2) l(2)] by simp
  obtain it1 where "SeekToRestartPoint l it = Some it1" "iter_before it1 es ixs (ixs ! l)" using SeekToRestartPoint_ok [OF b l(2)] by auto
  then show ?thesis using Seek_linear_ok [of it1 es ixs "ixs ! l" target] l(1) L(3) len by (auto simp: BlockIter_Seek_def)
qed

lemma Seek_range_search_ok:
  assumes "iter_block it es ixs" "es \<noteq> []" "left \<le> right" "right < length ixs"
    and srt: "sorted_wrt (\<lambda>a b. Compare (fst a) (fst b) < 0) es" and valid: "\<forall>e \<in> set es. valid (fst e)" "valid target"
  shows "\<exists>l. Seek_range_search Compare it target left right = Some (Some l) \<and> left \<le> l \<and> l \<le> right
    \<and> (\<forall>j. left \<le> j \<and> j < l \<longrightarrow> Compare (fst (es ! (ixs ! j))) target < 0)
    \<and> (\<forall>j. l \<le> j \<and> j < right \<longrightarrow> 0 \<le> Compare (fst (es ! (ixs ! j))) target)"
  using assms(3,4)
proof (induction "right - left" arbitrary: left right rule: less_induct)
  case less
  show ?case
  proof (cases "left < right")
    case True
    define mid where "mid = (left + right) div 2"
    have mid: "left \<le> mid" "mid < right" using True by (auto simp: mid_def)
    then have dec: "right - (mid + 1) < right - left" "mid - left < right - left" by arith+
    then have k: "restart_key it mid = Some (Some (fst (es ! (ixs ! mid))))" "ixs ! mid < length es"
      using restart_key_ok [OF assms(1), of mid] less.prems assms(2) by auto
    have L: "layout_ok es ixs" using assms(1) by (simp add: iter_block_def)
    have mono: "Compare (fst (es ! (ixs ! a))) (fst (es ! (ixs ! b))) < 0" if ab: "a < b" "b < length ixs" for a b
      using sorted_wrt_nth_less [OF srt sorted_wrt_nth_less [OF layout_okD(6) [OF L] ab]] restart_key_ok [OF assms(1) ab(2)] assms(2) by simp
    have vk: "valid (fst (es ! (ixs ! a)))" if "a < length ixs" for a
      using restart_key_ok [OF assms(1) that] assms(2) valid(1) by simp
    show ?thesis
    proof (cases "Compare (fst (es ! (ixs ! mid))) target < 0")
      case c: True
      have lo: "Compare (fst (es ! (ixs ! j))) target < 0" if "j \<le> mid" for j
        using c Compare_less_trans [OF vk vk valid(2), of j mid] mono [of j mid] that mid less.prems by (cases "j = mid") (auto simp: less_imp_le)
      have s: "Seek_range_search Compare it target left right = Seek_range_search Compare it target (mid + 1) right"
        using c k True by (subst Seek_range_search.simps) (simp add: Let_def mid_def [symmetric])
      obtain l where l: "Seek_range_search Compare it target (mid + 1) right = Some (Some l)" "mid + 1 \<le> l" "l \<le> right"
        "\<forall>j. mid + 1 \<le> j \<and> j < l \<longrightarrow> Compare (fst (es ! (ixs ! j))) target < 0" "\<forall>j. l \<le> j \<and> j < right \<longrightarrow> 0 \<le> Compare (fst (es ! (ixs ! j))) target"
        using less.hyps [OF dec(1)] less.prems mid by auto
      have "Compare (fst (es ! (ixs ! j))) target < 0" if "j < l" for j
        using lo [of j] l(4) that by (cases "j \<le> mid") auto
      then show ?thesis using l s mid by auto
    next
      case c: False
      have hi: "0 \<le> Compare (fst (es ! (ixs ! j))) target" if j: "mid \<le> j" "j < right" for j
      proof (rule ccontr)
        assume "\<not> ?thesis"
        then show False using c Compare_less_trans [OF vk vk valid(2), of mid j] mono [of mid j] j mid less.prems by (cases "j = mid") (auto simp: less_imp_le)
      qed
      have s: "Seek_range_search Compare it target left right = Seek_range_search Compare it target left mid"
        using c k True by (subst Seek_range_search.simps) (simp add: Let_def mid_def [symmetric])
      obtain l where l: "Seek_range_search Compare it target left mid = Some (Some l)" "left \<le> l" "l \<le> mid"
        "\<forall>j. left \<le> j \<and> j < l \<longrightarrow> Compare (fst (es ! (ixs ! j))) target < 0" "\<forall>j. l \<le> j \<and> j < mid \<longrightarrow> 0 \<le> Compare (fst (es ! (ixs ! j))) target"
        using less.hyps [OF dec(2)] less.prems mid by auto
      have "0 \<le> Compare (fst (es ! (ixs ! j))) target" if "l \<le> j" "j < right" for j
        using hi [of j] l(5) that by (cases "mid \<le> j") auto
      then show ?thesis using l s mid by auto
    qed
  next
    case False
    then show ?thesis using less.prems by (subst Seek_range_search.simps) auto
  qed
qed

end

subsection \<open>Block iterators implement the iterator interface\<close>

definition block_iterator :: "(bytes \<Rightarrow> bytes \<Rightarrow> int) \<Rightarrow> BlockIter Iterator" where
  "block_iterator compare = \<lparr>v_Valid = BlockIter_Valid, v_SeekToFirst = BlockIter_SeekToFirst, v_SeekToLast = BlockIter_SeekToLast,
     v_Seek = BlockIter_Seek compare, v_Next = BlockIter_Next, v_Prev = BlockIter_Prev,
     v_key = BlockIter_key, v_value = BlockIter_value, v_status = bi_status\<rparr>"

definition block_repr :: "(bytes \<Rightarrow> bytes \<Rightarrow> int) \<Rightarrow> (bytes \<Rightarrow> bool) \<Rightarrow> BlockIter \<Rightarrow> (bytes \<times> bytes) list \<Rightarrow> nat \<Rightarrow> bool" where
  "block_repr compare valid it es i \<longleftrightarrow> sorted_entries compare valid es \<and> (\<exists>ixs. iter_at it es ixs i)"

lemma iter_at_le: "iter_at it es ixs i \<Longrightarrow> i \<le> length es"
  by (auto simp: iter_at_def split: if_splits)

lemma iter_at_Valid: "iter_at it es ixs i \<Longrightarrow> BlockIter_Valid it \<longleftrightarrow> i < length es"
  using off_less [of i "length es" es] by (auto simp: iter_at_def iter_block_def BlockIter_Valid_def split: if_splits)

lemma iter_at_entry:
  assumes "iter_at it es ixs i" "i < length es"
  shows "BlockIter_key it = Some (fst (es ! i))" "BlockIter_value it = Some (snd (es ! i))"
proof -
  have b: "iter_block it es ixs" using assms by (simp add: iter_at_def)
  show "BlockIter_key it = Some (fst (es ! i))" using assms iter_at_Valid [OF assms(1)] by (simp add: BlockIter_key_def iter_at_def)
  show "BlockIter_value it = Some (snd (es ! i))"
    using assms iter_at_Valid [OF assms(1)] rest_position(3,5,6) [OF b assms(2)] by (simp add: BlockIter_value_def iter_at_def)
qed

context key_comparator
begin

lemma block_db_iterator: "db_iterator (block_iterator Compare) Compare valid (block_repr Compare valid)"
proof
  fix it es i
  assume r: "block_repr Compare valid it es i"
  then obtain ixs where at: "iter_at it es ixs i" and srt: "sorted_entries Compare valid es" by (auto simp: block_repr_def)
  have b: "iter_block it es ixs" by (rule iter_at_block [OF at])
  show "i \<le> length es \<and> sorted_entries Compare valid es" using iter_at_le [OF at] srt by simp
  show "v_status (block_iterator Compare) it = Status_OK" using b by (simp add: block_iterator_def iter_block_def)
  show "v_Valid (block_iterator Compare) it \<longleftrightarrow> i < length es" using iter_at_Valid [OF at] by (simp add: block_iterator_def)
  show "\<exists>it'. v_SeekToFirst (block_iterator Compare) it = Some it' \<and> block_repr Compare valid it' es 0"
    using BlockIter_SeekToFirst_ok [OF b] srt by (auto simp: block_iterator_def block_repr_def)
  show "\<exists>it'. v_SeekToLast (block_iterator Compare) it = Some it' \<and> block_repr Compare valid it' es (length es - 1)"
    using BlockIter_SeekToLast_ok [OF b] srt by (auto simp: block_iterator_def block_repr_def)
  show "\<exists>it'. v_Seek (block_iterator Compare) target it = Some it' \<and> block_repr Compare valid it' es (seek_pos Compare target es)"
    if "valid target" for target
    using BlockIter_Seek_ok [OF b _ _ that] srt by (auto simp: block_iterator_def block_repr_def sorted_entries_def seek_pos_def)
  assume i: "i < length es"
  show "v_key (block_iterator Compare) it = Some (fst (es ! i)) \<and> v_value (block_iterator Compare) it = Some (snd (es ! i))"
    using iter_at_entry [OF at i] by (simp add: block_iterator_def)
  show "\<exists>it'. v_Next (block_iterator Compare) it = Some it' \<and> block_repr Compare valid it' es (Suc i)"
    using BlockIter_Next_ok [OF at i] srt by (auto simp: block_iterator_def block_repr_def)
  show "\<exists>it'. v_Prev (block_iterator Compare) it = Some it' \<and> block_repr Compare valid it' es (if i = 0 then length es else i - 1)"
    using BlockIter_Prev_ok [OF at i] srt by (auto simp: block_iterator_def block_repr_def)
qed

end

sublocale key_comparator \<subseteq> block: db_iterator "block_iterator Compare" Compare valid "block_repr Compare valid"
  by (rule block_db_iterator)

subsection \<open>Building a block\<close>

definition builder_ok :: "int \<Rightarrow> BlockBuilder \<Rightarrow> (bytes \<times> bytes) list \<Rightarrow> nat list \<Rightarrow> bool" where
  "builder_ok interval b es ixs \<longleftrightarrow> bb_buffer b = entries_bytes es \<and> bb_restarts b = map (\<lambda>i. of_nat (off es i)) ixs
     \<and> \<not> bb_finished b \<and> bb_last_key b = (if es = [] then [] else fst (last es))
     \<and> 0 \<le> bb_counter b \<and> bb_counter b \<le> interval \<and> bb_counter b \<le> int (length es)
     \<and> ixs \<noteq> [] \<and> ixs ! 0 = 0 \<and> sorted_wrt (<) ixs \<and> (\<forall>i \<in> set ixs. i < length es \<or> i = 0)"

lemma entry_bytes_nonempty [simp]: "entry_bytes e \<noteq> []"
  using length_entry_bytes [of "fst e" "snd e"] unfolding prod.collapse by auto

lemma entries_bytes_Nil_iff [simp]: "entries_bytes es = [] \<longleftrightarrow> es = []"
  by (cases es) simp_all

lemma off_append: "i \<le> length es \<Longrightarrow> off (es @ es') i = off es i"
  by (simp add: off_def)

lemma BlockBuilder_new_ok: "1 \<le> interval \<Longrightarrow> \<exists>b. BlockBuilder_new interval = Some b \<and> builder_ok interval b [] [0]"
  by (simp add: BlockBuilder_new_def builder_ok_def)

lemma BlockBuilder_Reset_ok: "1 \<le> interval \<Longrightarrow> builder_ok interval (BlockBuilder_Reset b) [] [0]"
  by (simp add: BlockBuilder_Reset_def builder_ok_def)

lemma BlockBuilder_Add_ok:
  assumes ok: "builder_ok interval b es ixs" and "1 \<le> interval" and gt: "es = [] \<or> 0 < compare k (fst (last es))"
  shows "\<exists>b' ixs'. BlockBuilder_Add interval compare k v b = Some b' \<and> builder_ok interval b' (es @ [(k, v)]) ixs'"
proof -
  have le: "\<forall>i \<in> set ixs. i \<le> length es" using ok by (auto simp: builder_ok_def)
  then have offs: "map (\<lambda>i. of_nat (off (es @ [(k, v)]) i) :: u32) ixs = map (\<lambda>i. of_nat (off es i)) ixs" by (simp add: off_append)
  show ?thesis
  proof (cases "bb_counter b < interval")
    case True
    then have "\<exists>b'. BlockBuilder_Add interval compare k v b = Some b' \<and> builder_ok interval b' (es @ [(k, v)]) ixs"
      using ok gt offs by (auto simp: BlockBuilder_Add_def builder_ok_def Let_def PutVarint32_def less_Suc_eq)
    then show ?thesis by blast
  next
    case False
    then have ne: "es \<noteq> []" and c: "bb_counter b = interval" using ok assms(2) by (auto simp: builder_ok_def)
    then have "\<forall>i \<in> set ixs. i < length es" using ok by (auto simp: builder_ok_def)
    then have "sorted_wrt (<) (ixs @ [length es])" "(ixs @ [length es]) ! 0 = 0" using ok by (auto simp: builder_ok_def sorted_wrt_append nth_append)
    moreover have "off (es @ [(k, v)]) (length es) = length (entries_bytes es)" by (simp add: off_append off_all)
    ultimately have "\<exists>b'. BlockBuilder_Add interval compare k v b = Some b' \<and> builder_ok interval b' (es @ [(k, v)]) (ixs @ [length es])"
      using ok gt offs c ne assms(2) by (auto simp: BlockBuilder_Add_def builder_ok_def Let_def PutVarint32_def less_Suc_eq)
    then show ?thesis by blast
  qed
qed

fun build_block :: "int \<Rightarrow> (bytes \<Rightarrow> bytes \<Rightarrow> int) \<Rightarrow> (bytes \<times> bytes) list \<Rightarrow> BlockBuilder \<Rightarrow> BlockBuilder option" where
  "build_block interval compare [] b = Some b"
| "build_block interval compare ((k, v) # es) b = do { b \<leftarrow> BlockBuilder_Add interval compare k v b; build_block interval compare es b }"

context key_comparator
begin

lemma build_block_ok:
  assumes "builder_ok interval b es ixs" "1 \<le> interval" "sorted_entries Compare valid (es @ es')"
  shows "\<exists>b' ixs'. build_block interval Compare es' b = Some b' \<and> builder_ok interval b' (es @ es') ixs'"
  using assms
proof (induction es' arbitrary: b es ixs)
  case (Cons e es')
  obtain k v where e: "e = (k, v)" by fastforce
  have "es = [] \<or> 0 < Compare k (fst (last es))"
  proof (cases "es = []")
    case False
    then have "last es \<in> set es" by simp
    then show ?thesis using Cons.prems(3) Compare_flip [of "fst (last es)" k] by (auto simp: sorted_entries_def sorted_wrt_append e)
  qed simp
  then obtain b1 ixs1 where "BlockBuilder_Add interval Compare k v b = Some b1" "builder_ok interval b1 (es @ [(k, v)]) ixs1"
    using BlockBuilder_Add_ok [OF Cons.prems(1,2)] by blast
  then show ?case using Cons.IH [of b1 "es @ [(k, v)]" ixs1] Cons.prems(2,3) by (simp add: e)
qed auto

end

lemma Finish_loop_eq: "Finish_loop buffer rs = buffer @ concat (map EncodeFixed32 rs)"
  by (induction rs arbitrary: buffer) (simp_all add: PutFixed32_def)

lemma BlockBuilder_Finish_ok:
  "builder_ok interval b es ixs \<Longrightarrow> fst (BlockBuilder_Finish b) = block_bytes es ixs \<and> CurrentSizeEstimate b = length (block_bytes es ixs)"
  by (simp add: builder_ok_def BlockBuilder_Finish_def Let_def Finish_loop_eq PutFixed32_def block_bytes_def o_def CurrentSizeEstimate_def
      length_fixed32s size_simps)

lemma Block_NewIterator_ok:
  assumes L: "layout_ok es ixs"
  shows "\<exists>bl it. Block_new (block_bytes es ixs) = Some bl \<and> Block_NewIterator bl = Some (Inr it) \<and> iter_at it es ixs (length es)"
proof -
  let ?d = "block_bytes es ixs" and ?n = "of_nat (length ixs) :: u32"
  have len: "length ?d = length (entries_bytes es) + 4 * length ixs + 4" by (simp add: block_bytes_def length_fixed32s size_simps)
  have "length ixs < 2 ^ 30" "length ?d < 2 ^ 32" using L len by (auto simp: layout_ok_def)
  then have n: "unat ?n = length ixs" "unat (1 + ?n) = 1 + length ixs" using unat_of_nat_u32 [of "length ixs"] by (simp_all add: unat_word_ariths)
  have "drop (length ?d - 4) ?d = EncodeFixed32 ?n @ []" by (simp add: len) (simp add: block_bytes_def length_fixed32s)
  then have N: "NumRestarts ?d (length ?d) = Some ?n" using len DecodeFixed32_EncodeFixed32 [of ?n "[]"] by (simp add: NumRestarts_def)
  have off: "(length ?d - unat (1 + ?n) * 4) mod 2 ^ 32 = off es (length es)" unfolding n(2) using \<open>length ?d < 2 ^ 32\<close> by (simp add: len off_all)
  have "?n \<noteq> 0" using n(1) layout_okD(4) [OF L] by (metis length_0_conv unat_0)
  then show ?thesis using N L n(1) layout_okD(4) [OF L] off len
    by (simp add: Block_new_def Let_def Block_NewIterator_def BlockIter_new_def iter_at_def iter_block_def)
qed

subsection \<open>What blocks promise\<close>

text \<open>
  (C10) A block gives back the entries it was built from. Entries with increasing internal keys are added to a new
  builder, whatever the restart interval; the finished block, if it is below 4 GB, has an iterator that yields all
  entries in order from \<open>SeekToFirst\<close> with \<open>Next\<close>, all entries in reverse order from \<open>SeekToLast\<close> with \<open>Prev\<close>, and from \<open>Seek\<close>
  exactly the entries at or past the target. The size estimate of the builder is exact.
\<close>

theorem Block_roundtrip:
  assumes "sorted_entries (InternalKey_Compare Bytewise_Compare) valid_internal es" "1 \<le> interval"
  defines "I \<equiv> block_iterator (InternalKey_Compare Bytewise_Compare)"
  shows "\<exists>b0 b. BlockBuilder_new interval = Some b0 \<and> build_block interval (InternalKey_Compare Bytewise_Compare) es b0 = Some b
    \<and> CurrentSizeEstimate b = length (fst (BlockBuilder_Finish b))
    \<and> (CurrentSizeEstimate b < 2 ^ 32 \<longrightarrow> (\<exists>bl it. Block_new (fst (BlockBuilder_Finish b)) = Some bl \<and> Block_NewIterator bl = Some (Inr it)
        \<and> do { it \<leftarrow> v_SeekToFirst I it; scan I (v_Next I) (length es) it } = Some es
        \<and> do { it \<leftarrow> v_SeekToLast I it; scan I (v_Prev I) (length es) it } = Some (rev es)
        \<and> (\<forall>target. valid_internal target \<longrightarrow> do { it \<leftarrow> v_Seek I target it; scan I (v_Next I) (length es) it }
             = Some (dropWhile (\<lambda>e. InternalKey_Compare Bytewise_Compare (fst e) target < 0) es))))"
proof -
  let ?C = "InternalKey_Compare Bytewise_Compare"
  note B = bytewise_user.ikey.block.repr_SeekToFirst bytewise_user.ikey.block.repr_SeekToLast bytewise_user.ikey.block.repr_Seek
    bytewise_user.ikey.block.scan_forward bytewise_user.ikey.block.scan_backward
  obtain b0 where b0: "BlockBuilder_new interval = Some b0" "builder_ok interval b0 [] [0]" using BlockBuilder_new_ok [OF assms(2)] by blast
  obtain b ixs where b: "build_block interval ?C es b0 = Some b" "builder_ok interval b es ixs"
    using bytewise_user.ikey.build_block_ok [OF b0(2) assms(2)] assms(1) by fastforce
  note F = BlockBuilder_Finish_ok [OF b(2)]
  have "\<exists>bl it. Block_new (fst (BlockBuilder_Finish b)) = Some bl \<and> Block_NewIterator bl = Some (Inr it) \<and> block_repr ?C valid_internal it es (length es)"
    if "CurrentSizeEstimate b < 2 ^ 32"
  proof -
    have "layout_ok es ixs" using b(2) F that by (simp add: layout_ok_def builder_ok_def)
    then show ?thesis using Block_NewIterator_ok [of es ixs] F assms(1) by (auto simp: block_repr_def)
  qed
  then have part: "CurrentSizeEstimate b < 2 ^ 32 \<longrightarrow> (\<exists>bl it. Block_new (fst (BlockBuilder_Finish b)) = Some bl \<and> Block_NewIterator bl = Some (Inr it) \<and> Q it)"
    if "\<And>it i. block_repr ?C valid_internal it es i \<Longrightarrow> Q it" for Q using that by blast
  have "do { it \<leftarrow> v_SeekToFirst I it; scan I (v_Next I) (length es) it } = Some es" if "block_repr ?C valid_internal it es i" for it i
    using B(1) [OF that] B(4) [of _ es 0 "length es"] by (auto simp: I_def)
  moreover have "do { it \<leftarrow> v_SeekToLast I it; scan I (v_Prev I) (length es) it } = Some (rev es)" if r: "block_repr ?C valid_internal it es i" for it i
  proof -
    obtain it' where s: "v_SeekToLast I it = Some it'" "block_repr ?C valid_internal it' es (length es - 1)" using B(2) [OF r] by (auto simp: I_def)
    then show ?thesis using B(5) [OF s(2), of "length es"] bytewise_user.ikey.block.repr_Valid [OF s(2)] by (cases "es = []") (auto simp: I_def)
  qed
  moreover have "do { it \<leftarrow> v_Seek I target it; scan I (v_Next I) (length es) it } = Some (dropWhile (\<lambda>e. ?C (fst e) target < 0) es)"
    if "block_repr ?C valid_internal it es i" "valid_internal target" for it i target
    using B(3) [OF that] B(4) [of _ es "seek_pos ?C target es" "length es"] by (auto simp: I_def seek_pos_def dropWhile_eq_drop)
  ultimately show ?thesis using b0(1) b(1) F by (intro exI [of _ b0] exI [of _ b] conjI part) auto
qed

theorem Block_roundtrip_witness:
  "\<exists>b0 b. BlockBuilder_new 2 = Some b0 \<and> build_block 2 (InternalKey_Compare Bytewise_Compare)
       [(InternalKey_new [97] 5 kTypeValue, [1]), (InternalKey_new [97] 3 kTypeValue, [2]), (InternalKey_new [98] 4 kTypeDeletion, [])] b0 = Some b
     \<and> CurrentSizeEstimate b = length (fst (BlockBuilder_Finish b))"
proof -
  have "sorted_entries (InternalKey_Compare Bytewise_Compare) valid_internal
       [(InternalKey_new [97] 5 kTypeValue, [1]), (InternalKey_new [97] 3 kTypeValue, [2]), (InternalKey_new [98] 4 kTypeDeletion, [])]"
    by (simp add: sorted_entries_def bytewise_user.internal_less_iff Bytewise_Compare_lex Pack_less_iff kMaxSequenceNumber_def)
  from Block_roundtrip [OF this, of 2] show ?thesis by auto
qed


end
