(* ===== verification/Merger.thy ===== *)
theory Merger
  imports Block
begin

section \<open>Merging iterators (table/merger.cc)\<close>

text \<open>
  An iterator over the union of the entries of several iterators. The children are held in caching wrappers; their
  pointers are set by the constructor and never null. The current child is an index. That the merged iterator is
  again an iterator in the sense of \<open>db_iterator\<close> is a sublocale, so that it can be merged or read like any other.
\<close>

datatype Direction = kForward | kReverse

record 'it MergingIterator =
  mi_children :: "'it IteratorWrapper list"
  mi_current :: "nat option"
  mi_direction :: Direction

text \<open>A loop over the children that may change each of them.\<close>

fun for_children :: "(nat \<Rightarrow> 'w \<Rightarrow> 'w option) \<Rightarrow> nat \<Rightarrow> 'w list \<Rightarrow> 'w list option" where
  "for_children f i [] = Some []"
| "for_children f i (c # cs) = do { c \<leftarrow> f i c; cs \<leftarrow> for_children f (Suc i) cs; Some (c # cs) }"

definition MergingIterator_new :: "'it Iterator \<Rightarrow> 'it list \<Rightarrow> 'it MergingIterator option" where
  "MergingIterator_new I children = do {
     ws \<leftarrow> for_children (\<lambda>i w. Wrapper_Set I (Some (children ! i)) w) 0 (replicate (length children) Wrapper_new);
     Some \<lparr>mi_children = ws, mi_current = None, mi_direction = kForward\<rparr> }"

definition FindSmallest :: "(bytes \<Rightarrow> bytes \<Rightarrow> int) \<Rightarrow> 'it IteratorWrapper list \<Rightarrow> nat option" where
  "FindSmallest compare children =
     foldl (\<lambda>smallest i. if w_valid (children ! i) then
         (case smallest of None \<Rightarrow> Some i
          | Some s \<Rightarrow> if compare (w_key (children ! i)) (w_key (children ! s)) < 0 then Some i else smallest) else smallest)
       None [0..<length children]"

definition FindLargest :: "(bytes \<Rightarrow> bytes \<Rightarrow> int) \<Rightarrow> 'it IteratorWrapper list \<Rightarrow> nat option" where
  "FindLargest compare children =
     foldl (\<lambda>largest i. if w_valid (children ! i) then
         (case largest of None \<Rightarrow> Some i
          | Some s \<Rightarrow> if 0 < compare (w_key (children ! i)) (w_key (children ! s)) then Some i else largest) else largest)
       None (rev [0..<length children])"

definition Merging_Valid :: "'it MergingIterator \<Rightarrow> bool" where
  "Merging_Valid this \<longleftrightarrow> mi_current this \<noteq> None"

definition Merging_key :: "'it MergingIterator \<Rightarrow> bytes option" where
  "Merging_key this = do { c \<leftarrow> mi_current this; Wrapper_key (mi_children this ! c) }"

definition Merging_value :: "'it Iterator \<Rightarrow> 'it MergingIterator \<Rightarrow> bytes option" where
  "Merging_value I this = do { c \<leftarrow> mi_current this; Wrapper_value I (mi_children this ! c) }"

fun Merging_status_loop :: "'it Iterator \<Rightarrow> 'it IteratorWrapper list \<Rightarrow> Status \<Rightarrow> Status" where
  "Merging_status_loop I [] status = status"
| "Merging_status_loop I (w # ws) status =
     (let status = (case Wrapper_status I w of None \<Rightarrow> status | Some s \<Rightarrow> s)
      in if \<not> Status_ok status then status else Merging_status_loop I ws status)"

definition Merging_status :: "'it Iterator \<Rightarrow> 'it MergingIterator \<Rightarrow> Status" where
  "Merging_status I this = Merging_status_loop I (mi_children this) Status_OK"

definition Merging_SeekToFirst :: "'it Iterator \<Rightarrow> (bytes \<Rightarrow> bytes \<Rightarrow> int) \<Rightarrow> 'it MergingIterator \<Rightarrow> 'it MergingIterator option" where
  "Merging_SeekToFirst I compare this = do {
     ws \<leftarrow> for_children (\<lambda>_. Wrapper_SeekToFirst I) 0 (mi_children this);
     Some \<lparr>mi_children = ws, mi_current = FindSmallest compare ws, mi_direction = kForward\<rparr> }"

definition Merging_SeekToLast :: "'it Iterator \<Rightarrow> (bytes \<Rightarrow> bytes \<Rightarrow> int) \<Rightarrow> 'it MergingIterator \<Rightarrow> 'it MergingIterator option" where
  "Merging_SeekToLast I compare this = do {
     ws \<leftarrow> for_children (\<lambda>_. Wrapper_SeekToLast I) 0 (mi_children this);
     Some \<lparr>mi_children = ws, mi_current = FindLargest compare ws, mi_direction = kReverse\<rparr> }"

definition Merging_Seek :: "'it Iterator \<Rightarrow> (bytes \<Rightarrow> bytes \<Rightarrow> int) \<Rightarrow> bytes \<Rightarrow> 'it MergingIterator \<Rightarrow> 'it MergingIterator option" where
  "Merging_Seek I compare target this = do {
     ws \<leftarrow> for_children (\<lambda>_. Wrapper_Seek I target) 0 (mi_children this);
     Some \<lparr>mi_children = ws, mi_current = FindSmallest compare ws, mi_direction = kForward\<rparr> }"

definition Merging_Next :: "'it Iterator \<Rightarrow> (bytes \<Rightarrow> bytes \<Rightarrow> int) \<Rightarrow> 'it MergingIterator \<Rightarrow> 'it MergingIterator option" where
  "Merging_Next I compare this = do {
     c \<leftarrow> mi_current this;
     key \<leftarrow> Merging_key this;
     ws \<leftarrow> (if mi_direction this \<noteq> kForward then
         for_children (\<lambda>i child. if i \<noteq> c then do {
             child \<leftarrow> Wrapper_Seek I key child;
             if w_valid child \<and> compare key (w_key child) = 0 then Wrapper_Next I child else Some child }
           else Some child) 0 (mi_children this)
       else Some (mi_children this));
     w \<leftarrow> Wrapper_Next I (ws ! c);
     let ws = ws[c := w];
     Some \<lparr>mi_children = ws, mi_current = FindSmallest compare ws, mi_direction = kForward\<rparr> }"

definition Merging_Prev :: "'it Iterator \<Rightarrow> (bytes \<Rightarrow> bytes \<Rightarrow> int) \<Rightarrow> 'it MergingIterator \<Rightarrow> 'it MergingIterator option" where
  "Merging_Prev I compare this = do {
     c \<leftarrow> mi_current this;
     key \<leftarrow> Merging_key this;
     ws \<leftarrow> (if mi_direction this \<noteq> kReverse then
         for_children (\<lambda>i child. if i \<noteq> c then do {
             child \<leftarrow> Wrapper_Seek I key child;
             if w_valid child then Wrapper_Prev I child else Wrapper_SeekToLast I child }
           else Some child) 0 (mi_children this)
       else Some (mi_children this));
     w \<leftarrow> Wrapper_Prev I (ws ! c);
     let ws = ws[c := w];
     Some \<lparr>mi_children = ws, mi_current = FindLargest compare ws, mi_direction = kReverse\<rparr> }"

definition merging_iterator :: "'it Iterator \<Rightarrow> (bytes \<Rightarrow> bytes \<Rightarrow> int) \<Rightarrow> 'it MergingIterator Iterator" where
  "merging_iterator I compare = \<lparr>v_Valid = Merging_Valid, v_SeekToFirst = Merging_SeekToFirst I compare, v_SeekToLast = Merging_SeekToLast I compare,
     v_Seek = Merging_Seek I compare, v_Next = Merging_Next I compare, v_Prev = Merging_Prev I compare,
     v_key = Merging_key, v_value = Merging_value I, v_status = Merging_status I\<rparr>"

text \<open>The factory: no children give the empty iterator, one child is returned itself.\<close>

datatype 'it AnyMerged = MEmpty Status | MOne 'it | MMany "'it MergingIterator"

definition NewMergingIterator :: "'it Iterator \<Rightarrow> 'it list \<Rightarrow> 'it AnyMerged option" where
  "NewMergingIterator I children =
     (case children of [] \<Rightarrow> Some (MEmpty NewEmptyIterator) | [c] \<Rightarrow> Some (MOne c)
      | _ \<Rightarrow> map_option MMany (MergingIterator_new I children))"

subsection \<open>Positions of the children\<close>

text \<open>
  The merged entries are a sorted list, each of which belongs to one child. Moving forward, a child stands
  at its first entry that is not before the current one; moving backward, at its last entry that is not behind it.
\<close>

definition fwd_pos :: "(bytes \<times> bytes) list \<Rightarrow> (bytes \<times> bytes \<Rightarrow> nat) \<Rightarrow> nat \<Rightarrow> nat \<Rightarrow> nat" where
  "fwd_pos es own j i = length (filter (\<lambda>e. own e = j) (take i es))"

definition bwd_pos :: "(bytes \<times> bytes) list \<Rightarrow> (bytes \<times> bytes \<Rightarrow> nat) \<Rightarrow> nat \<Rightarrow> nat \<Rightarrow> nat" where
  "bwd_pos es own j i = (if fwd_pos es own j i = 0 then length (filter (\<lambda>e. own e = j) es) else fwd_pos es own j i - 1)"

definition merge_repr ::
    "('it \<Rightarrow> (bytes \<times> bytes) list \<Rightarrow> nat \<Rightarrow> bool) \<Rightarrow> (bytes \<Rightarrow> bytes \<Rightarrow> int) \<Rightarrow> (bytes \<Rightarrow> bool) \<Rightarrow> 'it MergingIterator \<Rightarrow> (bytes \<times> bytes) list \<Rightarrow> nat \<Rightarrow> bool" where
  "merge_repr repr Compare valid m es i \<longleftrightarrow> i \<le> length es \<and> sorted_entries Compare valid es
     \<and> (\<exists>own. (\<forall>e \<in> set es. own e < length (mi_children m))
         \<and> (\<forall>j < length (mi_children m). wrapper_repr repr (mi_children m ! j) (filter (\<lambda>e. own e = j) es)
             (if mi_direction m = kForward \<or> i = length es then fwd_pos es own j i else bwd_pos es own j (Suc i)))
         \<and> mi_current m = (if i < length es then Some (own (es ! i)) else None))"

text \<open>Before the first seek the children stand anywhere.\<close>

definition merge_children ::
    "('it \<Rightarrow> (bytes \<times> bytes) list \<Rightarrow> nat \<Rightarrow> bool) \<Rightarrow> (bytes \<Rightarrow> bytes \<Rightarrow> int) \<Rightarrow> (bytes \<Rightarrow> bool) \<Rightarrow> 'it MergingIterator \<Rightarrow> (bytes \<times> bytes) list \<Rightarrow> bool" where
  "merge_children repr Compare valid m es \<longleftrightarrow> sorted_entries Compare valid es
     \<and> (\<exists>own. (\<forall>e \<in> set es. own e < length (mi_children m))
         \<and> (\<forall>j < length (mi_children m). \<exists>p. wrapper_repr repr (mi_children m ! j) (filter (\<lambda>e. own e = j) es) p))"

lemma for_children_ok:
  assumes "\<And>j. j < length cs \<Longrightarrow> \<exists>c. f (i + j) (cs ! j) = Some c \<and> Q (i + j) c"
  shows "\<exists>cs'. for_children f i cs = Some cs' \<and> length cs' = length cs \<and> (\<forall>j < length cs. Q (i + j) (cs' ! j))"
  using assms
proof (induction cs arbitrary: i)
  case (Cons c cs)
  obtain c' where c': "f i c = Some c'" "Q i c'" using Cons.prems [of 0] by auto
  have "\<exists>d. f (Suc i + j) (cs ! j) = Some d \<and> Q (Suc i + j) d" if "j < length cs" for j using Cons.prems [of "Suc j"] that by simp
  from Cons.IH [OF this] obtain cs' where "for_children f (Suc i) cs = Some cs'" "length cs' = length cs" "\<forall>j < length cs. Q (Suc i + j) (cs' ! j)" by blast
  then show ?case using c' by (intro exI [of _ "c' # cs'"]) (auto simp: nth_Cons split: nat.split)
qed simp

lemma fwd_pos_Suc: "i < length es \<Longrightarrow> fwd_pos es own j (Suc i) = fwd_pos es own j i + (if own (es ! i) = j then 1 else 0)"
  by (simp add: fwd_pos_def take_Suc_conv_app_nth)

lemma fwd_pos_all [simp]: "fwd_pos es own j (length es) = length (filter (\<lambda>e. own e = j) es)"
  by (simp add: fwd_pos_def)

lemma fwd_pos_le: "fwd_pos es own j i \<le> length (filter (\<lambda>e. own e = j) es)"
  unfolding fwd_pos_def by (metis append_take_drop_id filter_append length_append le_add1)

lemma filter_at_fwd_pos:
  assumes "i < length es"
  shows "fwd_pos es own (own (es ! i)) i < length (filter (\<lambda>e. own e = own (es ! i)) es)"
    "filter (\<lambda>e. own e = own (es ! i)) es ! fwd_pos es own (own (es ! i)) i = es ! i"
proof -
  let ?P = "\<lambda>e. own e = own (es ! i)"
  have "filter ?P es = filter ?P (take i es @ es ! i # drop (Suc i) es)" by (rule arg_cong) (rule id_take_nth_drop [OF assms])
  then have "filter ?P es = filter ?P (take i es) @ es ! i # filter ?P (drop (Suc i) es)" by simp
  then show "fwd_pos es own (own (es ! i)) i < length (filter ?P es)" "filter ?P es ! fwd_pos es own (own (es ! i)) i = es ! i"
    by (simp_all add: fwd_pos_def nth_append)
qed

lemma nth_filter_fwd:
  assumes "fwd_pos es own j i < length (filter (\<lambda>e. own e = j) es)"
  shows "\<exists>m. i \<le> m \<and> m < length es \<and> own (es ! m) = j \<and> filter (\<lambda>e. own e = j) es ! fwd_pos es own j i = es ! m"
proof -
  let ?P = "\<lambda>e. own e = j"
  have s: "filter ?P es = filter ?P (take i es) @ filter ?P (drop i es)" by (metis append_take_drop_id filter_append)
  then have "filter ?P es ! fwd_pos es own j i = filter ?P (drop i es) ! 0" "filter ?P (drop i es) \<noteq> []" using assms by (auto simp: fwd_pos_def nth_append)
  then have "filter ?P es ! fwd_pos es own j i \<in> set (filter ?P (drop i es))" by (metis length_greater_0_conv nth_mem)
  then obtain m where "m < length (drop i es)" "drop i es ! m = filter ?P es ! fwd_pos es own j i" "?P (drop i es ! m)" by (auto simp: in_set_conv_nth)
  then show ?thesis by (intro exI [of _ "i + m"]) auto
qed

lemma nth_filter_bwd:
  assumes "fwd_pos es own j i \<noteq> 0"
  shows "\<exists>m. m < i \<and> m < length es \<and> own (es ! m) = j \<and> filter (\<lambda>e. own e = j) es ! (fwd_pos es own j i - 1) = es ! m"
proof -
  let ?P = "\<lambda>e. own e = j"
  have s: "filter ?P es = filter ?P (take i es) @ filter ?P (drop i es)" by (metis append_take_drop_id filter_append)
  have "fwd_pos es own j i - 1 < length (filter ?P (take i es))" using assms by (simp add: fwd_pos_def)
  then have "filter ?P es ! (fwd_pos es own j i - 1) \<in> set (filter ?P (take i es))" unfolding s by (metis nth_append nth_mem)
  then obtain m where "m < length (take i es)" "take i es ! m = filter ?P es ! (fwd_pos es own j i - 1)" "?P (take i es ! m)" by (auto simp: in_set_conv_nth)
  then show ?thesis by (intro exI [of _ m]) auto
qed
lemma fold_best:
  assumes "\<forall>j \<in> set js. Valid j \<longrightarrow> j = c \<or> (Better c j \<and> \<not> Better j c)" "\<not> Better c c" "c \<in> set js" "Valid c" "best = None \<or> best = Some c \<or> (\<exists>s. best = Some s \<and> Better c s)"
  shows "foldl (\<lambda>best i. if Valid i then (case best of None \<Rightarrow> Some i | Some s \<Rightarrow> if Better i s then Some i else best) else best) best js = Some c"
proof -
  let ?f = "\<lambda>best i. if Valid i then (case best of None \<Rightarrow> Some i | Some s \<Rightarrow> if Better i s then Some i else best) else best"
  have stay: "foldl ?f (Some c) ks = Some c" if "set ks \<subseteq> set js" for ks
    using that assms(1,2) by (induction ks) auto
  have "foldl ?f best ks = Some c" if "set ks \<subseteq> set js" "c \<in> set ks" "best = None \<or> best = Some c \<or> (\<exists>s. best = Some s \<and> Better c s)" for ks best
    using that
  proof (induction ks arbitrary: best)
    case (Cons k ks)
    show ?case
    proof (cases "k = c")
      case True
      then have "?f best k = Some c" using Cons.prems(3) assms(4) by (auto split: option.splits)
      then show ?thesis using stay [of ks] Cons.prems(1) by simp
    next
      case False
      then have "Valid k \<longrightarrow> Better c k" using assms(1) Cons.prems(1) by auto
      then have "?f best k = None \<or> ?f best k = Some c \<or> (\<exists>s. ?f best k = Some s \<and> Better c s)"
        using Cons.prems(3) assms(1) Cons.prems(1) False by (auto split: option.splits)
      then show ?thesis using Cons.IH [of "?f best k"] Cons.prems(1,2) False by auto
    qed
  qed simp
  from this [of js best] show ?thesis using assms by simp
qed

lemma fold_best_None:
  assumes "\<forall>j \<in> set js. \<not> Valid j"
  shows "foldl (\<lambda>best i. if Valid i then (case best of None \<Rightarrow> Some i | Some s \<Rightarrow> if Better i s then Some i else best) else best) None js = None"
  using assms by (induction js) auto

locale merging = child: db_iterator I Compare valid repr + key_comparator Compare valid
  for I :: "'it Iterator" and Compare :: "bytes \<Rightarrow> bytes \<Rightarrow> int" and valid :: "bytes \<Rightarrow> bool" and repr :: "'it \<Rightarrow> (bytes \<times> bytes) list \<Rightarrow> nat \<Rightarrow> bool"
begin

lemma sorted_entriesD:
  assumes "sorted_entries Compare valid es" "i < j" "j < length es"
  shows "Compare (fst (es ! i)) (fst (es ! j)) < 0" "0 < Compare (fst (es ! j)) (fst (es ! i))" "\<not> Compare (fst (es ! j)) (fst (es ! i)) < 0"
    "valid (fst (es ! i))" "valid (fst (es ! j))"
proof -
  show lt: "Compare (fst (es ! i)) (fst (es ! j)) < 0" using assms by (auto simp: sorted_entries_def sorted_wrt_iff_nth_less)
  show v: "valid (fst (es ! i))" "valid (fst (es ! j))" using assms by (auto simp: sorted_entries_def)
  show "0 < Compare (fst (es ! j)) (fst (es ! i))" using lt Compare_flip [OF v] by blast
  then show "\<not> Compare (fst (es ! j)) (fst (es ! i)) < 0" by simp
qed

lemma FindSmallest_ok:
  assumes so: "sorted_entries Compare valid es" and own: "\<forall>e \<in> set es. own e < length ws"
    and ws: "\<forall>j < length ws. wrapper_repr repr (ws ! j) (filter (\<lambda>e. own e = j) es) (fwd_pos es own j i)" and i: "i \<le> length es"
  shows "FindSmallest Compare ws = (if i < length es then Some (own (es ! i)) else None)"
proof (cases "i < length es")
  case True
  define c where "c = own (es ! i)"
  have c: "c < length ws" "w_valid (ws ! c)" "w_key (ws ! c) = fst (es ! i)"
    using ws own True filter_at_fwd_pos [OF True, of own] by (auto simp: wrapper_repr_def c_def)
  have "j = c \<or> Compare (w_key (ws ! c)) (w_key (ws ! j)) < 0 \<and> \<not> Compare (w_key (ws ! j)) (w_key (ws ! c)) < 0" if "j < length ws" "w_valid (ws ! j)" for j
  proof -
    have p: "fwd_pos es own j i < length (filter (\<lambda>e. own e = j) es)" and k: "w_key (ws ! j) = fst (filter (\<lambda>e. own e = j) es ! fwd_pos es own j i)"
      using ws that by (auto simp: wrapper_repr_def)
    obtain m where m: "i \<le> m" "m < length es" "own (es ! m) = j" "w_key (ws ! j) = fst (es ! m)" using nth_filter_fwd [OF p] k by auto
    show ?thesis
    proof (cases "m = i")
      case False
      then show ?thesis using sorted_entriesD [OF so, of i m] m c by simp
    qed (use m in \<open>simp add: c_def\<close>)
  qed
  moreover have "\<not> Compare (w_key (ws ! c)) (w_key (ws ! c)) < 0" using c(3) so True Compare_refl [of "fst (es ! i)"] by (simp add: sorted_entries_def)
  ultimately show ?thesis unfolding FindSmallest_def using c True
    by (subst fold_best [where c = c and Valid = "\<lambda>i. w_valid (ws ! i)" and Better = "\<lambda>i s. Compare (w_key (ws ! i)) (w_key (ws ! s)) < 0"])
       (auto simp: c_def)
next
  case False
  then have "\<not> w_valid (ws ! j)" if "j < length ws" for j using ws that i by (auto simp: wrapper_repr_def)
  then show ?thesis unfolding FindSmallest_def using False by (subst fold_best_None) auto
qed

lemma FindLargest_ok:
  assumes so: "sorted_entries Compare valid es" and own: "\<forall>e \<in> set es. own e < length ws" and i: "i \<le> length es"
    and ws: "\<forall>j < length ws. wrapper_repr repr (ws ! j) (filter (\<lambda>e. own e = j) es) (bwd_pos es own j i)"
  shows "FindLargest Compare ws = (if 0 < i then Some (own (es ! (i - 1))) else None)"
proof (cases "0 < i")
  case True
  define c where "c = own (es ! (i - 1))"
  have l: "i - 1 < length es" "Suc (i - 1) = i" using True i by simp_all
  have "fwd_pos es own c i = Suc (fwd_pos es own c (i - 1))" using fwd_pos_Suc [OF l(1), of own c] l(2) by (simp add: c_def)
  then have c: "c < length ws" "w_valid (ws ! c)" "w_key (ws ! c) = fst (es ! (i - 1))"
    using ws own l filter_at_fwd_pos [OF l(1), of own] by (auto simp: wrapper_repr_def c_def bwd_pos_def)
  have "j = c \<or> 0 < Compare (w_key (ws ! c)) (w_key (ws ! j)) \<and> \<not> 0 < Compare (w_key (ws ! j)) (w_key (ws ! c))" if "j < length ws" "w_valid (ws ! j)" for j
  proof -
    have p: "fwd_pos es own j i \<noteq> 0" and k: "w_key (ws ! j) = fst (filter (\<lambda>e. own e = j) es ! (fwd_pos es own j i - 1))"
      using ws that by (auto simp: wrapper_repr_def bwd_pos_def split: if_splits)
    obtain m where m: "m < i" "m < length es" "own (es ! m) = j" "w_key (ws ! j) = fst (es ! m)" using nth_filter_bwd [OF p] k by auto
    show ?thesis
    proof (cases "m = i - 1")
      case False
      then have "m < i - 1" using m by simp
      from sorted_entriesD [OF so this l(1)] show ?thesis using m c by auto
    qed (use m in \<open>simp add: c_def\<close>)
  qed
  moreover have "\<not> 0 < Compare (w_key (ws ! c)) (w_key (ws ! c))" using c(3) so l Compare_refl [of "fst (es ! (i - 1))"] by (simp add: sorted_entries_def)
  ultimately show ?thesis unfolding FindLargest_def using c True
    by (subst fold_best [where c = c and Valid = "\<lambda>i. w_valid (ws ! i)" and Better = "\<lambda>i s. 0 < Compare (w_key (ws ! i)) (w_key (ws ! s))"])
       (auto simp: c_def)
next
  case False
  then have "\<not> w_valid (ws ! j)" if "j < length ws" for j using ws that by (auto simp: wrapper_repr_def bwd_pos_def fwd_pos_def)
  then show ?thesis unfolding FindLargest_def using False by (subst fold_best_None) auto
qed

lemma sorted_filter: "sorted_entries Compare valid es \<Longrightarrow> sorted_entries Compare valid (filter P es)"
  by (auto simp: sorted_entries_def sorted_wrt_filter)

lemma takeWhile_sorted:
  assumes "sorted_entries Compare valid es" "valid k"
  shows "takeWhile (\<lambda>e. Compare (fst e) k < 0) es = filter (\<lambda>e. Compare (fst e) k < 0) es"
  using assms
proof (induction es)
  case (Cons e es)
  have "\<not> Compare (fst e) k < 0 \<Longrightarrow> filter (\<lambda>e. Compare (fst e) k < 0) es = []"
  proof (rule ccontr)
    assume n: "\<not> Compare (fst e) k < 0" and "filter (\<lambda>e. Compare (fst e) k < 0) es \<noteq> []"
    then obtain x where "x \<in> set es" "Compare (fst x) k < 0" by (auto simp: filter_empty_conv)
    then show False using n Cons.prems Compare_less_trans [of "fst e" "fst x" k] by (auto simp: sorted_entries_def)
  qed
  then show ?case using Cons by (auto simp: sorted_entries_def)
qed simp

lemma seek_pos_own:
  assumes "sorted_entries Compare valid es" "valid k"
  shows "seek_pos Compare k (filter (\<lambda>e. own e = j) es) = fwd_pos es own j (seek_pos Compare k es)"
proof -
  have "take (seek_pos Compare k es) es = takeWhile (\<lambda>e. Compare (fst e) k < 0) es" by (simp add: seek_pos_def takeWhile_eq_take [symmetric])
  then show ?thesis using takeWhile_sorted [OF assms] takeWhile_sorted [OF sorted_filter [OF assms(1)] assms(2), of "\<lambda>e. own e = j"]
    by (simp add: seek_pos_def fwd_pos_def conj_commute)
qed

lemma seek_pos_nth:
  assumes "sorted_entries Compare valid es" "i < length es"
  shows "seek_pos Compare (fst (es ! i)) es = i"
proof -
  have "takeWhile (\<lambda>e. Compare (fst e) (fst (es ! i)) < 0) es = take i es"
  proof (rule takeWhile_eq_take_P_nth)
    fix m assume "m < i" "m < length es"
    then show "Compare (fst (es ! m)) (fst (es ! i)) < 0" using sorted_entriesD(1) assms by blast
  next
    assume "i < length es"
    then show "\<not> Compare (fst (es ! i)) (fst (es ! i)) < 0" using assms Compare_refl [of "fst (es ! i)"] by (simp add: sorted_entries_def)
  qed
  then show ?thesis using assms(2) by (simp add: seek_pos_def)
qed

end
context merging
begin

lemma merge_reprE:
  assumes "merge_repr repr Compare valid m es i"
  obtains own where "i \<le> length es" "sorted_entries Compare valid es" "\<forall>e \<in> set es. own e < length (mi_children m)"
    "\<And>j. j < length (mi_children m) \<Longrightarrow> wrapper_repr repr (mi_children m ! j) (filter (\<lambda>e. own e = j) es)
      (if mi_direction m = kForward \<or> i = length es then fwd_pos es own j i else bwd_pos es own j (Suc i))"
    "mi_current m = (if i < length es then Some (own (es ! i)) else None)"
proof -
  obtain own where "\<forall>e \<in> set es. own e < length (mi_children m)"
    "\<forall>j < length (mi_children m). wrapper_repr repr (mi_children m ! j) (filter (\<lambda>e. own e = j) es)
      (if mi_direction m = kForward \<or> i = length es then fwd_pos es own j i else bwd_pos es own j (Suc i))"
    "mi_current m = (if i < length es then Some (own (es ! i)) else None)"
    using assms unfolding merge_repr_def by (elim conjE exE)
  then show thesis using that [of own] assms by (simp add: merge_repr_def)
qed

lemma merge_children_repr: "merge_repr repr Compare valid m es i \<Longrightarrow> merge_children repr Compare valid m es"
  unfolding merge_repr_def merge_children_def by blast

lemma merge_childrenE:
  assumes "merge_children repr Compare valid m es"
  obtains own p where "sorted_entries Compare valid es" "\<forall>e \<in> set es. own e < length (mi_children m)"
    "\<And>j. j < length (mi_children m) \<Longrightarrow> wrapper_repr repr (mi_children m ! j) (filter (\<lambda>e. own e = j) es) (p j)"
proof -
  obtain own where own: "\<forall>e \<in> set es. own e < length (mi_children m)" "\<forall>j < length (mi_children m). \<exists>p. wrapper_repr repr (mi_children m ! j) (filter (\<lambda>e. own e = j) es) p"
    using assms by (auto simp: merge_children_def)
  then obtain p where "\<forall>j < length (mi_children m). wrapper_repr repr (mi_children m ! j) (filter (\<lambda>e. own e = j) es) (p j)" by metis
  then show thesis using that [of own p] assms own by (simp add: merge_children_def)
qed

lemma merge_forward:
  assumes "sorted_entries Compare valid es" "\<forall>e \<in> set es. own e < length ws" "i \<le> length es"
    "\<forall>j < length ws. wrapper_repr repr (ws ! j) (filter (\<lambda>e. own e = j) es) (fwd_pos es own j i)"
  shows "merge_repr repr Compare valid \<lparr>mi_children = ws, mi_current = FindSmallest Compare ws, mi_direction = kForward\<rparr> es i"
  using assms FindSmallest_ok [OF assms(1,2,4,3)] by (auto simp: merge_repr_def intro!: exI [of _ own])

lemma merge_backward:
  assumes "sorted_entries Compare valid es" "\<forall>e \<in> set es. own e < length ws" "i \<le> length es"
    "\<forall>j < length ws. wrapper_repr repr (ws ! j) (filter (\<lambda>e. own e = j) es) (bwd_pos es own j i)"
  shows "merge_repr repr Compare valid \<lparr>mi_children = ws, mi_current = FindLargest Compare ws, mi_direction = kReverse\<rparr> es (if i = 0 then length es else i - 1)"
proof (cases "i = 0")
  case True
  then have "bwd_pos es own j i = fwd_pos es own j (length es)" for j by (simp add: bwd_pos_def fwd_pos_def)
  then show ?thesis using assms FindLargest_ok [OF assms] True by (auto simp: merge_repr_def intro!: exI [of _ own])
next
  case False
  then have "i - 1 < length es" "Suc (i - 1) = i" using assms(3) by auto
  then show ?thesis using assms FindLargest_ok [OF assms] by (auto simp: merge_repr_def intro!: exI [of _ own])
qed

lemma merge_current:
  assumes "merge_repr repr Compare valid m es i" "i < length es"
  shows "\<exists>c. mi_current m = Some c \<and> c < length (mi_children m) \<and> Merging_key m = Some (fst (es ! i)) \<and> Merging_value I m = Some (snd (es ! i))"
  using assms(1)
proof (rule merge_reprE)
  fix own assume own3: "\<forall>e \<in> set es. own e < length (mi_children m)"
    and own4: "\<And>j. j < length (mi_children m) \<Longrightarrow> wrapper_repr repr (mi_children m ! j) (filter (\<lambda>e. own e = j) es)
      (if mi_direction m = kForward \<or> i = length es then fwd_pos es own j i else bwd_pos es own j (Suc i))"
    and own5: "mi_current m = (if i < length es then Some (own (es ! i)) else None)"
  let ?c = "own (es ! i)" and ?f = "filter (\<lambda>e. own e = own (es ! i)) es"
  have c: "?c < length (mi_children m)" using own3 assms(2) by simp
  have "bwd_pos es own ?c (Suc i) = fwd_pos es own ?c i" using fwd_pos_Suc [OF assms(2)] by (simp add: bwd_pos_def)
  then have w: "wrapper_repr repr (mi_children m ! ?c) ?f (fwd_pos es own ?c i)" using own4 [OF c] by (auto split: if_splits)
  note at = filter_at_fwd_pos [OF assms(2), of own]
  show ?thesis using own5 assms(2) c at child.Wrapper_value_repr [OF w at(1)] w by (auto simp: Merging_key_def Merging_value_def Wrapper_key_def wrapper_repr_def)
qed

lemma Merging_SeekToFirst_ok:
  assumes "merge_children repr Compare valid m es"
  shows "\<exists>m'. Merging_SeekToFirst I Compare m = Some m' \<and> merge_repr repr Compare valid m' es 0"
  using assms
proof (rule merge_childrenE)
  fix own p assume so: "sorted_entries Compare valid es" and own: "\<forall>e \<in> set es. own e < length (mi_children m)"
    and w: "\<And>j. j < length (mi_children m) \<Longrightarrow> wrapper_repr repr (mi_children m ! j) (filter (\<lambda>e. own e = j) es) (p j)"
  have "\<exists>ws. for_children (\<lambda>_. Wrapper_SeekToFirst I) 0 (mi_children m) = Some ws \<and> length ws = length (mi_children m)
      \<and> (\<forall>j < length (mi_children m). wrapper_repr repr (ws ! j) (filter (\<lambda>e. own e = 0 + j) es) (fwd_pos es own (0 + j) 0))"
    by (rule for_children_ok) (use child.Wrapper_move_repr(1) [OF w] in \<open>simp add: fwd_pos_def\<close>)
  then show ?thesis using merge_forward [OF so _ le0, of own] own by (auto simp: Merging_SeekToFirst_def)
qed

lemma Merging_SeekToLast_ok:
  assumes "merge_children repr Compare valid m es"
  shows "\<exists>m'. Merging_SeekToLast I Compare m = Some m' \<and> merge_repr repr Compare valid m' es (length es - 1)"
  using assms
proof (rule merge_childrenE)
  fix own p assume so: "sorted_entries Compare valid es" and own: "\<forall>e \<in> set es. own e < length (mi_children m)"
    and w: "\<And>j. j < length (mi_children m) \<Longrightarrow> wrapper_repr repr (mi_children m ! j) (filter (\<lambda>e. own e = j) es) (p j)"
  have l: "bwd_pos es own j (length es) = length (filter (\<lambda>e. own e = j) es) - 1" for j by (simp add: bwd_pos_def)
  have "\<exists>ws. for_children (\<lambda>_. Wrapper_SeekToLast I) 0 (mi_children m) = Some ws \<and> length ws = length (mi_children m)
      \<and> (\<forall>j < length (mi_children m). wrapper_repr repr (ws ! j) (filter (\<lambda>e. own e = 0 + j) es) (bwd_pos es own (0 + j) (length es)))"
    by (rule for_children_ok) (use child.Wrapper_move_repr(2) [OF w] in \<open>simp add: l\<close>)
  then obtain ws where ws: "for_children (\<lambda>_. Wrapper_SeekToLast I) 0 (mi_children m) = Some ws" "length ws = length (mi_children m)"
    "\<forall>j < length ws. wrapper_repr repr (ws ! j) (filter (\<lambda>e. own e = j) es) (bwd_pos es own j (length es))" by auto
  have "merge_repr repr Compare valid \<lparr>mi_children = ws, mi_current = FindLargest Compare ws, mi_direction = kReverse\<rparr> es (length es - 1)"
    using merge_backward [OF so _ order_refl ws(3)] own ws(2) by (cases "es = []") auto
  then show ?thesis using ws(1) by (simp add: Merging_SeekToLast_def)
qed

lemma Merging_Seek_ok:
  assumes "merge_children repr Compare valid m es" "valid target"
  shows "\<exists>m'. Merging_Seek I Compare target m = Some m' \<and> merge_repr repr Compare valid m' es (seek_pos Compare target es)"
  using assms(1)
proof (rule merge_childrenE)
  fix own p assume so: "sorted_entries Compare valid es" and own: "\<forall>e \<in> set es. own e < length (mi_children m)"
    and w: "\<And>j. j < length (mi_children m) \<Longrightarrow> wrapper_repr repr (mi_children m ! j) (filter (\<lambda>e. own e = j) es) (p j)"
  have "\<exists>ws. for_children (\<lambda>_. Wrapper_Seek I target) 0 (mi_children m) = Some ws \<and> length ws = length (mi_children m)
      \<and> (\<forall>j < length (mi_children m). wrapper_repr repr (ws ! j) (filter (\<lambda>e. own e = 0 + j) es) (fwd_pos es own (0 + j) (seek_pos Compare target es)))"
    by (rule for_children_ok) (use child.Wrapper_move_repr(3) [OF w assms(2)] in \<open>simp add: seek_pos_own [OF so assms(2)]\<close>)
  then show ?thesis using merge_forward [OF so _ seek_pos_le, of own] own by (auto simp: Merging_Seek_def)
qed

end
context merging
begin

text \<open>Changing direction brings the children other than the current one to where the new direction has them.\<close>

lemma turn_forward:
  assumes r: "merge_repr repr Compare valid m es i" and i: "i < length es" and c: "mi_current m = Some c" and key: "Merging_key m = Some key"
  shows "\<exists>ws own. (if mi_direction m \<noteq> kForward then
       for_children (\<lambda>i child. if i \<noteq> c then do { child \<leftarrow> Wrapper_Seek I key child;
           if w_valid child \<and> Compare key (w_key child) = 0 then Wrapper_Next I child else Some child } else Some child) 0 (mi_children m)
       else Some (mi_children m)) = Some ws
     \<and> length ws = length (mi_children m) \<and> sorted_entries Compare valid es \<and> (\<forall>e \<in> set es. own e < length ws) \<and> c = own (es ! i)
     \<and> (\<forall>j < length ws. wrapper_repr repr (ws ! j) (filter (\<lambda>e. own e = j) es) (fwd_pos es own j i))"
  using r
proof (rule merge_reprE)
  fix own assume so: "sorted_entries Compare valid es" and own: "\<forall>e \<in> set es. own e < length (mi_children m)"
    and w: "\<And>j. j < length (mi_children m) \<Longrightarrow> wrapper_repr repr (mi_children m ! j) (filter (\<lambda>e. own e = j) es)
      (if mi_direction m = kForward \<or> i = length es then fwd_pos es own j i else bwd_pos es own j (Suc i))"
    and "mi_current m = (if i < length es then Some (own (es ! i)) else None)"
  then have co: "c = own (es ! i)" using i c by simp
  have k: "key = fst (es ! i)" "valid key" using merge_current [OF r i] key so i by (auto simp: sorted_entries_def)
  let ?f = "\<lambda>i child. if i \<noteq> c then do { child \<leftarrow> Wrapper_Seek I key child;
           if w_valid child \<and> Compare key (w_key child) = 0 then Wrapper_Next I child else Some child } else Some child"
  show ?thesis
  proof (cases "mi_direction m = kForward")
    case True
    then show ?thesis using w so own co by (intro exI [of _ "mi_children m"] exI [of _ own]) auto
  next
    case False
    have "\<exists>ws. for_children ?f 0 (mi_children m) = Some ws \<and> length ws = length (mi_children m)
      \<and> (\<forall>j < length (mi_children m). wrapper_repr repr (ws ! j) (filter (\<lambda>e. own e = 0 + j) es) (fwd_pos es own (0 + j) i))"
    proof (rule for_children_ok)
      fix j assume j: "j < length (mi_children m)"
      show "\<exists>d. ?f (0 + j) (mi_children m ! j) = Some d \<and> wrapper_repr repr d (filter (\<lambda>e. own e = 0 + j) es) (fwd_pos es own (0 + j) i)"
      proof (cases "j = c")
        case True
        then have "bwd_pos es own j (Suc i) = fwd_pos es own j i" using fwd_pos_Suc [OF i] co by (simp add: bwd_pos_def)
        then show ?thesis using w [OF j] False True i by auto
      next
        case ne: False
        obtain d where d: "Wrapper_Seek I key (mi_children m ! j) = Some d" "wrapper_repr repr d (filter (\<lambda>e. own e = j) es) (fwd_pos es own j i)"
          using child.Wrapper_move_repr(3) [OF w [OF j] k(2)] seek_pos_own [OF so k(2)] seek_pos_nth [OF so i] k(1) by auto
        have "\<not> (w_valid d \<and> Compare key (w_key d) = 0)"
        proof
          assume v: "w_valid d \<and> Compare key (w_key d) = 0"
          then obtain p where p: "i \<le> p" "p < length es" "own (es ! p) = j" "w_key d = fst (es ! p)"
            using nth_filter_fwd [of es own j i] d(2) by (auto simp: wrapper_repr_def)
          moreover have "p \<noteq> i" using p ne co by auto
          ultimately have "Compare key (w_key d) < 0" using sorted_entriesD(1) [OF so, of i p] k(1) by simp
          then show False using v by simp
        qed
        then show ?thesis using d ne by auto
      qed
    qed
    then show ?thesis using False so own co by (auto intro!: exI [of _ own])
  qed
qed

lemma turn_backward:
  assumes r: "merge_repr repr Compare valid m es i" and i: "i < length es" and c: "mi_current m = Some c" and key: "Merging_key m = Some key"
  shows "\<exists>ws own. (if mi_direction m \<noteq> kReverse then
       for_children (\<lambda>i child. if i \<noteq> c then do { child \<leftarrow> Wrapper_Seek I key child;
           if w_valid child then Wrapper_Prev I child else Wrapper_SeekToLast I child } else Some child) 0 (mi_children m)
       else Some (mi_children m)) = Some ws
     \<and> length ws = length (mi_children m) \<and> sorted_entries Compare valid es \<and> (\<forall>e \<in> set es. own e < length ws) \<and> c = own (es ! i)
     \<and> (\<forall>j < length ws. wrapper_repr repr (ws ! j) (filter (\<lambda>e. own e = j) es) (bwd_pos es own j (Suc i)))"
  using r
proof (rule merge_reprE)
  fix own assume so: "sorted_entries Compare valid es" and own: "\<forall>e \<in> set es. own e < length (mi_children m)"
    and w: "\<And>j. j < length (mi_children m) \<Longrightarrow> wrapper_repr repr (mi_children m ! j) (filter (\<lambda>e. own e = j) es)
      (if mi_direction m = kForward \<or> i = length es then fwd_pos es own j i else bwd_pos es own j (Suc i))"
    and "mi_current m = (if i < length es then Some (own (es ! i)) else None)"
  then have co: "c = own (es ! i)" using i c by simp
  have k: "key = fst (es ! i)" "valid key" using merge_current [OF r i] key so i by (auto simp: sorted_entries_def)
  let ?f = "\<lambda>i child. if i \<noteq> c then do { child \<leftarrow> Wrapper_Seek I key child;
           if w_valid child then Wrapper_Prev I child else Wrapper_SeekToLast I child } else Some child"
  show ?thesis
  proof (cases "mi_direction m = kReverse")
    case True
    then show ?thesis using w so own co i by (intro exI [of _ "mi_children m"] exI [of _ own]) auto
  next
    case False
    then have fw: "mi_direction m = kForward" by (cases "mi_direction m") auto
    have "\<exists>ws. for_children ?f 0 (mi_children m) = Some ws \<and> length ws = length (mi_children m)
      \<and> (\<forall>j < length (mi_children m). wrapper_repr repr (ws ! j) (filter (\<lambda>e. own e = 0 + j) es) (bwd_pos es own (0 + j) (Suc i)))"
    proof (rule for_children_ok)
      fix j assume j: "j < length (mi_children m)"
      show "\<exists>d. ?f (0 + j) (mi_children m ! j) = Some d \<and> wrapper_repr repr d (filter (\<lambda>e. own e = 0 + j) es) (bwd_pos es own (0 + j) (Suc i))"
      proof (cases "j = c")
        case True
        then have "bwd_pos es own j (Suc i) = fwd_pos es own j i" using fwd_pos_Suc [OF i] co by (simp add: bwd_pos_def)
        then show ?thesis using w [OF j] fw True by auto
      next
        case ne: False
        then have b: "bwd_pos es own j (Suc i) = bwd_pos es own j i" using fwd_pos_Suc [OF i, of own j] co by (simp add: bwd_pos_def)
        obtain d where d: "Wrapper_Seek I key (mi_children m ! j) = Some d" "wrapper_repr repr d (filter (\<lambda>e. own e = j) es) (fwd_pos es own j i)"
          using child.Wrapper_move_repr(3) [OF w [OF j] k(2)] seek_pos_own [OF so k(2)] seek_pos_nth [OF so i] k(1) by auto
        show ?thesis
        proof (cases "fwd_pos es own j i < length (filter (\<lambda>e. own e = j) es)")
          case True
          then have "w_valid d" using d(2) by (simp add: wrapper_repr_def)
          then show ?thesis using child.Wrapper_move_repr(5) [OF d(2) True] d(1) ne b by (auto simp: bwd_pos_def)
        next
          case F: False
          then have "\<not> w_valid d" "fwd_pos es own j i = length (filter (\<lambda>e. own e = j) es)" using d(2) fwd_pos_le [of es own j i] by (simp_all add: wrapper_repr_def)
          then show ?thesis using child.Wrapper_move_repr(2) [OF d(2)] d(1) ne b by (auto simp: bwd_pos_def)
        qed
      qed
    qed
    then show ?thesis using False so own co by (auto intro!: exI [of _ own])
  qed
qed

lemma Merging_Next_ok:
  assumes r: "merge_repr repr Compare valid m es i" and i: "i < length es"
  shows "\<exists>m'. Merging_Next I Compare m = Some m' \<and> merge_repr repr Compare valid m' es (Suc i)"
proof -
  obtain c where c: "mi_current m = Some c" "c < length (mi_children m)" "Merging_key m = Some (fst (es ! i))" using merge_current [OF r i] by blast
  from turn_forward [OF r i c(1,3)] obtain ws own where ws: "(if mi_direction m \<noteq> kForward then
       for_children (\<lambda>i' child. if i' \<noteq> c then do { child \<leftarrow> Wrapper_Seek I (fst (es ! i)) child;
           if w_valid child \<and> Compare (fst (es ! i)) (w_key child) = 0 then Wrapper_Next I child else Some child } else Some child) 0 (mi_children m)
       else Some (mi_children m)) = Some ws"
    and l: "length ws = length (mi_children m)" and so: "sorted_entries Compare valid es" and own: "\<forall>e \<in> set es. own e < length ws" and co: "c = own (es ! i)"
    and w: "\<forall>j < length ws. wrapper_repr repr (ws ! j) (filter (\<lambda>e. own e = j) es) (fwd_pos es own j i)" by blast
  have "fwd_pos es own c i < length (filter (\<lambda>e. own e = c) es)" using filter_at_fwd_pos(1) [OF i, of own] co by simp
  from child.Wrapper_move_repr(4) [OF _ this] w c(2) l obtain d where
    d: "Wrapper_Next I (ws ! c) = Some d" "wrapper_repr repr d (filter (\<lambda>e. own e = c) es) (Suc (fwd_pos es own c i))" by auto
  have "\<forall>j < length (ws[c := d]). wrapper_repr repr (ws[c := d] ! j) (filter (\<lambda>e. own e = j) es) (fwd_pos es own j (Suc i))"
    using w d(2) fwd_pos_Suc [OF i, of own] co by (auto simp: nth_list_update)
  from merge_forward [OF so _ _ this] have "merge_repr repr Compare valid \<lparr>mi_children = ws[c := d], mi_current = FindSmallest Compare (ws[c := d]), mi_direction = kForward\<rparr> es (Suc i)"
    using own i by simp
  then show ?thesis unfolding Merging_Next_def c(1,3) bind.bind_lunit ws d(1) Let_def by simp
qed

lemma Merging_Prev_ok:
  assumes r: "merge_repr repr Compare valid m es i" and i: "i < length es"
  shows "\<exists>m'. Merging_Prev I Compare m = Some m' \<and> merge_repr repr Compare valid m' es (if i = 0 then length es else i - 1)"
proof -
  obtain c where c: "mi_current m = Some c" "c < length (mi_children m)" "Merging_key m = Some (fst (es ! i))" using merge_current [OF r i] by blast
  from turn_backward [OF r i c(1,3)] obtain ws own where ws: "(if mi_direction m \<noteq> kReverse then
       for_children (\<lambda>i' child. if i' \<noteq> c then do { child \<leftarrow> Wrapper_Seek I (fst (es ! i)) child;
           if w_valid child then Wrapper_Prev I child else Wrapper_SeekToLast I child } else Some child) 0 (mi_children m)
       else Some (mi_children m)) = Some ws"
    and l: "length ws = length (mi_children m)" and so: "sorted_entries Compare valid es" and own: "\<forall>e \<in> set es. own e < length ws" and co: "c = own (es ! i)"
    and w: "\<forall>j < length ws. wrapper_repr repr (ws ! j) (filter (\<lambda>e. own e = j) es) (bwd_pos es own j (Suc i))" by blast
  have b: "bwd_pos es own c (Suc i) = fwd_pos es own c i" using fwd_pos_Suc [OF i] co by (simp add: bwd_pos_def)
  have "fwd_pos es own c i < length (filter (\<lambda>e. own e = c) es)" using filter_at_fwd_pos(1) [OF i, of own] co by simp
  moreover have "wrapper_repr repr (ws ! c) (filter (\<lambda>e. own e = c) es) (fwd_pos es own c i)" using w c(2) l b by (metis (full_types))
  ultimately obtain d where
    d: "Wrapper_Prev I (ws ! c) = Some d" "wrapper_repr repr d (filter (\<lambda>e. own e = c) es) (bwd_pos es own c i)" using child.Wrapper_move_repr(5) unfolding bwd_pos_def by blast
  have "bwd_pos es own j (Suc i) = bwd_pos es own j i" if "j \<noteq> c" for j using fwd_pos_Suc [OF i, of own j] co that by (simp add: bwd_pos_def)
  then have "\<forall>j < length (ws[c := d]). wrapper_repr repr (ws[c := d] ! j) (filter (\<lambda>e. own e = j) es) (bwd_pos es own j i)"
    using w d(2) c(2) l by (auto simp: nth_list_update)
  from merge_backward [OF so _ _ this] have "merge_repr repr Compare valid \<lparr>mi_children = ws[c := d], mi_current = FindLargest Compare (ws[c := d]), mi_direction = kReverse\<rparr> es
      (if i = 0 then length es else i - 1)"
    using own i by simp
  then show ?thesis unfolding Merging_Prev_def c(1,3) bind.bind_lunit ws d(1) Let_def by simp
qed

lemma Merging_status_ok:
  assumes "merge_repr repr Compare valid m es i"
  shows "Merging_status I m = Status_OK"
proof -
  have "Wrapper_status I w = Some Status_OK" if w: "w \<in> set (mi_children m)" for w
  proof -
    obtain j where "j < length (mi_children m)" "w = mi_children m ! j" using w by (auto simp: in_set_conv_nth)
    then obtain es' p where "wrapper_repr repr w es' p" using assms unfolding merge_repr_def by blast
    then show ?thesis using child.repr_status by (auto simp: wrapper_repr_def Wrapper_status_def)
  qed
  then have "set ws \<subseteq> set (mi_children m) \<Longrightarrow> Merging_status_loop I ws Status_OK = Status_OK" for ws by (induction ws) (auto simp: Let_def)
  then show ?thesis by (simp add: Merging_status_def)
qed

lemma merging_db_iterator: "db_iterator (merging_iterator I Compare) Compare valid (merge_repr repr Compare valid)"
proof (unfold_locales, goal_cases)
  case (1 m es i) then show ?case by (simp add: merge_repr_def)
next
  case (2 m es i) then show ?case by (simp add: merging_iterator_def Merging_status_ok)
next
  case (3 m es i) then show ?case by (auto simp: merging_iterator_def Merging_Valid_def merge_repr_def split: if_splits)
next
  case (4 m es i) then show ?case using merge_current by (auto simp: merging_iterator_def)
next
  case (5 m es i) then show ?case by (simp add: merging_iterator_def Merging_SeekToFirst_ok merge_children_repr)
next
  case (6 m es i) then show ?case using Merging_SeekToLast_ok [OF merge_children_repr] by (simp add: merging_iterator_def)
next
  case (7 m es i k) then show ?case by (simp add: merging_iterator_def Merging_Seek_ok merge_children_repr)
next
  case (8 m es i) then show ?case by (simp add: merging_iterator_def Merging_Next_ok)
next
  case (9 m es i) then show ?case using Merging_Prev_ok by (simp add: merging_iterator_def)
qed

lemma MergingIterator_new_ok:
  assumes "sorted_entries Compare valid es" "\<forall>e \<in> set es. own e < length children"
    "\<forall>j < length children. repr (children ! j) (filter (\<lambda>e. own e = j) es) (p j)"
  shows "\<exists>m. MergingIterator_new I children = Some m \<and> merge_children repr Compare valid m es"
proof -
  have "\<exists>ws. for_children (\<lambda>i w. Wrapper_Set I (Some (children ! i)) w) 0 (replicate (length children) Wrapper_new) = Some ws
      \<and> length ws = length (replicate (length children) (Wrapper_new :: 'it IteratorWrapper))
      \<and> (\<forall>j < length (replicate (length children) (Wrapper_new :: 'it IteratorWrapper)). \<exists>p. wrapper_repr repr (ws ! j) (filter (\<lambda>e. own e = 0 + j) es) p)"
    by (rule for_children_ok) (use assms(3) child.Wrapper_Set_repr in fastforce)
  then show ?thesis using assms(1,2) by (auto simp: MergingIterator_new_def merge_children_def intro!: exI [of _ own])
qed

end

sublocale merging \<subseteq> merged: db_iterator "merging_iterator I Compare" Compare valid "merge_repr repr Compare valid"
  by (rule merging_db_iterator)

context merging
begin

lemma first_move_ok:
  assumes "merge_children repr Compare valid m es" "move \<noteq> MoveNext" "move \<noteq> MovePrev" "\<forall>t. move = MoveSeek t \<longrightarrow> valid t"
  shows "\<exists>m' i. move_iterator (merging_iterator I Compare) move m = Some m' \<and> move_cursor Compare es move 0 = Some i \<and> merge_repr repr Compare valid m' es i"
  using Merging_SeekToFirst_ok [OF assms(1)] Merging_SeekToLast_ok [OF assms(1)] Merging_Seek_ok [OF assms(1)] assms(2-4)
  by (cases move) (auto simp: merging_iterator_def)

lemma merged_moves:
  assumes "merge_children repr Compare valid m es" "move \<noteq> MoveNext" "move \<noteq> MovePrev" "\<forall>t. MoveSeek t \<in> set (move # ms) \<longrightarrow> valid t"
    "moves (move_cursor Compare es) (move # ms) 0 = Some i"
  shows "\<exists>m'. moves (move_iterator (merging_iterator I Compare)) (move # ms) m = Some m'
    \<and> observe (merging_iterator I Compare) m' = Some (if i < length es then Some (es ! i) else None) \<and> v_status (merging_iterator I Compare) m' = Status_OK"
proof -
  obtain m1 i1 where 1: "move_iterator (merging_iterator I Compare) move m = Some m1" "move_cursor Compare es move 0 = Some i1" "merge_repr repr Compare valid m1 es i1"
    using first_move_ok [OF assms(1-3)] assms(4) by fastforce
  then obtain m' where "moves (move_iterator (merging_iterator I Compare)) ms m1 = Some m'" "merge_repr repr Compare valid m' es i"
    using merged.moves_refine [OF 1(3), of ms i] assms(4,5) by auto
  then show ?thesis using 1(1) merged.observe_repr merged.repr_status by auto
qed

end

interpretation merged_blocks: merging "block_iterator (InternalKey_Compare Bytewise_Compare)" "InternalKey_Compare Bytewise_Compare" valid_internal
    "block_repr (InternalKey_Compare Bytewise_Compare) valid_internal"
  by unfold_locales

text \<open>
  (C8) A merging iterator over blocks is a cursor in the union of their entries. The entries, sorted by internal key,
  are distributed over the blocks in any way. After the iterators of the blocks, wherever they stand, were put into a new
  merging iterator and it was positioned, every sequence of moves that a cursor in the sorted list allows,
  with changes of direction at any point, succeeds and leads to the entry at which the cursor stands.
\<close>

theorem Merging_refines_cursor:
  assumes "sorted_entries (InternalKey_Compare Bytewise_Compare) valid_internal es" "\<forall>e \<in> set es. own e < length its"
    and "\<forall>j < length its. block_repr (InternalKey_Compare Bytewise_Compare) valid_internal (its ! j) (filter (\<lambda>e. own e = j) es) (p j)"
    and "move \<noteq> MoveNext" "move \<noteq> MovePrev" "\<forall>t. MoveSeek t \<in> set (move # ms) \<longrightarrow> valid_internal t"
    and "moves (move_cursor (InternalKey_Compare Bytewise_Compare) es) (move # ms) 0 = Some i"
  defines "B \<equiv> block_iterator (InternalKey_Compare Bytewise_Compare)"
  defines "M \<equiv> merging_iterator B (InternalKey_Compare Bytewise_Compare)"
  shows "\<exists>m m'. MergingIterator_new B its = Some m \<and> moves (move_iterator M) (move # ms) m = Some m'
    \<and> observe M m' = Some (if i < length es then Some (es ! i) else None) \<and> v_status M m' = Status_OK"
  using merged_blocks.MergingIterator_new_ok [OF assms(1-3)] merged_blocks.merged_moves [OF _ assms(4-7)] unfolding B_def M_def by blast

theorem Merging_refines_cursor_witness:
  "\<exists>its m m'. length its = 2 \<and> MergingIterator_new (block_iterator (InternalKey_Compare Bytewise_Compare)) its = Some m
    \<and> moves (move_iterator (merging_iterator (block_iterator (InternalKey_Compare Bytewise_Compare)) (InternalKey_Compare Bytewise_Compare)))
        [MoveFirst, MoveNext, MoveNext, MovePrev] m = Some m'
    \<and> observe (merging_iterator (block_iterator (InternalKey_Compare Bytewise_Compare)) (InternalKey_Compare Bytewise_Compare)) m'
        = Some (Some (InternalKey_new [98] 7 kTypeValue, [2]))"
proof -
  let ?C = "InternalKey_Compare Bytewise_Compare"
  let ?es = "[(InternalKey_new [97] 5 kTypeValue, [1]), (InternalKey_new [98] 7 kTypeValue, [2]), (InternalKey_new [99] 4 kTypeDeletion, [])] :: (bytes \<times> bytes) list"
  let ?own = "\<lambda>e :: bytes \<times> bytes. if snd e = [2] then 1 else 0 :: nat"
  have so: "sorted_entries ?C valid_internal ?es"
    by (simp add: sorted_entries_def bytewise_user.internal_less_iff Bytewise_Compare_lex Pack_less_iff kMaxSequenceNumber_def)
  let ?F = "\<lambda>j. filter (\<lambda>e. ?own e = j) ?es"
  have L: "layout_ok (?F j) [0]" if "j < 2" for j
    using that length_EncodeVarint32_le_5 [of 0] length_EncodeVarint32_le_5 [of 1] length_EncodeVarint32_le_5 [of 9]
    by (auto simp: less_2_cases_iff layout_ok_def block_bytes_def InternalKey_new_def AppendInternalKey_def PutFixed64_def size_simps)
  obtain it0 it1 where it: "iter_at it0 (?F 0) [0] (length (?F 0))" "iter_at it1 (?F 1) [0] (length (?F 1))"
    using Block_NewIterator_ok [OF L [of 0]] Block_NewIterator_ok [OF L [of 1]] by auto
  have r0: "block_repr ?C valid_internal it0 (?F 0) (length (?F 0))" unfolding block_repr_def using it(1) merged_blocks.sorted_filter [OF so] by blast
  have r1: "block_repr ?C valid_internal it1 (?F 1) (length (?F 1))" unfolding block_repr_def using it(2) merged_blocks.sorted_filter [OF so] by blast
  have r: "\<forall>j < length [it0, it1]. block_repr ?C valid_internal ([it0, it1] ! j) (?F j) (length (?F j))"
    using r0 r1 by (simp only: list.size All_less_Suc nth_Cons_0 nth_Cons_Suc One_nat_def add_0 add_Suc_right add_0_right) simp
  have own: "\<forall>e \<in> set ?es. ?own e < length [it0, it1]" by simp
  have mc: "moves (move_cursor ?C ?es) [MoveFirst, MoveNext, MoveNext, MovePrev] 0 = Some 1" by simp
  have "\<forall>t. MoveSeek t \<in> set [MoveFirst, MoveNext, MoveNext, MovePrev] \<longrightarrow> valid_internal t" by simp
  from Merging_refines_cursor [OF so own r _ _ this mc] obtain m m' where f1: "MergingIterator_new (block_iterator ?C) [it0, it1] = Some m"
    and f2: "moves (move_iterator (merging_iterator (block_iterator ?C) ?C)) [MoveFirst, MoveNext, MoveNext, MovePrev] m = Some m'"
    and "observe (merging_iterator (block_iterator ?C) ?C) m' = Some (if 1 < length ?es then Some (?es ! 1) else None)" by blast
  then have f3: "observe (merging_iterator (block_iterator ?C) ?C) m' = Some (Some (InternalKey_new [98] 7 kTypeValue, [2]))" by simp
  have "length [it0, it1] = 2" by simp
  then show ?thesis using f1 f2 f3 by blast
qed

end
