(* ===== verification/TableFormat.thy ===== *)
theory TableFormat
  imports Block Crc32c FileInterface
begin

section \<open>The format of table files (table/format.h, table/format.cc)\<close>

text \<open>
  Handles of blocks, the footer, and how a block is read from a random access file. Snappy is a library outside the
  sources; its two functions are the parameter \<open>snappy_uncompress\<close>, which is \<open>None\<close> for input it refuses. The parameter
  \<open>in_scratch\<close> tells whether the file returned its data in the buffer it was given.
\<close>

record BlockHandle =
  bh_offset :: u64
  bh_size :: u64

definition BlockHandle_new :: BlockHandle where
  "BlockHandle_new = \<lparr>bh_offset = NOT 0, bh_size = NOT 0\<rparr>"

definition kMaxEncodedLength :: nat where "kMaxEncodedLength = 10 + 10"

definition BlockHandle_EncodeTo :: "BlockHandle \<Rightarrow> bytes \<Rightarrow> bytes option" where
  "BlockHandle_EncodeTo this dst =
     (if bh_offset this = NOT 0 \<or> bh_size this = NOT 0 then None
      else Some (PutVarint64 (PutVarint64 dst (bh_offset this)) (bh_size this)))"

definition BlockHandle_DecodeFrom :: "BlockHandle \<Rightarrow> bytes \<Rightarrow> Status \<times> BlockHandle \<times> bytes" where
  "BlockHandle_DecodeFrom this input =
     (case GetVarint64 input of
        None \<Rightarrow> (Corruption (bytes_of_string ''bad block handle'') [], this, input)
      | Some (ofs, input) \<Rightarrow>
          (case GetVarint64 input of
             None \<Rightarrow> (Corruption (bytes_of_string ''bad block handle'') [], this\<lparr>bh_offset := ofs\<rparr>, input)
           | Some (sz, input) \<Rightarrow> (Status_OK, this\<lparr>bh_offset := ofs, bh_size := sz\<rparr>, input)))"

record Footer =
  ft_metaindex :: BlockHandle
  ft_index :: BlockHandle

definition Footer_new :: Footer where
  "Footer_new = \<lparr>ft_metaindex = BlockHandle_new, ft_index = BlockHandle_new\<rparr>"

definition kTableMagicNumber :: u64 where "kTableMagicNumber = 0xdb4775248b80fb57"

definition kFooterLength :: nat where "kFooterLength = 2 * kMaxEncodedLength + 8"

definition string_resize :: "bytes \<Rightarrow> nat \<Rightarrow> bytes" where
  "string_resize s n = take n s @ replicate (n - length s) 0"

definition Footer_EncodeTo :: "Footer \<Rightarrow> bytes \<Rightarrow> bytes option" where
  "Footer_EncodeTo this dst =
     (let original_size = length dst in do {
        dst \<leftarrow> BlockHandle_EncodeTo (ft_metaindex this) dst;
        dst \<leftarrow> BlockHandle_EncodeTo (ft_index this) dst;
        let dst = string_resize dst (2 * kMaxEncodedLength);
        let dst = PutFixed32 dst (ucast (kTableMagicNumber AND 0xffffffff));
        let dst = PutFixed32 dst (ucast (drop_bit 32 kTableMagicNumber));
        if length dst = original_size + kFooterLength then Some dst else None })"

definition Footer_DecodeFrom :: "Footer \<Rightarrow> bytes \<Rightarrow> (Status \<times> Footer \<times> bytes) option" where
  "Footer_DecodeFrom this input = do {
     magic_lo \<leftarrow> DecodeFixed32 (drop (kFooterLength - 8) input);
     magic_hi \<leftarrow> DecodeFixed32 (drop (kFooterLength - 8 + 4) input);
     let magic = push_bit 32 (ucast magic_hi :: u64) OR ucast magic_lo;
     if magic \<noteq> kTableMagicNumber then Some (Corruption (bytes_of_string ''not an sstable (bad magic number)'') [], this, input)
     else
       let (result, h, input1) = BlockHandle_DecodeFrom (ft_metaindex this) input; this = this\<lparr>ft_metaindex := h\<rparr> in
       if \<not> Status_ok result then Some (result, this, input1)
       else
         let (result, h, input2) = BlockHandle_DecodeFrom (ft_index this) input1; this = this\<lparr>ft_index := h\<rparr> in
         if \<not> Status_ok result then Some (result, this, input2)
         else Some (result, this, drop kFooterLength input) }"

definition kBlockTrailerSize :: nat where "kBlockTrailerSize = 5"

datatype CompressionType = kNoCompression | kSnappyCompression

fun CompressionType_code :: "CompressionType \<Rightarrow> byte" where
  "CompressionType_code kNoCompression = 0"
| "CompressionType_code kSnappyCompression = 1"

record BlockContents =
  bc_data :: bytes
  bc_cachable :: bool
  bc_heap_allocated :: bool

definition ReadBlock ::
    "(u32 \<Rightarrow> bytes \<Rightarrow> u32) \<Rightarrow> (bytes \<Rightarrow> bytes option) \<Rightarrow> ('f \<Rightarrow> u64 \<Rightarrow> u64 \<Rightarrow> Status \<times> bytes) \<Rightarrow> bool \<Rightarrow> 'f \<Rightarrow> bool \<Rightarrow> BlockHandle
      \<Rightarrow> (Status \<times> BlockContents) option" where
  "ReadBlock ext snappy_uncompress Read in_scratch file verify_checksums handle =
     (let result = \<lparr>bc_data = [], bc_cachable = False, bc_heap_allocated = False\<rparr>;
          n = unat (bh_size handle);
          wanted = bh_size handle + of_nat kBlockTrailerSize;
          (s, contents) = Read file (bh_offset handle) wanted
      in
        if \<not> Status_ok s then Some (s, result)
        else if length contents \<noteq> unat wanted then Some (Corruption (bytes_of_string ''truncated block read'') [], result)
        else do {
          bad_crc \<leftarrow>
            (if verify_checksums then do {
               stored \<leftarrow> DecodeFixed32 (drop (n + 1) contents);
               Some (ext 0 (take (n + 1) contents) \<noteq> Unmask stored) }
             else Some False);
          if bad_crc then Some (Corruption (bytes_of_string ''block checksum mismatch'') [], result)
          else if length contents \<le> n then None
          else if contents ! n = CompressionType_code kNoCompression then
            Some (Status_OK, \<lparr>bc_data = take n contents, bc_cachable = in_scratch, bc_heap_allocated = in_scratch\<rparr>)
          else if contents ! n = CompressionType_code kSnappyCompression then
            (case snappy_uncompress (take n contents) of
               None \<Rightarrow> Some (Corruption (bytes_of_string ''corrupted compressed block contents'') [], result)
             | Some u \<Rightarrow> Some (Status_OK, \<lparr>bc_data = u, bc_cachable = True, bc_heap_allocated = True\<rparr>))
          else Some (Corruption (bytes_of_string ''bad block type'') [], result) })"

subsection \<open>Handles and footers are read back\<close>

definition handle_bytes :: "BlockHandle \<Rightarrow> bytes" where
  "handle_bytes h = EncodeVarint64 (bh_offset h) @ EncodeVarint64 (bh_size h)"

definition handle_set :: "BlockHandle \<Rightarrow> bool" where
  "handle_set h \<longleftrightarrow> bh_offset h \<noteq> NOT 0 \<and> bh_size h \<noteq> NOT 0"

lemma BlockHandle_EncodeTo_bytes: "handle_set h \<Longrightarrow> BlockHandle_EncodeTo h dst = Some (dst @ handle_bytes h)"
  by (simp add: BlockHandle_EncodeTo_def handle_set_def PutVarint64_def handle_bytes_def)

lemma BlockHandle_DecodeFrom_bytes [simp]: "BlockHandle_DecodeFrom h' (handle_bytes h @ rest) = (Status_OK, h, rest)"
  by (simp add: BlockHandle_DecodeFrom_def handle_bytes_def codec_simps)

lemma BlockHandle_DecodeFrom_bytes' [simp]: "BlockHandle_DecodeFrom h' (handle_bytes h) = (Status_OK, h, [])"
  using BlockHandle_DecodeFrom_bytes [of h' h "[]"] by simp

lemma length_handle_bytes: "length (handle_bytes h) \<le> kMaxEncodedLength"
  using length_EncodeVarint64_le_10 [of "bh_offset h"] length_EncodeVarint64_le_10 [of "bh_size h"]
  by (simp add: handle_bytes_def kMaxEncodedLength_def)

lemma magic_halves:
  "push_bit 32 (ucast (ucast (drop_bit 32 kTableMagicNumber) :: u32)) OR ucast (ucast (kTableMagicNumber AND 0xffffffff) :: u32) = kTableMagicNumber"
  by code_simp

lemma Footer_roundtrip:
  assumes "handle_set (ft_metaindex f)" "handle_set (ft_index f)"
  shows "\<exists>bs. Footer_EncodeTo f [] = Some bs \<and> length bs = kFooterLength \<and> Footer_DecodeFrom f' (bs @ rest) = Some (Status_OK, f, rest)"
proof -
  let ?hs = "handle_bytes (ft_metaindex f) @ handle_bytes (ft_index f)"
  define pad where "pad = replicate (40 - length ?hs) (0 :: byte)"
  let ?lo = "ucast (kTableMagicNumber AND 0xffffffff) :: u32" and ?hi = "ucast (drop_bit 32 kTableMagicNumber) :: u32"
  have len: "length ?hs \<le> 40" using length_handle_bytes [of "ft_metaindex f"] length_handle_bytes [of "ft_index f"] by (simp add: kMaxEncodedLength_def)
  then have r: "string_resize ?hs (2 * kMaxEncodedLength) = ?hs @ pad" "length (?hs @ pad) = 40"
    by (simp_all add: string_resize_def kMaxEncodedLength_def pad_def)
  define bs where "bs = (?hs @ pad) @ EncodeFixed32 ?lo @ EncodeFixed32 ?hi"
  have l: "length bs = 48" unfolding bs_def using r(2) by (simp add: size_simps)
  then have e: "Footer_EncodeTo f [] = Some bs"
    using r(1) assms by (simp add: Footer_EncodeTo_def Let_def BlockHandle_EncodeTo_bytes PutFixed32_def bs_def kFooterLength_def kMaxEncodedLength_def)
  have "drop 40 (bs @ rest) = EncodeFixed32 ?lo @ EncodeFixed32 ?hi @ rest" "drop 44 (bs @ rest) = EncodeFixed32 ?hi @ rest"
    unfolding bs_def using r(2) by (simp_all add: size_simps)
  then have "DecodeFixed32 (drop (kFooterLength - 8) (bs @ rest)) = Some ?lo" "DecodeFixed32 (drop (kFooterLength - 8 + 4) (bs @ rest)) = Some ?hi"
    by (simp_all add: kFooterLength_def kMaxEncodedLength_def codec_simps)
  moreover have "BlockHandle_DecodeFrom (ft_metaindex f') (bs @ rest) = (Status_OK, ft_metaindex f, handle_bytes (ft_index f) @ pad @ EncodeFixed32 ?lo @ EncodeFixed32 ?hi @ rest)"
    by (simp add: bs_def)
  ultimately have "Footer_DecodeFrom f' (bs @ rest) = Some (Status_OK, f, rest)"
    using magic_halves l by (simp add: Footer_DecodeFrom_def Let_def kFooterLength_def kMaxEncodedLength_def)
  then show ?thesis using e l by (simp add: kFooterLength_def kMaxEncodedLength_def)
qed

subsection \<open>Blocks in a file\<close>

text \<open>A block as it is stored: the contents, the compression type and the masked checksum of both.\<close>

definition stored_block :: "(u32 \<Rightarrow> bytes \<Rightarrow> u32) \<Rightarrow> bytes \<Rightarrow> CompressionType \<Rightarrow> bytes" where
  "stored_block ext contents t = contents @ [CompressionType_code t] @ EncodeFixed32 (Mask (ext 0 (contents @ [CompressionType_code t])))"

context random_access_file
begin

lemma ReadBlock_stored:
  assumes "readable f" "contents f = pre @ stored_block ext c t @ post"
    and h: "unat (bh_offset h) = length pre" "unat (bh_size h) = length c" "length c + 5 < 2 ^ 64"
  shows "ReadBlock ext snappy_uncompress RandomRead in_scratch f verify h =
    (case t of kNoCompression \<Rightarrow> Some (Status_OK, \<lparr>bc_data = c, bc_cachable = in_scratch, bc_heap_allocated = in_scratch\<rparr>)
     | kSnappyCompression \<Rightarrow> (case snappy_uncompress c of
           None \<Rightarrow> Some (Corruption (bytes_of_string ''corrupted compressed block contents'') [], \<lparr>bc_data = [], bc_cachable = False, bc_heap_allocated = False\<rparr>)
         | Some u \<Rightarrow> Some (Status_OK, \<lparr>bc_data = u, bc_cachable = True, bc_heap_allocated = True\<rparr>)))"
proof -
  let ?crc = "Mask (ext 0 (c @ [CompressionType_code t]))"
  have w: "unat (bh_size h + of_nat kBlockTrailerSize) = length c + 5"
    using h by (simp add: kBlockTrailerSize_def unat_word_ariths)
  have "RandomRead f (bh_offset h) (bh_size h + of_nat kBlockTrailerSize) = (Status_OK, take (length c + 5) (drop (length pre) (contents f)))"
    using RandomRead_contents [OF assms(1), of "bh_offset h"] h w assms(2) by simp
  moreover have "take (length c + 5) (drop (length pre) (contents f)) = c @ CompressionType_code t # EncodeFixed32 ?crc"
    by (simp add: assms(2) stored_block_def size_simps)
  moreover have "DecodeFixed32 (EncodeFixed32 ?crc) = Some ?crc" using DecodeFixed32_EncodeFixed32 [of ?crc "[]"] by simp
  ultimately show ?thesis using w h
    by (cases t) (simp_all add: ReadBlock_def Let_def Unmask_Mask nth_append size_simps split: option.split)
qed

end

end
