(* ===== verification/Bloom.thy ===== *)
theory Bloom
  imports Coding Doubles
begin

section \<open>Hashing and the Bloom filter policy (util/hash.cc, util/bloom.cc)\<close>

text \<open>
  The hash of a byte string, the Bloom filter that is built from the keys of a block and the test
  a lookup makes. \<open>filter_policy\<close> is the interface the table code relies on: a filter is appended
  to the buffer it is given, and it matches every key it was built from.
\<close>

subsection \<open>Hash\<close>

definition hash_m :: u32 where "hash_m = 0xc6a4a793"

fun Hash_loop :: "u32 \<Rightarrow> bytes \<Rightarrow> u32 \<times> bytes" where
  "Hash_loop h (b0 # b1 # b2 # b3 # data) =
     (let w = the (DecodeFixed32 [b0, b1, b2, b3]);
          h = (h + w) * hash_m
      in Hash_loop (h XOR drop_bit 16 h) data)"
| "Hash_loop h data = (h, data)"

definition Hash :: "bytes \<Rightarrow> u32 \<Rightarrow> u32" where
  "Hash data seed =
     (let (h, data) = Hash_loop (seed XOR of_nat (length data) * hash_m) data;
          h = (if length data = 3 then h + push_bit 16 (ucast (data ! 2)) else h);
          h = (if 2 \<le> length data then h + push_bit 8 (ucast (data ! 1)) else h)
      in if 1 \<le> length data then
           (let h = (h + ucast (data ! 0)) * hash_m in h XOR drop_bit 24 h)
         else h)"

subsection \<open>The Bloom filter\<close>

definition BloomHash :: "bytes \<Rightarrow> u32" where
  "BloomHash key = Hash key 0xbc9f1d34"

record BloomFilterPolicy =
  bits_per_key :: u64
  bloom_k :: u64

definition BloomFilterPolicy_new :: "(rat \<Rightarrow> dbl) \<Rightarrow> int \<Rightarrow> BloomFilterPolicy" where
  "BloomFilterPolicy_new fl n =
     (let k = dbl_to_u64 (dmul fl (Fin (of_int n)) (fl (69 / 100)));
          k = (if k < 1 then 1 else k);
          k = (if 30 < k then 30 else k)
      in \<lparr>bits_per_key = of_int n, bloom_k = k\<rparr>)"

definition bloom_delta :: "u32 \<Rightarrow> u32" where
  "bloom_delta h = drop_bit 17 h OR push_bit 15 h"

definition bloom_bitpos :: "u32 \<Rightarrow> u64 \<Rightarrow> u32" where
  "bloom_bitpos h bits = ucast (ucast h mod bits)"

fun bloom_set :: "nat \<Rightarrow> u32 \<Rightarrow> u32 \<Rightarrow> u64 \<Rightarrow> bytes \<Rightarrow> bytes" where
  "bloom_set 0 h delta bits array = array"
| "bloom_set (Suc j) h delta bits array =
     (let bitpos = bloom_bitpos h bits;
          i = unat (bitpos div 8)
      in bloom_set j (h + delta) delta bits
           (array[i := (array ! i) OR push_bit (unat (bitpos mod 8)) 1]))"

definition bloom_add :: "BloomFilterPolicy \<Rightarrow> u64 \<Rightarrow> bytes \<Rightarrow> bytes \<Rightarrow> bytes" where
  "bloom_add this bits array key =
     (let h = BloomHash key in bloom_set (unat (bloom_k this)) h (bloom_delta h) bits array)"

definition bloom_bytes :: "BloomFilterPolicy \<Rightarrow> nat \<Rightarrow> u64" where
  "bloom_bytes this n =
     (let bits = of_nat n * bits_per_key this;
          bits = (if bits < 64 then 64 else bits)
      in (bits + 7) div 8)"

definition Bloom_CreateFilter :: "BloomFilterPolicy \<Rightarrow> bytes list \<Rightarrow> bytes \<Rightarrow> bytes" where
  "Bloom_CreateFilter this keys dst =
     (let bytes = bloom_bytes this (length keys);
          array = replicate (unat bytes) 0 @ [ucast (bloom_k this)]
      in dst @ foldl (bloom_add this (bytes * 8)) array keys)"

text \<open>In the test the reads of the filter array are in range: the last byte holds the number of probes.\<close>

fun bloom_test :: "nat \<Rightarrow> u32 \<Rightarrow> u32 \<Rightarrow> u64 \<Rightarrow> bytes \<Rightarrow> bool" where
  "bloom_test 0 h delta bits array = True"
| "bloom_test (Suc j) h delta bits array =
     (let bitpos = bloom_bitpos h bits in
      if (array ! unat (bitpos div 8)) AND push_bit (unat (bitpos mod 8)) 1 = 0 then False
      else bloom_test j (h + delta) delta bits array)"

definition Bloom_KeyMayMatch :: "bytes \<Rightarrow> bytes \<Rightarrow> bool" where
  "Bloom_KeyMayMatch key bloom_filter =
     (let len = length bloom_filter in
      if len < 2 then False
      else
        (let bits = (of_nat len - 1) * 8;
             k = scast (bloom_filter ! (len - 1)) :: u64
         in if 30 < k then True
            else
              (let h = BloomHash key
               in bloom_test (unat k) h (bloom_delta h) bits bloom_filter)))"

subsection \<open>The interface of filter policies\<close>

locale filter_policy =
  fixes CreateFilter :: "bytes list \<Rightarrow> bytes \<Rightarrow> bytes"
    and KeyMayMatch :: "bytes \<Rightarrow> bytes \<Rightarrow> bool"
    and key_set :: "bytes list \<Rightarrow> bool"
  assumes CreateFilter_appends: "key_set keys \<Longrightarrow> CreateFilter keys dst = dst @ CreateFilter keys []"
    and KeyMayMatch_complete: "key_set keys \<Longrightarrow> key \<in> set keys \<Longrightarrow> KeyMayMatch key (CreateFilter keys [])"

subsection \<open>No false negatives\<close>

text \<open>A filter array covers another when it has all its bits.\<close>

definition bits_covered :: "bytes \<Rightarrow> bytes \<Rightarrow> bool" where
  "bits_covered a a' \<longleftrightarrow> length a = length a' \<and> (\<forall>i < length a. \<forall>b. bit (a ! i) b \<longrightarrow> bit (a' ! i) b)"

lemma bits_covered_refl [simp]: "bits_covered a a"
  by (simp add: bits_covered_def)

lemma bits_covered_trans: "bits_covered a b \<Longrightarrow> bits_covered b c \<Longrightarrow> bits_covered a c"
  by (auto simp: bits_covered_def)

lemma bits_covered_update: "bits_covered a (a[i := (a ! i) OR m])"
  by (cases "i < length a") (auto simp: bits_covered_def nth_list_update bit_simps)

lemma bloom_set_covers: "bits_covered array (bloom_set j h delta bits array)"
proof (induction j h delta bits array rule: bloom_set.induct)
  case (2 j h delta bits array)
  then show ?case
    by (simp add: Let_def) (rule bits_covered_trans [OF bits_covered_update], blast)
qed simp

lemma bloom_test_Suc:
  "bloom_test (Suc j) h delta bits array \<longleftrightarrow>
     bit (array ! unat (bloom_bitpos h bits div 8)) (unat (bloom_bitpos h bits mod 8))
     \<and> bloom_test j (h + delta) delta bits array"
  by (simp only: bloom_test.simps Let_def bit_iff_and_push_bit_not_eq_0) simp

declare bloom_test.simps(2) [simp del]

lemma bloom_test_covers:
  assumes "bits_covered array array'" and "\<forall>h. unat (bloom_bitpos h bits div 8) < length array"
    and "bloom_test j h delta bits array"
  shows "bloom_test j h delta bits array'"
  using assms(3)
proof (induction j arbitrary: h)
  case (Suc j)
  then show ?case using assms(1,2)
    by (auto simp: bloom_test_Suc bits_covered_def)
qed simp

lemma bloom_test_set:
  assumes "\<forall>h. unat (bloom_bitpos h bits div 8) < length array"
  shows "bloom_test j h delta bits (bloom_set j h delta bits array)"
  using assms
proof (induction j h delta bits array rule: bloom_set.induct)
  case (2 j h delta bits array)
  define i where "i = unat (bloom_bitpos h bits div 8)"
  define b where "b = unat (bloom_bitpos h bits mod 8)"
  define array' where "array' = array[i := (array ! i) OR push_bit b 1]"
  have i: "i < length array" using 2(2) by (simp add: i_def)
  have "b < 8" by (simp add: b_def unat_mod)
  then have "bit (array' ! i) b" using i by (simp add: array'_def bit_simps)
  moreover have "bits_covered array' (bloom_set j (h + delta) delta bits array')" by (rule bloom_set_covers)
  ultimately have "bit (bloom_set j (h + delta) delta bits array' ! i) b"
    using i by (auto simp: bits_covered_def array'_def)
  moreover have "bloom_test j (h + delta) delta bits (bloom_set j (h + delta) delta bits array')"
    using 2(1) [OF refl refl] 2(2) unfolding array'_def i_def b_def by simp
  ultimately show ?case
    by (simp add: bloom_test_Suc Let_def array'_def i_def b_def)
qed simp

lemma bloom_set_other:
  assumes "\<forall>h. unat (bloom_bitpos h bits div 8) \<noteq> i"
  shows "bloom_set j h delta bits array ! i = array ! i"
  using assms by (induction j h delta bits array rule: bloom_set.induct) (simp_all add: Let_def)

lemma length_bloom_set [simp]: "length (bloom_set j h delta bits array) = length array"
  using bloom_set_covers [of array j h delta bits] by (simp add: bits_covered_def)

lemma bloom_bitpos_byte:
  assumes "0 < unat bytes" and "unat bytes < 2 ^ 61"
  shows "unat (bloom_bitpos h (bytes * 8) div 8) < unat bytes"
proof -
  have b8: "unat (bytes * 8) = unat bytes * 8" using assms(2)
    by (simp add: unat_word_ariths unat_lt_2p64)
  have "unat (ucast h mod (bytes * 8) :: u64) \<le> unat (ucast h :: u64)" by (simp add: unat_mod)
  also have "\<dots> < 2 ^ 32" using unsigned_less [of h, where 'a = nat] by (simp add: unat_ucast_32_64)
  finally have "unat (bloom_bitpos h (bytes * 8)) = unat (ucast h :: u64) mod (unat bytes * 8)"
    unfolding bloom_bitpos_def by (simp add: unsigned_ucast_eq unat_mod b8 take_bit_nat_eq_self)
  then have "unat (bloom_bitpos h (bytes * 8)) < unat bytes * 8" using assms(1) by simp
  then show ?thesis by (simp add: unat_div div_less_iff_less_mult)
qed

text \<open>The keys of one filter, few enough that its size in bits does not overflow.\<close>

definition bloom_key_set :: "BloomFilterPolicy \<Rightarrow> bytes list \<Rightarrow> bool" where
  "bloom_key_set this keys \<longleftrightarrow> bloom_k this \<le> 30 \<and> length keys * unat (bits_per_key this) + 7 < 2 ^ 64"

lemma bloom_bytes_bounds:
  assumes "bloom_key_set this keys"
  shows "8 \<le> unat (bloom_bytes this (length keys))" "unat (bloom_bytes this (length keys)) < 2 ^ 61"
proof -
  let ?bits = "of_nat (length keys) * bits_per_key this :: u64"
  have n: "length keys * unat (bits_per_key this) + 7 < 2 ^ 64" using assms by (simp add: bloom_key_set_def)
  have "?bits = of_nat (length keys * unat (bits_per_key this))" by simp
  then have bits: "unat ?bits = length keys * unat (bits_per_key this)"
    using n by (simp only: unat_of_nat) (simp add: take_bit_nat_eq_self)
  define m where "m = (if ?bits < 64 then 64 else ?bits)"
  have m: "64 \<le> unat m" "unat m + 7 < 2 ^ 64" using bits n by (auto simp: m_def word_less_nat_alt)
  then have "unat (m + 7) = unat m + 7" by (simp add: unat_word_ariths unat_lt_2p64)
  then have "unat (bloom_bytes this (length keys)) = (unat m + 7) div 8"
    by (simp add: bloom_bytes_def m_def unat_div Let_def)
  then show "8 \<le> unat (bloom_bytes this (length keys))" "unat (bloom_bytes this (length keys)) < 2 ^ 61"
    using m by simp_all
qed

lemma foldl_bloom_add_covers: "bits_covered array (foldl (bloom_add this bits) array keys)"
proof (induction keys arbitrary: array)
  case (Cons key keys)
  then show ?case
    by (simp add: bloom_add_def Let_def) (rule bits_covered_trans [OF bloom_set_covers], blast)
qed simp

lemma foldl_bloom_add_test:
  assumes "key \<in> set keys" and "\<forall>h. unat (bloom_bitpos h bits div 8) < length array"
  shows "bloom_test (unat (bloom_k this)) (BloomHash key) (bloom_delta (BloomHash key)) bits
    (foldl (bloom_add this bits) array keys)"
  using assms
proof (induction keys arbitrary: array)
  case (Cons k keys)
  have len: "length (bloom_add this bits array k) = length array" by (simp add: bloom_add_def Let_def)
  show ?case
  proof (cases "key \<in> set keys")
    case True
    then show ?thesis using Cons len by simp
  next
    case False
    then have k: "k = key" using Cons.prems by simp
    have "bloom_test (unat (bloom_k this)) (BloomHash key) (bloom_delta (BloomHash key)) bits (bloom_add this bits array key)"
      using Cons.prems(2) by (simp add: bloom_add_def Let_def bloom_test_set)
    with foldl_bloom_add_covers show ?thesis
      using bloom_test_covers [of "bloom_add this bits array key"] Cons.prems(2) len k by simp
  qed
qed simp

lemma foldl_bloom_add_other:
  assumes "\<forall>h. unat (bloom_bitpos h bits div 8) \<noteq> i"
  shows "foldl (bloom_add this bits) array keys ! i = array ! i"
  using assms by (induction keys arbitrary: array) (simp_all add: bloom_add_def Let_def bloom_set_other)

lemma bloom_probes_read_back: "k \<le> 30 \<Longrightarrow> (scast (ucast (k :: u64) :: byte) :: u64) = k"
proof -
  assume "k \<le> 30"
  then have "unat k \<le> 30" by (simp add: word_le_nat_alt)
  then have "unat k \<in> set [0..<31]" "k = of_nat (unat k)" by simp_all
  moreover have "\<forall>n \<in> set [0..<31]. (scast (ucast (of_nat n :: u64) :: byte) :: u64) = of_nat n" by code_simp
  ultimately show ?thesis by metis
qed

lemma Bloom_complete:
  assumes "bloom_key_set this keys" and "key \<in> set keys"
  shows "Bloom_KeyMayMatch key (Bloom_CreateFilter this keys [])"
proof -
  define bytes where "bytes = bloom_bytes this (length keys)"
  define array where "array = replicate (unat bytes) 0 @ [ucast (bloom_k this) :: byte]"
  define flt where "flt = foldl (bloom_add this (bytes * 8)) array keys"
  have b: "8 \<le> unat bytes" "unat bytes < 2 ^ 61" using bloom_bytes_bounds [OF assms(1)] by (simp_all add: bytes_def)
  have pos: "unat (bloom_bitpos h (bytes * 8) div 8) < unat bytes" for h
    by (rule bloom_bitpos_byte) (use b in simp_all)
  have len: "length flt = unat bytes + 1"
    using foldl_bloom_add_covers [of array this "bytes * 8" keys] by (simp add: flt_def array_def bits_covered_def)
  have "flt ! unat bytes = array ! unat bytes"
    unfolding flt_def by (rule foldl_bloom_add_other) (use pos in \<open>metis less_irrefl\<close>)
  then have k: "(scast (flt ! (length flt - 1)) :: u64) = bloom_k this"
    using assms(1) by (simp add: len array_def nth_append bloom_key_set_def bloom_probes_read_back)
  have bits: "(of_nat (length flt) - 1 :: u64) * 8 = bytes * 8" by (simp add: len)
  have "bloom_test (unat (bloom_k this)) (BloomHash key) (bloom_delta (BloomHash key)) (bytes * 8) flt"
    unfolding flt_def using pos by (intro foldl_bloom_add_test [OF assms(2)]) (auto simp: array_def less_Suc_eq)
  then have "Bloom_KeyMayMatch key flt"
    unfolding Bloom_KeyMayMatch_def Let_def k bits using b(1) assms(1) len by (simp add: bloom_key_set_def not_less)
  then show ?thesis
    by (simp add: Bloom_CreateFilter_def Let_def flt_def array_def bytes_def)
qed

interpretation bloom: filter_policy "Bloom_CreateFilter this" Bloom_KeyMayMatch "bloom_key_set this"
  for this :: BloomFilterPolicy
  by unfold_locales (simp add: Bloom_CreateFilter_def Let_def, rule Bloom_complete)

lemma BloomFilterPolicy_new_probes: "bloom_k (BloomFilterPolicy_new fl n) \<le> 30"
  by (simp add: BloomFilterPolicy_new_def Let_def not_less)

text \<open>
  (C26) The Bloom filter has no false negatives. For every number of bits per key and every rounding of the
  factor 0.69, a filter that \<open>CreateFilter\<close> appends to a buffer matches each of the keys it was built
  from, as long as the size of the filter in bits fits 64 bits.
\<close>

theorem Bloom_filter_complete:
  assumes "0 \<le> n" and "n < 2 ^ 31" and "int (length keys) * n + 7 < 2 ^ 64" and "key \<in> set keys"
  shows "Bloom_KeyMayMatch key (drop (length dst) (Bloom_CreateFilter (BloomFilterPolicy_new fl n) keys dst))"
proof -
  let ?p = "BloomFilterPolicy_new fl n"
  have "unat (bits_per_key ?p) = nat n"
    using assms(1,2) by (simp add: BloomFilterPolicy_new_def Let_def unat_eq_nat_uint uint_word_of_int)
  moreover have "length keys * nat n + 7 < 2 ^ 64"
  proof -
    have "int (length keys * nat n + 7) < int (2 ^ 64)" using assms(1,3) by simp
    then show ?thesis by (simp only: of_nat_less_iff)
  qed
  ultimately have ks: "bloom_key_set ?p keys"
    by (simp add: bloom_key_set_def BloomFilterPolicy_new_probes)
  then show ?thesis
    by (simp add: bloom.CreateFilter_appends [OF ks, of dst] bloom.KeyMayMatch_complete [OF ks assms(4)])
qed

theorem Bloom_filter_complete_witness:
  "Bloom_KeyMayMatch [2] (drop (length [9 :: byte]) (Bloom_CreateFilter (BloomFilterPolicy_new ieee64 10) [[1], [2], [3, 4]] [9]))"
  by (rule Bloom_filter_complete) simp_all

end
