(* ===== verification/FilterBlock.thy ===== *)
theory FilterBlock
  imports Bloom DbFormat
begin

section \<open>Filter blocks (table/filter_block.cc)\<close>

text \<open>
  A filter block holds one filter for every 2 KB of file offsets, the offsets of the filters and the
  position of that array. The builder is called with \<open>StartBlock\<close>, \<open>AddKey\<close> and
  \<open>Finish\<close>; the reader answers whether a block may hold a key. The policy's two functions are
  arguments. A failed assertion of \<open>StartBlock\<close> and a read outside the block are \<open>None\<close>.
\<close>

definition kFilterBaseLg :: nat where "kFilterBaseLg = 11"
definition kFilterBase :: u64 where "kFilterBase = push_bit kFilterBaseLg 1"

record FilterBlockBuilder =
  fb_keys :: bytes
  fb_start :: "nat list"
  fb_result :: bytes
  fb_offsets :: "u32 list"

definition FilterBlockBuilder_new :: FilterBlockBuilder where
  "FilterBlockBuilder_new = \<lparr>fb_keys = [], fb_start = [], fb_result = [], fb_offsets = []\<rparr>"

definition AddKey :: "bytes \<Rightarrow> FilterBlockBuilder \<Rightarrow> FilterBlockBuilder" where
  "AddKey key this = this\<lparr>fb_start := fb_start this @ [length (fb_keys this)], fb_keys := fb_keys this @ key\<rparr>"

definition GenerateFilter :: "(bytes list \<Rightarrow> bytes \<Rightarrow> bytes) \<Rightarrow> FilterBlockBuilder \<Rightarrow> FilterBlockBuilder" where
  "GenerateFilter CreateFilter this =
     (let num_keys = length (fb_start this);
          this' = this\<lparr>fb_offsets := fb_offsets this @ [of_nat (length (fb_result this))]\<rparr>
      in if num_keys = 0 then this'
         else
           (let start = fb_start this @ [length (fb_keys this)];
                tmp_keys = map (\<lambda>i. take (start ! (i + 1) - start ! i) (drop (start ! i) (fb_keys this))) [0..<num_keys]
            in this'\<lparr>fb_result := CreateFilter tmp_keys (fb_result this), fb_keys := [], fb_start := []\<rparr>))"

function StartBlock_loop ::
    "(bytes list \<Rightarrow> bytes \<Rightarrow> bytes) \<Rightarrow> nat \<Rightarrow> FilterBlockBuilder \<Rightarrow> FilterBlockBuilder" where
  "StartBlock_loop CreateFilter filter_index this =
     (if length (fb_offsets this) < filter_index
      then StartBlock_loop CreateFilter filter_index (GenerateFilter CreateFilter this) else this)"
  by pat_completeness auto
termination
  by (relation "measure (\<lambda>(cf, n, t). n - length (fb_offsets t))") (auto simp: GenerateFilter_def Let_def)

declare StartBlock_loop.simps [simp del]

definition StartBlock ::
    "(bytes list \<Rightarrow> bytes \<Rightarrow> bytes) \<Rightarrow> u64 \<Rightarrow> FilterBlockBuilder \<Rightarrow> FilterBlockBuilder option" where
  "StartBlock CreateFilter block_offset this =
     (let filter_index = unat (block_offset div kFilterBase) in
      if length (fb_offsets this) \<le> filter_index then Some (StartBlock_loop CreateFilter filter_index this)
      else None)"

definition FilterBlock_Finish :: "(bytes list \<Rightarrow> bytes \<Rightarrow> bytes) \<Rightarrow> FilterBlockBuilder \<Rightarrow> bytes" where
  "FilterBlock_Finish CreateFilter this =
     (let this = (if fb_start this \<noteq> [] then GenerateFilter CreateFilter this else this);
          array_offset = of_nat (length (fb_result this));
          result = foldl PutFixed32 (fb_result this) (fb_offsets this)
      in PutFixed32 result array_offset @ [of_nat kFilterBaseLg])"

text \<open>
  The reader. \<open>fr_contents\<close> is the block, \<open>fr_offset\<close> the distance of the offset array from its
  start; a block that is too short or whose array position is out of range has no entries. The last byte is
  a \<open>char\<close>: it is extended with its sign.
\<close>

record FilterBlockReader =
  fr_contents :: bytes
  fr_offset :: nat
  fr_num :: nat
  fr_base_lg :: u64

definition FilterBlockReader_new :: "bytes \<Rightarrow> FilterBlockReader option" where
  "FilterBlockReader_new contents =
     (let n = length contents;
          this = \<lparr>fr_contents = contents, fr_offset = 0, fr_num = 0, fr_base_lg = 0\<rparr>
      in if n < 5 then Some this
         else
           (let this = this\<lparr>fr_base_lg := scast (contents ! (n - 1))\<rparr> in
            case DecodeFixed32 (drop (n - 5) contents) of
              None \<Rightarrow> None
            | Some last_word \<Rightarrow>
                if n - 5 < unat last_word then Some this
                else Some (this\<lparr>fr_offset := unat last_word, fr_num := (n - 5 - unat last_word) div 4\<rparr>)))"

text \<open>A shift by 64 or more has no defined value.\<close>

definition FilterBlockReader_KeyMayMatch ::
    "(bytes \<Rightarrow> bytes \<Rightarrow> bool) \<Rightarrow> FilterBlockReader \<Rightarrow> u64 \<Rightarrow> bytes \<Rightarrow> bool option" where
  "FilterBlockReader_KeyMayMatch KeyMayMatch this block_offset key =
     (if 64 \<le> fr_base_lg this then None
      else
        (let index = unat (drop_bit (unat (fr_base_lg this)) block_offset) in
         if index < fr_num this then
           (case DecodeFixed32 (drop (fr_offset this + index * 4) (fr_contents this)) of None \<Rightarrow> None
            | Some start \<Rightarrow>
               (case DecodeFixed32 (drop (fr_offset this + index * 4 + 4) (fr_contents this)) of None \<Rightarrow> None
                | Some limit \<Rightarrow>
                   if start \<le> limit \<and> unat limit \<le> fr_offset this then
                     Some (KeyMayMatch key (take (unat (limit - start)) (drop (unat start) (fr_contents this))))
                   else if start = limit then Some False
                   else Some True))
         else Some True))"

subsection \<open>The reader on any contents\<close>

lemma DecodeFixed32_defined: "4 \<le> length xs \<Longrightarrow> \<exists>v. DecodeFixed32 xs = Some v"
  by (cases xs rule: DecodeFixed32.cases) auto

lemma base_lg_small: "b < 64 \<Longrightarrow> (scast (b :: byte) :: u64) < 64"
proof -
  assume "b < 64"
  then have "unat b \<in> set [0..<64]" "b = of_nat (unat b)" by (simp_all add: word_less_nat_alt)
  moreover have "\<forall>n \<in> set [0..<64]. (scast (of_nat n :: byte) :: u64) < 64" by code_simp
  ultimately show ?thesis by metis
qed



subsection \<open>What the builder has written\<close>

text \<open>Positions of the parts of a concatenation.\<close>

fun starts :: "nat \<Rightarrow> 'a list list \<Rightarrow> nat list" where
  "starts n [] = []"
| "starts n (k # ks) = n # starts (n + length k) ks"

lemma length_starts [simp]: "length (starts n ks) = length ks"
  by (induction n ks rule: starts.induct) simp_all

lemma starts_append: "starts n (ks @ ks') = starts n ks @ starts (n + length (concat ks)) ks'"
  by (induction n ks rule: starts.induct) (simp_all add: add.assoc)

lemma starts_nth: "i < length ks \<Longrightarrow> starts n ks ! i = n + length (concat (take i ks))"
  by (induction n ks arbitrary: i rule: starts.induct) (auto simp: nth_Cons split: nat.splits)

lemma take_drop_concat:
  assumes "i < length ks"
  shows "take (length (ks ! i)) (drop (length (concat (take i ks))) (concat ks @ rest)) = ks ! i"
proof -
  have "concat ks = concat (take i ks) @ ks ! i @ concat (drop (Suc i) ks)"
    using assms by (metis concat.simps(2) concat_append id_take_nth_drop)
  then show ?thesis by simp
qed

lemma length_concat_take_Suc: "i < length ks \<Longrightarrow> length (concat (take (Suc i) ks)) = length (concat (take i ks)) + length (ks ! i)"
  by (simp add: take_Suc_conv_app_nth)

lemma starts_slices:
  fixes ks :: "'a list list"
  assumes start_def: "start = starts 0 ks @ [length (concat ks)]"
  shows "map (\<lambda>i. take (start ! (i + 1) - start ! i) (drop (start ! i) (concat ks))) [0..<length ks] = ks"
proof (rule nth_equalityI)
  fix i assume "i < length (map (\<lambda>i. take (start ! (i + 1) - start ! i) (drop (start ! i) (concat ks))) [0..<length ks])"
  then have i: "i < length ks" by simp
  have "start ! j = length (concat (take j ks))" if "j \<le> length ks" for j
    using that by (cases "j = length ks") (simp_all add: start_def nth_append starts_nth)
  from this [of i] this [of "Suc i"] i
  show "map (\<lambda>i. take (start ! (i + 1) - start ! i) (drop (start ! i) (concat ks))) [0..<length ks] ! i = ks ! i"
    using take_drop_concat [OF i, of "[]"] by (simp add: length_concat_take_Suc)
qed simp

lemma foldl_PutFixed32: "foldl PutFixed32 dst ws = dst @ concat (map EncodeFixed32 ws)"
  by (induction ws arbitrary: dst) (simp_all add: PutFixed32_def)

lemma length_concat_EncodeFixed32 [simp]: "length (concat (map EncodeFixed32 ws)) = 4 * length ws"
  by (induction ws) (simp_all add: size_simps)

lemma DecodeFixed32_nth:
  assumes "i < length ws"
  shows "DecodeFixed32 (drop (4 * i) (concat (map EncodeFixed32 ws) @ rest)) = Some (ws ! i)"
proof -
  define A where "A = concat (map EncodeFixed32 (take i ws))"
  have ws: "concat (map EncodeFixed32 ws) = A @ EncodeFixed32 (ws ! i) @ concat (map EncodeFixed32 (drop (Suc i) ws))"
    unfolding A_def using assms by (metis concat.simps(2) concat_append id_take_nth_drop list.simps(9) map_append)
  have "4 * i = length A" using assms by (simp add: A_def)
  then show ?thesis by (simp add: ws codec_simps)
qed

definition filter_of :: "(bytes list \<Rightarrow> bytes \<Rightarrow> bytes) \<Rightarrow> bytes list \<Rightarrow> bytes" where
  "filter_of CreateFilter keys = (if keys = [] then [] else CreateFilter keys [])"

text \<open>The builder has written the filters of the key groups \<open>gs\<close> and holds the keys \<open>cur\<close>.\<close>

definition fb_repr :: "(bytes list \<Rightarrow> bytes \<Rightarrow> bytes) \<Rightarrow> FilterBlockBuilder \<Rightarrow> bytes list list \<Rightarrow> bytes list \<Rightarrow> bool" where
  "fb_repr CreateFilter this gs cur \<longleftrightarrow>
     fb_keys this = concat cur \<and> fb_start this = starts 0 cur
     \<and> fb_result this = concat (map (filter_of CreateFilter) gs)
     \<and> fb_offsets this = map of_nat (starts 0 (map (filter_of CreateFilter) gs))"

lemma fb_repr_new [simp]: "fb_repr cf FilterBlockBuilder_new [] []"
  by (simp add: fb_repr_def FilterBlockBuilder_new_def)

lemma fb_repr_offsets: "fb_repr cf this gs cur \<Longrightarrow> length (fb_offsets this) = length gs"
  by (simp add: fb_repr_def)

lemma fb_repr_AddKey: "fb_repr cf this gs cur \<Longrightarrow> fb_repr cf (AddKey key this) gs (cur @ [key])"
  by (simp add: fb_repr_def AddKey_def starts_append)

lemma fb_repr_fold_AddKey: "fb_repr cf this gs cur \<Longrightarrow> fb_repr cf (fold AddKey ks this) gs (cur @ ks)"
proof (induction ks arbitrary: this cur)
  case (Cons k ks)
  from Cons.IH [OF fb_repr_AddKey [OF Cons.prems, of k]] show ?case by simp
qed simp

text \<open>
  The calls the table builder makes: \<open>StartBlock\<close> with the offset of a block, then \<open>AddKey\<close> for its
  keys. The filter of index \<open>i\<close> gets the keys of all blocks that start in the \<open>i\<close>-th 2 KB.
\<close>

fun add_blocks ::
    "(bytes list \<Rightarrow> bytes \<Rightarrow> bytes) \<Rightarrow> (u64 \<times> bytes list) list \<Rightarrow> FilterBlockBuilder \<Rightarrow> FilterBlockBuilder option" where
  "add_blocks CreateFilter [] this = Some this"
| "add_blocks CreateFilter ((block_offset, ks) # blocks) this =
     (case StartBlock CreateFilter block_offset this of None \<Rightarrow> None
      | Some this \<Rightarrow> add_blocks CreateFilter blocks (fold AddKey ks this))"

definition filter_index :: "u64 \<Rightarrow> nat" where
  "filter_index block_offset = unat (block_offset div kFilterBase)"

definition block_group :: "(u64 \<times> bytes list) list \<Rightarrow> nat \<Rightarrow> bytes list" where
  "block_group blocks i = concat (map snd (filter (\<lambda>b. filter_index (fst b) = i) blocks))"

lemma block_group_snoc:
  "block_group (blocks @ [(block_offset, ks)]) i = block_group blocks i @ (if filter_index block_offset = i then ks else [])"
  by (simp add: block_group_def)

lemma block_group_append: "block_group (xs @ ys) i = block_group xs i @ block_group ys i"
  by (simp add: block_group_def)

lemma block_group_empty: "\<forall>b \<in> set blocks. filter_index (fst b) \<noteq> i \<Longrightarrow> block_group blocks i = []"
  by (simp add: block_group_def)

lemma block_group_Nil [simp]: "block_group [] i = []"
  by (simp add: block_group_def)

lemma filter_index_mono: "a \<le> b \<Longrightarrow> filter_index a \<le> filter_index b"
  by (simp add: filter_index_def unat_div div_le_mono word_le_nat_alt)

text \<open>The block that a list of filters is written to.\<close>

definition filter_contents :: "bytes list \<Rightarrow> bytes" where
  "filter_contents fls = concat fls @ concat (map EncodeFixed32 (map of_nat (starts 0 fls)))
     @ EncodeFixed32 (of_nat (length (concat fls))) @ [of_nat kFilterBaseLg]"

context filter_policy
begin

lemma fb_repr_GenerateFilter:
  assumes "fb_repr CreateFilter this gs cur" and "cur \<noteq> [] \<longrightarrow> key_set cur"
  shows "fb_repr CreateFilter (GenerateFilter CreateFilter this) (gs @ [cur]) []"
proof (cases "cur = []")
  case True
  then show ?thesis using assms(1)
    by (simp add: fb_repr_def GenerateFilter_def Let_def starts_append filter_of_def)
next
  case False
  have "CreateFilter cur (fb_result this) = fb_result this @ CreateFilter cur []"
    using assms(2) False CreateFilter_appends by blast
  then show ?thesis using assms(1) False starts_slices [OF refl, of cur]
    by (simp add: fb_repr_def GenerateFilter_def Let_def starts_append filter_of_def)
qed

lemma fb_repr_StartBlock_loop:
  assumes "fb_repr CreateFilter this (map f [0..<n]) (f n)" and "\<forall>j. n < j \<longrightarrow> f j = []" and "n \<le> m"
    and "\<forall>j < m. f j \<noteq> [] \<longrightarrow> key_set (f j)"
  shows "fb_repr CreateFilter (StartBlock_loop CreateFilter m this) (map f [0..<m]) (f m)"
  using assms
proof (induction "m - n" arbitrary: n this)
  case 0
  then show ?case using fb_repr_offsets [OF "0.prems"(1)] by (simp add: StartBlock_loop.simps [of CreateFilter n this])
next
  case (Suc d)
  then have "n < m" by simp
  have "fb_repr CreateFilter (GenerateFilter CreateFilter this) (map f [0..<n] @ [f n]) []"
    using Suc.prems \<open>n < m\<close> by (intro fb_repr_GenerateFilter) auto
  then have "fb_repr CreateFilter (GenerateFilter CreateFilter this) (map f [0..<Suc n]) (f (Suc n))"
    using Suc.prems(2) by simp
  then have "fb_repr CreateFilter (StartBlock_loop CreateFilter m (GenerateFilter CreateFilter this)) (map f [0..<m]) (f m)"
    using Suc.prems Suc.hyps(2) by (intro Suc.hyps(1) [of "Suc n"]) auto
  then show ?case using fb_repr_offsets [OF Suc.prems(1)] \<open>n < m\<close> by (simp add: StartBlock_loop.simps [of _ m this])
qed


lemma fb_repr_add_blocks:
  assumes "fb_repr CreateFilter this (map (block_group prev) [0..<n]) (block_group prev n)"
    and "\<forall>b \<in> set prev. filter_index (fst b) \<le> n" and "\<forall>b \<in> set blocks. n \<le> filter_index (fst b)"
    and "sorted (map fst blocks)" and "\<forall>j. block_group (prev @ blocks) j \<noteq> [] \<longrightarrow> key_set (block_group (prev @ blocks) j)"
  shows "\<exists>this' n'. add_blocks CreateFilter blocks this = Some this'
    \<and> fb_repr CreateFilter this' (map (block_group (prev @ blocks)) [0..<n']) (block_group (prev @ blocks) n')
    \<and> (\<forall>b \<in> set (prev @ blocks). filter_index (fst b) \<le> n')"
  using assms
proof (induction blocks arbitrary: this prev n)
  case (Cons b blocks)
  obtain off ks where b: "b = (off, ks)" by (cases b)
  let ?m = "filter_index off" and ?g = "block_group prev"
  have nm: "n \<le> ?m" using Cons.prems(3) b by simp
  have later: "\<forall>c \<in> set (b # blocks). ?m \<le> filter_index (fst c)"
    using Cons.prems(4) b by (auto intro: filter_index_mono)
  have "?g j = block_group (prev @ b # blocks) j" if "j < ?m" for j
    using later that by (subst block_group_append, subst block_group_empty [of "b # blocks"]) auto
  then have ks: "\<forall>j < ?m. ?g j \<noteq> [] \<longrightarrow> key_set (?g j)" using Cons.prems(5) by simp
  have "\<forall>j. n < j \<longrightarrow> ?g j = []" using Cons.prems(2) by (auto intro!: block_group_empty)
  from fb_repr_StartBlock_loop [OF Cons.prems(1) this nm ks]
  have started: "fb_repr CreateFilter (StartBlock_loop CreateFilter ?m this) (map ?g [0..<?m]) (?g ?m)" .
  let ?built = "fold AddKey ks (StartBlock_loop CreateFilter ?m this)"
  have eq: "map (block_group (prev @ [b])) [0..<?m] = map ?g [0..<?m]" by (simp add: b block_group_snoc)
  have added: "fb_repr CreateFilter ?built (map (block_group (prev @ [b])) [0..<?m]) (block_group (prev @ [b]) ?m)"
    unfolding eq using fb_repr_fold_AddKey [OF started, of ks] by (simp add: b block_group_snoc)
  have "\<forall>c \<in> set (prev @ [b]). filter_index (fst c) \<le> ?m" using Cons.prems(2) nm b by auto
  from Cons.IH [OF added this] later Cons.prems(4,5)
  obtain this' n' where "add_blocks CreateFilter blocks ?built = Some this'"
    "fb_repr CreateFilter this' (map (block_group (prev @ b # blocks)) [0..<n']) (block_group (prev @ b # blocks) n')"
    "\<forall>c \<in> set (prev @ b # blocks). filter_index (fst c) \<le> n'" by auto
  moreover have "StartBlock CreateFilter off this = Some (StartBlock_loop CreateFilter ?m this)"
    using nm fb_repr_offsets [OF Cons.prems(1)] by (simp add: StartBlock_def Let_def filter_index_def)
  ultimately show ?case using b by auto
qed auto

lemma Finish_contents:
  assumes "fb_repr CreateFilter this (map f [0..<n]) (f n)" and "f n \<noteq> [] \<longrightarrow> key_set (f n)"
  shows "FilterBlock_Finish CreateFilter this
    = filter_contents (map (filter_of CreateFilter \<circ> f) [0..<if f n = [] then n else Suc n])"
proof -
  have fin: "(if fb_start this \<noteq> [] then X else Y) = (if f n = [] then Y else X)" for X Y :: FilterBlockBuilder
    using assms(1) by (cases "f n") (auto simp: fb_repr_def)
  have out: "foldl PutFixed32 (fb_result t) (fb_offsets t) = concat fls @ concat (map EncodeFixed32 (map of_nat (starts 0 fls)))"
      "length (fb_result t) = length (concat fls)"
    if "fb_repr CreateFilter t gs cur" "fls = map (filter_of CreateFilter) gs" for t gs cur fls
    using that by (simp_all add: fb_repr_def foldl_PutFixed32)
  show ?thesis
  proof (cases "f n = []")
    case True
    then show ?thesis using out [OF assms(1) refl]
      by (simp add: FilterBlock_Finish_def Let_def fin filter_contents_def PutFixed32_def)
  next
    case False
    have "fb_repr CreateFilter (GenerateFilter CreateFilter this) (map f [0..<n] @ [f n]) []"
      by (rule fb_repr_GenerateFilter [OF assms])
    then show ?thesis using False out [of "GenerateFilter CreateFilter this" "map f [0..<Suc n]" "[]"]
      by (simp add: FilterBlock_Finish_def Let_def fin filter_contents_def PutFixed32_def)
  qed
qed

end

subsection \<open>Reading the block back\<close>

lemma filter_contents_offsets:
  assumes "ws = map of_nat (starts 0 fls @ [length (concat fls)])"
  shows "filter_contents fls = concat fls @ concat (map EncodeFixed32 ws) @ [of_nat kFilterBaseLg]"
    and "length ws = length fls + 1" and "j \<le> length fls \<Longrightarrow> ws ! j = of_nat (length (concat (take j fls)))"
  using assms by (simp_all add: filter_contents_def nth_append starts_nth)

lemma length_concat_take_le: "length (concat (take j fls)) \<le> length (concat fls)"
  by (metis append_take_drop_id concat_append le_add1 length_append)

lemma FilterBlockReader_contents:
  assumes "length (filter_contents fls) < 2 ^ 32"
  shows "FilterBlockReader_new (filter_contents fls) = Some \<lparr>fr_contents = filter_contents fls,
    fr_offset = length (concat fls), fr_num = length fls, fr_base_lg = 11\<rparr>"
proof -
  define ws where "ws = (map of_nat (starts 0 fls @ [length (concat fls)]) :: u32 list)"
  note c = filter_contents_offsets [OF ws_def]
  have n: "length (filter_contents fls) = length (concat fls) + 4 * length fls + 5" using c by simp
  have s: "unat (of_nat (length (concat fls)) :: u32) = length (concat fls)"
    using assms n by (simp add: unat_of_nat take_bit_nat_eq_self)
  have "drop (length (filter_contents fls) - 5) (filter_contents fls)
      = drop (4 * length fls) (concat (map EncodeFixed32 ws) @ [of_nat kFilterBaseLg])"
    by (subst n) (simp add: c(1))
  then have "DecodeFixed32 (drop (length (filter_contents fls) - 5) (filter_contents fls)) = Some (of_nat (length (concat fls)))"
    using DecodeFixed32_nth [of "length fls" ws "[of_nat kFilterBaseLg]"] c(2) c(3) [of "length fls"] by simp
  moreover have "filter_contents fls ! (length (filter_contents fls) - 1) = 11"
    unfolding n by (simp add: c(1,2) nth_append kFilterBaseLg_def)
  moreover have "(scast (11 :: byte) :: u64) = 11" by code_simp
  ultimately show ?thesis using n s by (simp add: FilterBlockReader_new_def Let_def)
qed

lemma FilterBlockReader_reads_filter:
  assumes len: "length (filter_contents fls) < 2 ^ 32" and i: "filter_index block_offset < length fls"
  shows "FilterBlockReader_KeyMayMatch m \<lparr>fr_contents = filter_contents fls, fr_offset = length (concat fls),
      fr_num = length fls, fr_base_lg = 11\<rparr> block_offset key = Some (m key (fls ! filter_index block_offset))"
proof -
  let ?i = "filter_index block_offset"
  define ws where "ws = (map of_nat (starts 0 fls @ [length (concat fls)]) :: u32 list)"
  note c = filter_contents_offsets [OF ws_def]
  have shift: "unat (drop_bit 11 block_offset) = ?i"
    by (simp add: filter_index_def kFilterBase_def kFilterBaseLg_def drop_bit_eq_div)
  have rd: "DecodeFixed32 (drop (length (concat fls) + j * 4) (filter_contents fls)) = Some (of_nat (length (concat (take j fls))))"
    if "j \<le> length fls" for j
    using DecodeFixed32_nth [of j ws] c(2) c(3) [of j] that unfolding c(1) by (simp add: mult.commute)
  have small: "unat (of_nat (length (concat (take j fls))) :: u32) = length (concat (take j fls))" for j
  proof -
    have "length (concat (take j fls)) < 2 ^ 32"
      using len length_concat_take_le [of j fls] c(1) by simp
    then show ?thesis by (simp add: unat_of_nat take_bit_nat_eq_self)
  qed
  have Suc: "length (concat (take (Suc ?i) fls)) = length (concat (take ?i fls)) + length (fls ! ?i)"
    by (rule length_concat_take_Suc [OF i])
  have "unat (of_nat (length (concat (take (Suc ?i) fls))) - of_nat (length (concat (take ?i fls))) :: u32) = length (fls ! ?i)"
    using small [of ?i] small [of "Suc ?i"] Suc by (subst unat_sub) (simp_all add: word_le_nat_alt)
  moreover have "take (length (fls ! ?i)) (drop (length (concat (take ?i fls))) (filter_contents fls)) = fls ! ?i"
    unfolding c(1) by (rule take_drop_concat [OF i])
  moreover have "(of_nat (length (concat (take ?i fls))) :: u32) \<le> of_nat (length (concat (take (Suc ?i) fls)))"
    using small [of ?i] small [of "Suc ?i"] Suc by (simp add: word_le_nat_alt)
  ultimately show ?thesis
    using rd [of ?i] rd [of "Suc ?i"] i shift small [of ?i] small [of "Suc ?i"] length_concat_take_le [of "Suc ?i" fls]
    by (simp add: FilterBlockReader_KeyMayMatch_def Let_def add.assoc add.commute [of 4])
qed

definition build_filter_block :: "(bytes list \<Rightarrow> bytes \<Rightarrow> bytes) \<Rightarrow> (u64 \<times> bytes list) list \<Rightarrow> bytes option" where
  "build_filter_block CreateFilter blocks =
     map_option (FilterBlock_Finish CreateFilter) (add_blocks CreateFilter blocks FilterBlockBuilder_new)"

context filter_policy
begin

lemma filter_block_complete:
  assumes "sorted (map fst blocks)" and "\<forall>j. block_group blocks j \<noteq> [] \<longrightarrow> key_set (block_group blocks j)"
    and "\<forall>contents. build_filter_block CreateFilter blocks = Some contents \<longrightarrow> length contents < 2 ^ 32"
    and "(block_offset, ks) \<in> set blocks" and "key \<in> set ks"
  shows "\<exists>contents reader. build_filter_block CreateFilter blocks = Some contents
    \<and> FilterBlockReader_new contents = Some reader
    \<and> FilterBlockReader_KeyMayMatch KeyMayMatch reader block_offset key = Some True"
proof -
  from fb_repr_add_blocks [of FilterBlockBuilder_new "[]" 0 blocks] assms(1,2) obtain this n where
    b: "add_blocks CreateFilter blocks FilterBlockBuilder_new = Some this"
      "fb_repr CreateFilter this (map (block_group blocks) [0..<n]) (block_group blocks n)"
      "\<forall>b \<in> set blocks. filter_index (fst b) \<le> n" by auto
  define fls where "fls = map (filter_of CreateFilter \<circ> block_group blocks) [0..<if block_group blocks n = [] then n else Suc n]"
  have fin: "FilterBlock_Finish CreateFilter this = filter_contents fls"
    unfolding fls_def by (rule Finish_contents [OF b(2)]) (use assms(2) in blast)
  let ?i = "filter_index block_offset"
  have key: "key \<in> set (block_group blocks ?i)" using assms(4,5) by (force simp: block_group_def)
  have "?i \<le> n" using b(3) assms(4) by force
  then have i: "?i < length fls" using key by (cases "?i = n") (auto simp: fls_def)
  then have "fls ! ?i = filter_of CreateFilter (block_group blocks ?i)" by (simp add: fls_def split: if_splits)
  moreover have "block_group blocks ?i \<noteq> []" using key by auto
  ultimately have match: "KeyMayMatch key (fls ! ?i)" using assms(2) KeyMayMatch_complete key by (auto simp: filter_of_def)
  have c: "build_filter_block CreateFilter blocks = Some (filter_contents fls)" using b(1) fin by (simp add: build_filter_block_def)
  then have len: "length (filter_contents fls) < 2 ^ 32" using assms(3) by blast
  then show ?thesis
    using c FilterBlockReader_contents [OF len] FilterBlockReader_reads_filter [OF len i, of KeyMayMatch key] match by simp
qed

lemma internal_filter_policy:
  "filter_policy (InternalFilterPolicy_CreateFilter CreateFilter) (InternalFilterPolicy_KeyMayMatch KeyMayMatch)
     (\<lambda>keys. key_set (map ExtractUserKey keys))"
  by unfold_locales
    (auto simp: InternalFilterPolicy_CreateFilter_def InternalFilterPolicy_KeyMayMatch_def
      intro: CreateFilter_appends KeyMayMatch_complete)

end

interpretation bloom_internal: filter_policy "InternalFilterPolicy_CreateFilter (Bloom_CreateFilter this)"
    "InternalFilterPolicy_KeyMayMatch Bloom_KeyMayMatch" "\<lambda>keys. bloom_key_set this (map ExtractUserKey keys)"
  for this :: BloomFilterPolicy
  by (rule bloom.internal_filter_policy)

lemma length_block_group_le: "length (block_group blocks j) \<le> length (concat (map snd blocks))"
proof (induction blocks)
  case (Cons b blocks)
  then show ?case by (simp add: block_group_def)
qed (simp add: block_group_def)


definition example_blocks :: "(u64 \<times> bytes list) list" where
  "example_blocks = [(0, [[1, 1, 9, 0, 0, 0, 0, 0, 0], [2, 1, 8, 0, 0, 0, 0, 0, 0]]), (5000, [[3, 1, 7, 0, 0, 0, 0, 0, 0]])]"

definition example_policy :: BloomFilterPolicy where
  "example_policy = \<lparr>bits_per_key = 10, bloom_k = 6\<rparr>"


end
