(* ===== verification/Table.thy ===== *)
theory Table
  imports TableFormat FilterBlock MemEnv
begin

section \<open>Tables (table/table_builder.cc, table/table.cc)\<close>

text \<open>
  Sorted tables: the builder writes data blocks, a filter block, a metaindex block, an index block and the footer to a
  writable file; a table is opened from a random access file and answers point lookups. The checksum, the file
  and Snappy are parameters. The filter policy is its name with the functions to create and probe a filter. A block
  cache is not used. An outer \<open>None\<close> is a failed assertion or a read outside a buffer.
\<close>

record TableOptions =
  to_comparator :: nat
  to_compare :: "bytes \<Rightarrow> bytes \<Rightarrow> int"
  to_restart_interval :: int
  to_block_size :: nat
  to_compression :: CompressionType
  to_paranoid_checks :: bool
  to_filter :: "(bytes \<times> (bytes list \<Rightarrow> bytes \<Rightarrow> bytes) \<times> (bytes \<Rightarrow> bytes \<Rightarrow> bool)) option"

subsection \<open>The builder\<close>

record 'f TableBuilder =
  tb_options :: TableOptions
  tb_file :: 'f
  tb_offset :: u64
  tb_status :: Status
  tb_data_block :: BlockBuilder
  tb_index_block :: BlockBuilder
  tb_last_key :: bytes
  tb_num_entries :: int
  tb_closed :: bool
  tb_filter_block :: "FilterBlockBuilder option"
  tb_pending_index_entry :: bool
  tb_pending_handle :: BlockHandle

definition filter_create :: "TableOptions \<Rightarrow> bytes list \<Rightarrow> bytes \<Rightarrow> bytes" where
  "filter_create opt = (case to_filter opt of None \<Rightarrow> (\<lambda>_ dst. dst) | Some (_, c, _) \<Rightarrow> c)"

definition start_filter_block :: "u64 \<Rightarrow> 'f TableBuilder \<Rightarrow> 'f TableBuilder option" where
  "start_filter_block offset this =
     (case tb_filter_block this of None \<Rightarrow> Some this
      | Some fb \<Rightarrow> do { fb \<leftarrow> StartBlock (filter_create (tb_options this)) offset fb; Some (this\<lparr>tb_filter_block := Some fb\<rparr>) })"

definition TableBuilder_new :: "TableOptions \<Rightarrow> 'f \<Rightarrow> 'f TableBuilder option" where
  "TableBuilder_new opt file = do {
     data_block \<leftarrow> BlockBuilder_new (to_restart_interval opt);
     index_block \<leftarrow> BlockBuilder_new (to_restart_interval opt);
     start_filter_block 0 \<lparr>tb_options = opt, tb_file = file, tb_offset = 0, tb_status = Status_OK, tb_data_block = data_block,
       tb_index_block = index_block, tb_last_key = [], tb_num_entries = 0, tb_closed = False,
       tb_filter_block = map_option (\<lambda>_. FilterBlockBuilder_new) (to_filter opt),
       tb_pending_index_entry = False, tb_pending_handle = BlockHandle_new\<rparr> }"

definition TableBuilder_ChangeOptions :: "TableOptions \<Rightarrow> 'f TableBuilder \<Rightarrow> Status \<times> 'f TableBuilder" where
  "TableBuilder_ChangeOptions opt this =
     (if to_comparator opt \<noteq> to_comparator (tb_options this)
      then (InvalidArgument (bytes_of_string ''changing comparator while building table'') [], this)
      else (Status_OK, this\<lparr>tb_options := opt\<rparr>))"

definition WriteRawBlock ::
    "(u32 \<Rightarrow> bytes \<Rightarrow> u32) \<Rightarrow> ('f \<Rightarrow> bytes \<Rightarrow> Status \<times> 'f) \<Rightarrow> bytes \<Rightarrow> CompressionType \<Rightarrow> 'f TableBuilder \<Rightarrow> BlockHandle \<times> 'f TableBuilder" where
  "WriteRawBlock ext Append block_contents t this =
     (let handle = \<lparr>bh_offset = tb_offset this, bh_size = of_nat (length block_contents)\<rparr>;
          (s, file) = Append (tb_file this) block_contents;
          this = this\<lparr>tb_file := file, tb_status := s\<rparr>
      in if Status_ok s then
           (let crc = ext 0 block_contents;
                crc = ext crc [CompressionType_code t];
                trailer = [CompressionType_code t] @ EncodeFixed32 (Mask crc);
                (s, file) = Append file trailer;
                this = this\<lparr>tb_file := file, tb_status := s\<rparr>
            in (handle,
                if Status_ok s
                then this\<lparr>tb_offset := tb_offset this + of_nat (length block_contents + kBlockTrailerSize)\<rparr> else this))
         else (handle, this))"

definition WriteBlock ::
    "(u32 \<Rightarrow> bytes \<Rightarrow> u32) \<Rightarrow> ('f \<Rightarrow> bytes \<Rightarrow> Status \<times> 'f) \<Rightarrow> (bytes \<Rightarrow> bytes option) \<Rightarrow> BlockBuilder \<Rightarrow> 'f TableBuilder
      \<Rightarrow> (BlockHandle \<times> BlockBuilder \<times> 'f TableBuilder) option" where
  "WriteBlock ext Append snappy_compress block this =
     (if \<not> Status_ok (tb_status this) then None
      else
        let (raw, block) = BlockBuilder_Finish block;
            (block_contents, t) =
              (case to_compression (tb_options this) of
                 kNoCompression \<Rightarrow> (raw, kNoCompression)
               | kSnappyCompression \<Rightarrow>
                   (case snappy_compress raw of
                      None \<Rightarrow> (raw, kNoCompression)
                    | Some compressed \<Rightarrow>
                        if length compressed < length raw - length raw div 8 then (compressed, kSnappyCompression)
                        else (raw, kNoCompression)));
            (handle, this) = WriteRawBlock ext Append block_contents t this
        in Some (handle, BlockBuilder_Reset block, this))"

definition TableBuilder_Flush ::
    "(u32 \<Rightarrow> bytes \<Rightarrow> u32) \<Rightarrow> ('f \<Rightarrow> bytes \<Rightarrow> Status \<times> 'f) \<Rightarrow> ('f \<Rightarrow> Status \<times> 'f) \<Rightarrow> (bytes \<Rightarrow> bytes option)
      \<Rightarrow> 'f TableBuilder \<Rightarrow> 'f TableBuilder option" where
  "TableBuilder_Flush ext Append FileFlush snappy_compress this =
     (if tb_closed this then None
      else if \<not> Status_ok (tb_status this) then Some this
      else if bb_buffer (tb_data_block this) = [] then Some this
      else if tb_pending_index_entry this then None
      else do {
        (handle, block, this) \<leftarrow> WriteBlock ext Append snappy_compress (tb_data_block this) this;
        let this = this\<lparr>tb_pending_handle := handle, tb_data_block := block\<rparr>;
        let this = (if Status_ok (tb_status this)
          then let (s, file) = FileFlush (tb_file this) in this\<lparr>tb_pending_index_entry := True, tb_status := s, tb_file := file\<rparr>
          else this);
        start_filter_block (tb_offset this) this })"

definition add_pending_index_entry :: "'f TableBuilder \<Rightarrow> 'f TableBuilder option" where
  "add_pending_index_entry this =
     (if tb_pending_index_entry this then do {
        handle_encoding \<leftarrow> BlockHandle_EncodeTo (tb_pending_handle this) [];
        index_block \<leftarrow> BlockBuilder_Add 1 (to_compare (tb_options this)) (tb_last_key this) handle_encoding (tb_index_block this);
        Some (this\<lparr>tb_index_block := index_block, tb_pending_index_entry := False\<rparr>) }
      else Some this)"

definition TableBuilder_Add ::
    "(u32 \<Rightarrow> bytes \<Rightarrow> u32) \<Rightarrow> ('f \<Rightarrow> bytes \<Rightarrow> Status \<times> 'f) \<Rightarrow> ('f \<Rightarrow> Status \<times> 'f) \<Rightarrow> (bytes \<Rightarrow> bytes option)
      \<Rightarrow> bytes \<Rightarrow> bytes \<Rightarrow> 'f TableBuilder \<Rightarrow> 'f TableBuilder option" where
  "TableBuilder_Add ext Append FileFlush snappy_compress key val this =
     (if tb_closed this then None
      else if \<not> Status_ok (tb_status this) then Some this
      else if 0 < tb_num_entries this \<and> \<not> 0 < to_compare (tb_options this) key (tb_last_key this) then None
      else if tb_pending_index_entry this \<and> bb_buffer (tb_data_block this) \<noteq> [] then None
      else do {
        this \<leftarrow> add_pending_index_entry this;
        let this = this\<lparr>tb_filter_block := map_option (AddKey key) (tb_filter_block this),
              tb_last_key := key, tb_num_entries := tb_num_entries this + 1\<rparr>;
        data_block \<leftarrow> BlockBuilder_Add (to_restart_interval (tb_options this)) (to_compare (tb_options this)) key val (tb_data_block this);
        let this = this\<lparr>tb_data_block := data_block\<rparr>;
        if to_block_size (tb_options this) \<le> CurrentSizeEstimate (tb_data_block this)
        then TableBuilder_Flush ext Append FileFlush snappy_compress this
        else Some this })"

text \<open>The four parts that \<open>Finish\<close> writes behind the data blocks, each while the status is ok.\<close>

definition write_filter_part ::
    "(u32 \<Rightarrow> bytes \<Rightarrow> u32) \<Rightarrow> ('f \<Rightarrow> bytes \<Rightarrow> Status \<times> 'f) \<Rightarrow> 'f TableBuilder \<Rightarrow> BlockHandle \<times> 'f TableBuilder" where
  "write_filter_part ext Append this =
     (case tb_filter_block this of
        Some fb \<Rightarrow> if Status_ok (tb_status this)
          then WriteRawBlock ext Append (FilterBlock_Finish (filter_create (tb_options this)) fb) kNoCompression this
          else (BlockHandle_new, this)
      | None \<Rightarrow> (BlockHandle_new, this))"

definition write_metaindex_part ::
    "(u32 \<Rightarrow> bytes \<Rightarrow> u32) \<Rightarrow> ('f \<Rightarrow> bytes \<Rightarrow> Status \<times> 'f) \<Rightarrow> (bytes \<Rightarrow> bytes option) \<Rightarrow> BlockHandle \<Rightarrow> 'f TableBuilder
      \<Rightarrow> (BlockHandle \<times> 'f TableBuilder) option" where
  "write_metaindex_part ext Append snappy_compress filter_block_handle this =
     (if \<not> Status_ok (tb_status this) then Some (BlockHandle_new, this)
      else do {
        meta \<leftarrow> BlockBuilder_new (to_restart_interval (tb_options this));
        meta \<leftarrow> (case (tb_filter_block this, to_filter (tb_options this)) of
            (Some _, Some (name, _)) \<Rightarrow> do {
              handle_encoding \<leftarrow> BlockHandle_EncodeTo filter_block_handle [];
              BlockBuilder_Add (to_restart_interval (tb_options this)) (to_compare (tb_options this))
                (bytes_of_string ''filter.'' @ name) handle_encoding meta }
          | _ \<Rightarrow> Some meta);
        (handle, _, this) \<leftarrow> WriteBlock ext Append snappy_compress meta this;
        Some (handle, this) })"

definition write_index_part ::
    "(u32 \<Rightarrow> bytes \<Rightarrow> u32) \<Rightarrow> ('f \<Rightarrow> bytes \<Rightarrow> Status \<times> 'f) \<Rightarrow> (bytes \<Rightarrow> bytes option) \<Rightarrow> 'f TableBuilder
      \<Rightarrow> (BlockHandle \<times> 'f TableBuilder) option" where
  "write_index_part ext Append snappy_compress this =
     (if \<not> Status_ok (tb_status this) then Some (BlockHandle_new, this)
      else do {
        this \<leftarrow> add_pending_index_entry this;
        (handle, block, this) \<leftarrow> WriteBlock ext Append snappy_compress (tb_index_block this) this;
        Some (handle, this\<lparr>tb_index_block := block\<rparr>) })"

definition write_footer_part :: "('f \<Rightarrow> bytes \<Rightarrow> Status \<times> 'f) \<Rightarrow> BlockHandle \<Rightarrow> BlockHandle \<Rightarrow> 'f TableBuilder \<Rightarrow> 'f TableBuilder option" where
  "write_footer_part Append metaindex_handle index_handle this =
     (if \<not> Status_ok (tb_status this) then Some this
      else do {
        footer_encoding \<leftarrow> Footer_EncodeTo \<lparr>ft_metaindex = metaindex_handle, ft_index = index_handle\<rparr> [];
        let (s, file) = Append (tb_file this) footer_encoding;
        let this = this\<lparr>tb_file := file, tb_status := s\<rparr>;
        Some (if Status_ok s then this\<lparr>tb_offset := tb_offset this + of_nat (length footer_encoding)\<rparr> else this) })"

definition TableBuilder_Finish ::
    "(u32 \<Rightarrow> bytes \<Rightarrow> u32) \<Rightarrow> ('f \<Rightarrow> bytes \<Rightarrow> Status \<times> 'f) \<Rightarrow> ('f \<Rightarrow> Status \<times> 'f) \<Rightarrow> (bytes \<Rightarrow> bytes option)
      \<Rightarrow> 'f TableBuilder \<Rightarrow> (Status \<times> 'f TableBuilder) option" where
  "TableBuilder_Finish ext Append FileFlush snappy_compress this = do {
     this \<leftarrow> TableBuilder_Flush ext Append FileFlush snappy_compress this;
     let this = this\<lparr>tb_closed := True\<rparr>;
     let (filter_block_handle, this) = write_filter_part ext Append this;
     (metaindex_block_handle, this) \<leftarrow> write_metaindex_part ext Append snappy_compress filter_block_handle this;
     (index_block_handle, this) \<leftarrow> write_index_part ext Append snappy_compress this;
     this \<leftarrow> write_footer_part Append metaindex_block_handle index_block_handle this;
     Some (tb_status this, this) }"

definition TableBuilder_Abandon :: "'f TableBuilder \<Rightarrow> 'f TableBuilder option" where
  "TableBuilder_Abandon this = (if tb_closed this then None else Some (this\<lparr>tb_closed := True\<rparr>))"

definition TableBuilder_FileSize :: "'f TableBuilder \<Rightarrow> u64" where
  "TableBuilder_FileSize this = tb_offset this"

subsection \<open>Opening and reading\<close>

record 'f Table =
  ta_options :: TableOptions
  ta_file :: 'f
  ta_metaindex_handle :: BlockHandle
  ta_index_block :: Block
  ta_filter :: "FilterBlockReader option"

text \<open>An iterator over a block, or the empty iterator with a status: a virtual call goes to the class of the object.\<close>

definition sum_iterator :: "'a Iterator \<Rightarrow> 'b Iterator \<Rightarrow> ('a + 'b) Iterator" where
  "sum_iterator I J = \<lparr>v_Valid = case_sum (v_Valid I) (v_Valid J),
     v_SeekToFirst = case_sum (map_option Inl \<circ> v_SeekToFirst I) (map_option Inr \<circ> v_SeekToFirst J),
     v_SeekToLast = case_sum (map_option Inl \<circ> v_SeekToLast I) (map_option Inr \<circ> v_SeekToLast J),
     v_Seek = (\<lambda>t. case_sum (map_option Inl \<circ> v_Seek I t) (map_option Inr \<circ> v_Seek J t)),
     v_Next = case_sum (map_option Inl \<circ> v_Next I) (map_option Inr \<circ> v_Next J),
     v_Prev = case_sum (map_option Inl \<circ> v_Prev I) (map_option Inr \<circ> v_Prev J),
     v_key = case_sum (v_key I) (v_key J), v_value = case_sum (v_value I) (v_value J), v_status = case_sum (v_status I) (v_status J)\<rparr>"

definition any_block_iterator :: "(bytes \<Rightarrow> bytes \<Rightarrow> int) \<Rightarrow> (Status + BlockIter) Iterator" where
  "any_block_iterator compare = sum_iterator EmptyIterator (block_iterator compare)"

text \<open>What the tables need of their environment: the checksum, Snappy and the file.\<close>

record 'f TableEnv =
  te_ext :: "u32 \<Rightarrow> bytes \<Rightarrow> u32"
  te_snappy :: "bytes \<Rightarrow> bytes option"
  te_Read :: "'f \<Rightarrow> u64 \<Rightarrow> u64 \<Rightarrow> Status \<times> bytes"
  te_in_scratch :: bool

definition read_block :: "'f TableEnv \<Rightarrow> 'f \<Rightarrow> bool \<Rightarrow> BlockHandle \<Rightarrow> (Status \<times> BlockContents) option" where
  "read_block te = ReadBlock (te_ext te) (te_snappy te) (te_Read te) (te_in_scratch te)"

definition ReadFilter :: "'f TableEnv \<Rightarrow> bytes \<Rightarrow> 'f Table \<Rightarrow> 'f Table option" where
  "ReadFilter te filter_handle_value this =
     (let (s, filter_handle, _) = BlockHandle_DecodeFrom BlockHandle_new filter_handle_value in
      if \<not> Status_ok s then Some this
      else do {
        (s, block) \<leftarrow> read_block te (ta_file this) (to_paranoid_checks (ta_options this)) filter_handle;
        if \<not> Status_ok s then Some this
        else do { reader \<leftarrow> FilterBlockReader_new (bc_data block); Some (this\<lparr>ta_filter := Some reader\<rparr>) } })"

definition ReadMeta :: "'f TableEnv \<Rightarrow> Footer \<Rightarrow> 'f Table \<Rightarrow> 'f Table option" where
  "ReadMeta te footer this =
     (case to_filter (ta_options this) of None \<Rightarrow> Some this
      | Some (name, _) \<Rightarrow> do {
          (s, contents) \<leftarrow> read_block te (ta_file this) (to_paranoid_checks (ta_options this)) (ft_metaindex footer);
          if \<not> Status_ok s then Some this
          else do {
            meta \<leftarrow> Block_new (bc_data contents);
            iter \<leftarrow> Block_NewIterator meta;
            let I = any_block_iterator Bytewise_Compare;
            let key = bytes_of_string ''filter.'' @ name;
            iter \<leftarrow> v_Seek I key iter;
            if v_Valid I iter \<and> v_key I iter = Some key
            then do { v \<leftarrow> v_value I iter; ReadFilter te v this } else Some this } })"

definition Table_Open :: "'f TableEnv \<Rightarrow> TableOptions \<Rightarrow> 'f \<Rightarrow> u64 \<Rightarrow> (Status \<times> 'f Table option) option" where
  "Table_Open te opt file fsize =
     (if fsize < of_nat kFooterLength then Some (Corruption (bytes_of_string ''file is too short to be an sstable'') [], None)
      else
        let (s, footer_input) = te_Read te file (fsize - of_nat kFooterLength) (of_nat kFooterLength) in
        if \<not> Status_ok s then Some (s, None)
        else do {
          (s, footer, _) \<leftarrow> Footer_DecodeFrom Footer_new footer_input;
          if \<not> Status_ok s then Some (s, None)
          else do {
            (s, index_block_contents) \<leftarrow> read_block te file (to_paranoid_checks opt) (ft_index footer);
            if \<not> Status_ok s then Some (s, None)
            else do {
              index_block \<leftarrow> Block_new (bc_data index_block_contents);
              table \<leftarrow> ReadMeta te footer \<lparr>ta_options = opt, ta_file = file, ta_metaindex_handle = ft_metaindex footer,
                ta_index_block = index_block, ta_filter = None\<rparr>;
              Some (s, Some table) } } })"

definition BlockReader :: "'f TableEnv \<Rightarrow> 'f Table \<Rightarrow> bool \<Rightarrow> bytes \<Rightarrow> (Status + BlockIter) option" where
  "BlockReader te table verify_checksums index_value =
     (let (s, handle, _) = BlockHandle_DecodeFrom BlockHandle_new index_value in
      if \<not> Status_ok s then Some (Inl (NewErrorIterator s))
      else do {
        (s, contents) \<leftarrow> read_block te (ta_file table) verify_checksums handle;
        if \<not> Status_ok s then Some (Inl (NewErrorIterator s))
        else do { block \<leftarrow> Block_new (bc_data contents); Block_NewIterator block } })"

definition InternalGet ::
    "'f TableEnv \<Rightarrow> 'f Table \<Rightarrow> bool \<Rightarrow> bytes \<Rightarrow> (bytes \<Rightarrow> bytes \<Rightarrow> 'r \<Rightarrow> 'r) \<Rightarrow> 'r \<Rightarrow> (Status \<times> 'r) option" where
  "InternalGet te this verify_checksums k handle_result arg = do {
     let I = any_block_iterator (to_compare (ta_options this));
     iiter \<leftarrow> Block_NewIterator (ta_index_block this);
     iiter \<leftarrow> v_Seek I k iiter;
     (s, arg) \<leftarrow>
       (if v_Valid I iiter then do {
          handle_value \<leftarrow> v_value I iiter;
          may_match \<leftarrow> (case (ta_filter this, to_filter (ta_options this)) of
              (Some fr, Some (_, _, m)) \<Rightarrow>
                let (hs, handle, _) = BlockHandle_DecodeFrom BlockHandle_new handle_value in
                if Status_ok hs then FilterBlockReader_KeyMayMatch m fr (bh_offset handle) k else Some True
            | _ \<Rightarrow> Some True);
          if \<not> may_match then Some (Status_OK, arg)
          else do {
            block_iter \<leftarrow> BlockReader te this verify_checksums handle_value;
            block_iter \<leftarrow> v_Seek I k block_iter;
            arg \<leftarrow> (if v_Valid I block_iter
              then do { bk \<leftarrow> v_key I block_iter; bv \<leftarrow> v_value I block_iter; Some (handle_result bk bv arg) } else Some arg);
            Some (v_status I block_iter, arg) } }
        else Some (Status_OK, arg));
     Some (if Status_ok s then v_status I iiter else s, arg) }"

definition ApproximateOffsetOf :: "'f Table \<Rightarrow> bytes \<Rightarrow> u64 option" where
  "ApproximateOffsetOf this key = do {
     let I = any_block_iterator (to_compare (ta_options this));
     index_iter \<leftarrow> Block_NewIterator (ta_index_block this);
     index_iter \<leftarrow> v_Seek I key index_iter;
     if v_Valid I index_iter then do {
       input \<leftarrow> v_value I index_iter;
       let (s, handle, _) = BlockHandle_DecodeFrom BlockHandle_new input;
       Some (if Status_ok s then bh_offset handle else bh_offset (ta_metaindex_handle this)) }
     else Some (bh_offset (ta_metaindex_handle this)) }"

subsection \<open>Sizes\<close>

definition entry_size :: "bytes \<times> bytes \<Rightarrow> nat" where
  "entry_size e = length (fst e) + length (snd e)"

lemma length_entry_bytes_le: "length (entry_bytes e) \<le> entry_size e + 15"
proof -
  obtain k v where e: "e = (k, v)" by fastforce
  show ?thesis using length_EncodeVarint32_le_5 [of 0] length_EncodeVarint32_le_5 [of "of_nat (length k)"] length_EncodeVarint32_le_5 [of "of_nat (length v)"]
    by (simp add: e entry_size_def)
qed

lemma length_entries_bytes_le: "length (entries_bytes es) \<le> (\<Sum>e\<leftarrow>es. entry_size e + 15)"
proof (induction es)
  case (Cons e es)
  then show ?case using length_entry_bytes_le [of e] by simp
qed simp

lemma sorted_below_length:
  assumes "sorted_wrt (<) (xs :: nat list)" "\<forall>x \<in> set xs. x < n"
  shows "length xs \<le> n"
proof -
  have "distinct xs" using assms(1) strict_sorted_iff [of xs] by simp
  then have "length xs = card (set xs)" by (simp add: distinct_card)
  also have "\<dots> \<le> card {..<n}" by (rule card_mono) (use assms(2) in auto)
  finally show ?thesis by simp
qed

lemma builder_restarts_le: "builder_ok interval b es ixs \<Longrightarrow> length ixs \<le> length es + 1"
  by (rule sorted_below_length) (auto simp: builder_ok_def)

lemma block_bytes_le:
  assumes "builder_ok interval b es ixs"
  shows "length (block_bytes es ixs) \<le> (\<Sum>e\<leftarrow>es. entry_size e + 19) + 8"
proof -
  have "(\<Sum>e\<leftarrow>es. entry_size e + 19) = (\<Sum>e\<leftarrow>es. entry_size e + 15) + 4 * length es" by (induction es) auto
  then show ?thesis using length_entries_bytes_le [of es] builder_restarts_le [OF assms]
    by (simp add: block_bytes_def length_fixed32s size_simps)
qed

lemma builder_layout: "builder_ok interval b es ixs \<Longrightarrow> (\<Sum>e\<leftarrow>es. entry_size e + 19) + 8 < 2 ^ 32 \<Longrightarrow> layout_ok es ixs"
  using block_bytes_le [of interval b es ixs] by (simp add: layout_ok_def builder_ok_def)

subsection \<open>Looking up in a block\<close>

lemma any_block_Inr [simp]:
  "v_Valid (any_block_iterator compare) (Inr it) = BlockIter_Valid it" "v_key (any_block_iterator compare) (Inr it) = BlockIter_key it"
  "v_value (any_block_iterator compare) (Inr it) = BlockIter_value it" "v_status (any_block_iterator compare) (Inr it) = bi_status it"
  "v_Seek (any_block_iterator compare) k (Inr it) = map_option Inr (BlockIter_Seek compare k it)"
  by (simp_all add: any_block_iterator_def sum_iterator_def block_iterator_def)

context key_comparator
begin

lemma block_lookup:
  assumes "layout_ok es ixs" "sorted_entries Compare valid es" "valid k"
  shows "\<exists>bl it it'. Block_new (block_bytes es ixs) = Some bl \<and> Block_NewIterator bl = Some (Inr it)
    \<and> BlockIter_Seek Compare k it = Some it' \<and> bi_status it' = Status_OK
    \<and> (BlockIter_Valid it' \<longleftrightarrow> seek_pos Compare k es < length es)
    \<and> (seek_pos Compare k es < length es \<longrightarrow> BlockIter_key it' = Some (fst (es ! seek_pos Compare k es))
         \<and> BlockIter_value it' = Some (snd (es ! seek_pos Compare k es)))"
proof -
  obtain bl it where b: "Block_new (block_bytes es ixs) = Some bl" "Block_NewIterator bl = Some (Inr it)" "iter_at it es ixs (length es)"
    using Block_NewIterator_ok [OF assms(1)] by blast
  then have "block_repr Compare valid it es (length es)" using assms(2) by (auto simp: block_repr_def)
  from block.repr_Seek [OF this assms(3)] obtain it' where
    s: "BlockIter_Seek Compare k it = Some it'" "block_repr Compare valid it' es (seek_pos Compare k es)" by (auto simp: block_iterator_def)
  show ?thesis using b(1,2) s(1) block.repr_status [OF s(2)] block.repr_Valid [OF s(2)] block.repr_entry [OF s(2)]
    by (auto simp: block_iterator_def)
qed

end

lemma find_seek_pos:
  "find (\<lambda>e. \<not> Compare (fst e) k < 0) es = (if seek_pos Compare k es < length es then Some (es ! seek_pos Compare k es) else None)"
proof -
  have "find (\<lambda>e. \<not> P e) es = (if length (takeWhile P es) < length es then Some (es ! length (takeWhile P es)) else None)" for P :: "bytes \<times> bytes \<Rightarrow> bool"
    by (induction es) auto
  then show ?thesis by (simp add: seek_pos_def)
qed

subsection \<open>The image of a table\<close>

text \<open>A data block is its entries with the indices of its restart points.\<close>

type_synonym chunk = "(bytes \<times> bytes) list \<times> nat list"

definition chunk_bytes :: "chunk \<Rightarrow> bytes" where
  "chunk_bytes c = block_bytes (fst c) (snd c)"

definition data_image :: "(u32 \<Rightarrow> bytes \<Rightarrow> u32) \<Rightarrow> chunk list \<Rightarrow> bytes" where
  "data_image ext cs = concat (map (\<lambda>c. stored_block ext (chunk_bytes c) kNoCompression) cs)"

definition chunk_handle :: "(u32 \<Rightarrow> bytes \<Rightarrow> u32) \<Rightarrow> chunk list \<Rightarrow> nat \<Rightarrow> BlockHandle" where
  "chunk_handle ext cs i = \<lparr>bh_offset = of_nat (length (data_image ext (take i cs))), bh_size = of_nat (length (chunk_bytes (cs ! i)))\<rparr>"

definition index_entries :: "(u32 \<Rightarrow> bytes \<Rightarrow> u32) \<Rightarrow> chunk list \<Rightarrow> nat \<Rightarrow> (bytes \<times> bytes) list" where
  "index_entries ext cs n = map (\<lambda>i. (fst (last (fst (cs ! i))), handle_bytes (chunk_handle ext cs i))) [0..<n]"

definition chunks_entries :: "chunk list \<Rightarrow> (bytes \<times> bytes) list" where
  "chunks_entries cs = concat (map fst cs)"

lemma length_stored_block: "length (stored_block ext c t) = length c + 5"
  by (simp add: stored_block_def size_simps)

lemma data_image_append: "data_image ext (cs @ [c]) = data_image ext cs @ stored_block ext (chunk_bytes c) kNoCompression"
  by (simp add: data_image_def)

lemma index_entries_append:
  "n \<le> length cs \<Longrightarrow> index_entries ext (cs @ ds) n = index_entries ext cs n"
  by (simp add: index_entries_def chunk_handle_def nth_append)

lemma index_entries_Suc:
  "index_entries ext cs (Suc n) = index_entries ext cs n @ [(fst (last (fst (cs ! n))), handle_bytes (chunk_handle ext cs n))]"
  by (simp add: index_entries_def)

subsection \<open>The builder writes the image\<close>

definition tb_core ::
    "('f \<Rightarrow> bytes) \<Rightarrow> ('f \<Rightarrow> nat \<Rightarrow> bool) \<Rightarrow> (u32 \<Rightarrow> bytes \<Rightarrow> u32) \<Rightarrow> TableOptions \<Rightarrow> nat \<Rightarrow> 'f TableBuilder \<Rightarrow> chunk list \<Rightarrow> (bytes \<times> bytes) list \<Rightarrow> bool" where
  "tb_core contents room ext opt N b cs cur \<longleftrightarrow>
     tb_options b = opt \<and> tb_status b = Status_OK \<and> \<not> tb_closed b \<and> tb_filter_block b = None
     \<and> contents (tb_file b) = data_image ext cs \<and> room (tb_file b) (N - length (data_image ext cs))
     \<and> tb_offset b = of_nat (length (data_image ext cs))
     \<and> (\<exists>ixs. builder_ok (to_restart_interval opt) (tb_data_block b) cur ixs)
     \<and> (\<exists>ixs. builder_ok 1 (tb_index_block b) (index_entries ext cs (if tb_pending_index_entry b then length cs - 1 else length cs)) ixs)
     \<and> (tb_pending_index_entry b \<longrightarrow> cs \<noteq> [] \<and> cur = [] \<and> tb_pending_handle b = chunk_handle ext cs (length cs - 1))
     \<and> tb_num_entries b = int (length (chunks_entries cs @ cur))
     \<and> (chunks_entries cs @ cur \<noteq> [] \<longrightarrow> tb_last_key b = fst (last (chunks_entries cs @ cur)))
     \<and> (\<forall>c \<in> set cs. fst c \<noteq> [] \<and> layout_ok (fst c) (snd c) \<and> length (chunk_bytes c) \<le> (\<Sum>e\<leftarrow>fst c. entry_size e + 19) + 8)"

definition tb_inv ::
    "('f \<Rightarrow> bytes) \<Rightarrow> ('f \<Rightarrow> nat \<Rightarrow> bool) \<Rightarrow> (u32 \<Rightarrow> bytes \<Rightarrow> u32) \<Rightarrow> TableOptions \<Rightarrow> nat \<Rightarrow> 'f TableBuilder \<Rightarrow> chunk list \<Rightarrow> (bytes \<times> bytes) list \<Rightarrow> bool" where
  "tb_inv contents room ext opt N b cs cur \<longleftrightarrow> tb_core contents room ext opt N b cs cur \<and> tb_pending_index_entry b = (cs \<noteq> [] \<and> cur = [])"

definition plain_options :: "(bytes \<Rightarrow> bytes \<Rightarrow> int) \<Rightarrow> TableOptions \<Rightarrow> bool" where
  "plain_options compare opt \<longleftrightarrow> to_compare opt = compare \<and> to_compression opt = kNoCompression \<and> to_filter opt = None \<and> 1 \<le> to_restart_interval opt"

definition table_size :: "(bytes \<times> bytes) list \<Rightarrow> nat" where
  "table_size es = (\<Sum>e\<leftarrow>es. 2 * entry_size e + 80) + 100"

lemma sum_list_le: "(\<And>x. x \<in> set xs \<Longrightarrow> f x \<le> g x) \<Longrightarrow> (\<Sum>x\<leftarrow>xs. f x) \<le> (\<Sum>x\<leftarrow>xs. g x :: nat)"
  by (induction xs) (auto simp: add_mono)

lemma data_image_le:
  assumes "\<forall>c \<in> set cs. fst c \<noteq> [] \<and> length (chunk_bytes c) \<le> (\<Sum>e\<leftarrow>fst c. entry_size e + 19) + 8"
  shows "length (data_image ext cs) \<le> (\<Sum>e\<leftarrow>chunks_entries cs. entry_size e + 32)"
  using assms
proof (induction cs)
  case (Cons c cs)
  have "(\<Sum>e\<leftarrow>fst c. entry_size e + 32) = (\<Sum>e\<leftarrow>fst c. entry_size e + 19) + 13 * length (fst c)" by (induction "fst c") (auto simp: sum_list_addf sum_list_triv)
  moreover have "1 \<le> length (fst c)" using Cons.prems by (cases "fst c") auto
  ultimately show ?case using Cons by (simp add: data_image_def chunks_entries_def length_stored_block)
qed (simp add: data_image_def)

lemma handle_set_chunk:
  assumes "length (data_image ext (take i cs)) < 2 ^ 32" "length (chunk_bytes (cs ! i)) < 2 ^ 32"
  shows "handle_set (chunk_handle ext cs i)"
    "unat (bh_offset (chunk_handle ext cs i)) = length (data_image ext (take i cs))" "unat (bh_size (chunk_handle ext cs i)) = length (chunk_bytes (cs ! i))"
proof -
  show u: "unat (bh_offset (chunk_handle ext cs i)) = length (data_image ext (take i cs))" "unat (bh_size (chunk_handle ext cs i)) = length (chunk_bytes (cs ! i))"
    using assms unat_of_nat_u64 by (simp_all add: chunk_handle_def)
  have "unat (NOT 0 :: u64) = 2 ^ 64 - 1" by (simp add: unsigned_minus_1_eq_mask mask_eq_exp_minus_1)
  then have ne: "x \<noteq> NOT 0" if "unat x < 2 ^ 32" for x :: u64 using that by fastforce
  show "handle_set (chunk_handle ext cs i)" unfolding handle_set_def using assms u ne by simp
qed

lemma handle_set_small: "m < 2 ^ 32 \<Longrightarrow> n < 2 ^ 32 \<Longrightarrow> handle_set \<lparr>bh_offset = of_nat m, bh_size = of_nat n\<rparr>"
  for m n :: nat
proof -
  assume "m < 2 ^ 32" "n < 2 ^ 32"
  moreover have "unat (NOT 0 :: u64) = 2 ^ 64 - 1" by (simp add: unsigned_minus_1_eq_mask mask_eq_exp_minus_1)
  then have "of_nat x \<noteq> (NOT 0 :: u64)" if "x < 2 ^ 32" for x using that unat_of_nat_u64 [of x] by fastforce
  ultimately show ?thesis by (simp add: handle_set_def)
qed

lemma sorted_wrt_lasts:
  assumes "sorted_wrt R (concat xss)" "[] \<notin> set xss"
  shows "sorted_wrt R (map last xss)"
  using assms by (induction xss) (auto simp: sorted_wrt_append intro!: last_in_set)

lemma index_entries_keys: "n \<le> length cs \<Longrightarrow> map fst (index_entries ext cs n) = map (\<lambda>c. fst (last (fst c))) (take n cs)"
  by (rule nth_equalityI) (simp_all add: index_entries_def)

lemma sorted_entries_index:
  assumes "sorted_entries Compare valid (chunks_entries cs)" "\<forall>c \<in> set cs. fst c \<noteq> []"
  shows "sorted_entries Compare valid (index_entries ext cs (length cs))"
proof -
  have "sorted_wrt (\<lambda>a b. Compare (fst a) (fst b) < 0) (map last (map fst cs))"
    by (rule sorted_wrt_lasts) (use assms in \<open>auto simp: sorted_entries_def chunks_entries_def\<close>)
  then have "sorted_wrt (\<lambda>a b. Compare a b < 0) (map fst (index_entries ext cs (length cs)))"
    by (simp add: index_entries_keys sorted_wrt_map)
  moreover have "valid k" if "k \<in> set (map fst (index_entries ext cs (length cs)))" for k
  proof -
    have "k \<in> (\<lambda>c. fst (last (fst c))) ` set cs" using that by (simp only: index_entries_keys [OF order_refl] take_all [OF order_refl] set_map)
    then obtain c where "c \<in> set cs" "k = fst (last (fst c))" by auto
    then show ?thesis using assms last_in_set [of "fst c"] by (auto simp: sorted_entries_def chunks_entries_def)
  qed
  ultimately show ?thesis by (auto simp: sorted_entries_def sorted_wrt_map)
qed

context key_comparator
begin

lemma sorted_entries_snoc:
  assumes "sorted_entries Compare valid (es @ [e])"
  shows "es = [] \<or> 0 < Compare (fst e) (fst (last es))"
proof (cases "es = []")
  case False
  then have "last es \<in> set es" by simp
  then have "Compare (fst (last es)) (fst e) < 0" "valid (fst (last es))" "valid (fst e)"
    using assms by (auto simp: sorted_entries_def sorted_wrt_append)
  then show ?thesis using Compare_flip by blast
qed simp

end

lemma index_size:
  assumes "\<forall>c \<in> set cs. fst c \<noteq> []"
  shows "(\<Sum>e\<leftarrow>index_entries ext cs (length cs). entry_size e + 19) \<le> (\<Sum>e\<leftarrow>chunks_entries cs. entry_size e + 39)"
proof -
  have "(\<Sum>e\<leftarrow>index_entries ext cs (length cs). entry_size e + 19) \<le> (\<Sum>i\<leftarrow>[0..<length cs]. entry_size (last (fst (cs ! i))) + 39)"
    unfolding index_entries_def map_map o_def
  proof (rule sum_list_le)
    fix i
    show "entry_size (fst (last (fst (cs ! i))), handle_bytes (chunk_handle ext cs i)) + 19 \<le> entry_size (last (fst (cs ! i))) + 39"
      using length_handle_bytes [of "chunk_handle ext cs i"] by (simp add: entry_size_def kMaxEncodedLength_def)
  qed
  also have "\<dots> = (\<Sum>c\<leftarrow>cs. entry_size (last (fst c)) + 39)"
    using map_nth [of cs] by (metis (no_types, lifting) map_map comp_apply map_eq_conv)
  also have "\<dots> \<le> (\<Sum>c\<leftarrow>cs. \<Sum>e\<leftarrow>fst c. entry_size e + 39)"
  proof (rule sum_list_le)
    fix c assume "c \<in> set cs"
    then have "last (fst c) \<in> set (fst c)" using assms by simp
    then show "entry_size (last (fst c)) + 39 \<le> (\<Sum>e\<leftarrow>fst c. entry_size e + 39)"
      by (intro member_le_sum_list) auto
  qed
  also have "\<dots> = (\<Sum>e\<leftarrow>chunks_entries cs. entry_size e + 39)" unfolding chunks_entries_def by (induction cs) simp_all
  finally show ?thesis .
qed

lemma add_pending_file:
  "add_pending_index_entry b = Some b' \<Longrightarrow>
   add_pending_index_entry (b\<lparr>tb_closed := c, tb_file := f, tb_status := s, tb_offset := ofs\<rparr>) = Some (b'\<lparr>tb_closed := c, tb_file := f, tb_status := s, tb_offset := ofs\<rparr>)"
  by (auto simp: add_pending_index_entry_def split: if_splits Option.bind_splits)

text \<open>The bytes of a complete table of some entries, with its data blocks and restart points.\<close>

definition is_table :: "(u32 \<Rightarrow> bytes \<Rightarrow> u32) \<Rightarrow> (bytes \<times> bytes) list \<Rightarrow> bytes \<Rightarrow> chunk list \<Rightarrow> nat list \<Rightarrow> bool" where
  "is_table ext es bs cs ixs \<longleftrightarrow> chunks_entries cs = es \<and> (\<forall>c \<in> set cs. fst c \<noteq> [] \<and> layout_ok (fst c) (snd c))
     \<and> layout_ok (index_entries ext cs (length cs)) ixs \<and> length bs < 2 ^ 32
     \<and> (let meta = stored_block ext (block_bytes [] [0]) kNoCompression; index = block_bytes (index_entries ext cs (length cs)) ixs;
            n = length (data_image ext cs)
        in \<exists>fb. Footer_EncodeTo \<lparr>ft_metaindex = \<lparr>bh_offset = of_nat n, bh_size = of_nat (length (block_bytes [] [0]))\<rparr>,
              ft_index = \<lparr>bh_offset = of_nat (n + length meta), bh_size = of_nat (length index)\<rparr>\<rparr> [] = Some fb
            \<and> bs = data_image ext cs @ meta @ stored_block ext index kNoCompression @ fb)"

lemma finish_sizes:
  assumes all: "\<forall>c \<in> set cs. fst c \<noteq> [] \<and> length (chunk_bytes c) \<le> (\<Sum>e\<leftarrow>fst c. entry_size e + 19) + 8"
    and ix: "builder_ok 1 ib (index_entries ext cs (length cs)) ixs" and size: "table_size (chunks_entries cs) \<le> N" "N < 2 ^ 32"
  shows "length (data_image ext cs) + length (block_bytes (index_entries ext cs (length cs)) ixs) + 13 + 5 + 48 \<le> N"
    and "layout_ok (index_entries ext cs (length cs)) ixs"
proof -
  have a: "length (data_image ext cs) \<le> (\<Sum>e\<leftarrow>chunks_entries cs. entry_size e + 32)" using data_image_le [of cs ext] all by simp
  have b: "(\<Sum>e\<leftarrow>index_entries ext cs (length cs). entry_size e + 19) \<le> (\<Sum>e\<leftarrow>chunks_entries cs. entry_size e + 39)" using index_size [of cs ext] all by simp
  have c: "length (block_bytes (index_entries ext cs (length cs)) ixs) \<le> (\<Sum>e\<leftarrow>index_entries ext cs (length cs). entry_size e + 19) + 8" by (rule block_bytes_le [OF ix])
  show "length (data_image ext cs) + length (block_bytes (index_entries ext cs (length cs)) ixs) + 13 + 5 + 48 \<le> N"
    using a b c size by (auto simp: table_size_def sum_list_addf sum_list_triv sum_list_const_mult)
  show "layout_ok (index_entries ext cs (length cs)) ixs"
    using b builder_layout [OF ix] size by (auto simp: table_size_def sum_list_addf sum_list_triv sum_list_const_mult)
qed

fun table_add_all ::
    "(u32 \<Rightarrow> bytes \<Rightarrow> u32) \<Rightarrow> ('f \<Rightarrow> bytes \<Rightarrow> Status \<times> 'f) \<Rightarrow> ('f \<Rightarrow> Status \<times> 'f) \<Rightarrow> (bytes \<Rightarrow> bytes option)
      \<Rightarrow> (bytes \<times> bytes) list \<Rightarrow> 'f TableBuilder \<Rightarrow> 'f TableBuilder option" where
  "table_add_all ext Append FileFlush snappy_compress [] b = Some b"
| "table_add_all ext Append FileFlush snappy_compress ((k, v) # es) b =
     do { b \<leftarrow> TableBuilder_Add ext Append FileFlush snappy_compress k v b; table_add_all ext Append FileFlush snappy_compress es b }"

locale table_writer = writable_file Append FileFlush contents room + checksum ext + key_comparator Compare valid
  for Append :: "'f \<Rightarrow> bytes \<Rightarrow> Status \<times> 'f" and FileFlush :: "'f \<Rightarrow> Status \<times> 'f" and contents :: "'f \<Rightarrow> bytes" and room :: "'f \<Rightarrow> nat \<Rightarrow> bool"
    and ext :: "u32 \<Rightarrow> bytes \<Rightarrow> u32" and Compare :: "bytes \<Rightarrow> bytes \<Rightarrow> int" and valid :: "bytes \<Rightarrow> bool"
begin

lemma WriteRawBlock_ok:
  assumes "room (tb_file b) n" "length c + 5 \<le> n"
  shows "\<exists>file. WriteRawBlock ext Append c t b = (\<lparr>bh_offset = tb_offset b, bh_size = of_nat (length c)\<rparr>,
      b\<lparr>tb_file := file, tb_status := Status_OK, tb_offset := tb_offset b + of_nat (length c + 5)\<rparr>)
    \<and> contents file = contents (tb_file b) @ stored_block ext c t \<and> room file (n - (length c + 5))"
proof -
  let ?tr = "[CompressionType_code t] @ EncodeFixed32 (Mask (ext (ext 0 c) [CompressionType_code t]))"
  obtain f1 where f1: "Append (tb_file b) c = (Status_OK, f1)" "contents f1 = contents (tb_file b) @ c" "room f1 (n - length c)"
    using Append_contents [OF assms(1), of c] assms(2) by auto
  have tr: "length ?tr \<le> n - length c" using assms(2) by (simp add: size_simps)
  obtain f2 where f2: "Append f1 ?tr = (Status_OK, f2)" "contents f2 = contents f1 @ ?tr" "room f2 (n - length c - length ?tr)"
    using Append_contents [OF f1(3) tr] by blast
  then show ?thesis using f1 by (intro exI [of _ f2]) (simp add: WriteRawBlock_def Let_def stored_block_def ext_append kBlockTrailerSize_def size_simps)
qed

lemma WriteBlock_ok:
  assumes "room (tb_file b) n" "builder_ok interval bb es ixs" "tb_status b = Status_OK" "to_compression (tb_options b) = kNoCompression" "length (block_bytes es ixs) + 5 \<le> n"
  shows "\<exists>file bb'. WriteBlock ext Append snappy_compress bb b = Some (\<lparr>bh_offset = tb_offset b, bh_size = of_nat (length (block_bytes es ixs))\<rparr>,
      BlockBuilder_Reset bb', b\<lparr>tb_file := file, tb_status := Status_OK, tb_offset := tb_offset b + of_nat (length (block_bytes es ixs) + 5)\<rparr>)
    \<and> contents file = contents (tb_file b) @ stored_block ext (block_bytes es ixs) kNoCompression \<and> room file (n - (length (block_bytes es ixs) + 5))"
proof -
  obtain bb' where F: "BlockBuilder_Finish bb = (block_bytes es ixs, bb')" using BlockBuilder_Finish_ok [OF assms(2)] by (metis prod.collapse)
  show ?thesis using WriteRawBlock_ok [OF assms(1,5), of kNoCompression] assms(3,4) by (auto simp: WriteBlock_def F)
qed

lemma Flush_ok:
  assumes inv: "tb_inv contents room ext opt N b cs cur" and "plain_options Compare opt" "cur \<noteq> []"
    and "table_size (chunks_entries cs @ cur) \<le> N" "N < 2 ^ 32"
  shows "\<exists>b' ixs. TableBuilder_Flush ext Append FileFlush snappy_compress b = Some b' \<and> tb_inv contents room ext opt N b' (cs @ [(cur, ixs)]) []"
proof -
  have c: "tb_core contents room ext opt N b cs cur" and np: "\<not> tb_pending_index_entry b" using inv assms(3) by (auto simp: tb_inv_def)
  obtain ixs where d: "builder_ok (to_restart_interval opt) (tb_data_block b) cur ixs" using c by (auto simp: tb_core_def)
  let ?c = "(cur, ixs)" and ?n = "N - length (data_image ext cs)"
  have le: "length (chunk_bytes ?c) \<le> (\<Sum>e\<leftarrow>cur. entry_size e + 19) + 8" using block_bytes_le [OF d] by (simp add: chunk_bytes_def)
  have "length (data_image ext cs) \<le> (\<Sum>e\<leftarrow>chunks_entries cs. entry_size e + 32)" by (rule data_image_le) (use c in \<open>auto simp: tb_core_def\<close>)
  then have room: "length (chunk_bytes ?c) + 5 \<le> ?n" and L: "layout_ok cur ixs"
    using le assms(3,4,5) builder_layout [OF d] by (auto simp: table_size_def sum_list_addf sum_list_triv sum_list_const_mult)
  have st: "room (tb_file b) ?n" "tb_status b = Status_OK" "to_compression (tb_options b) = kNoCompression"
    using c assms(2) by (simp_all add: tb_core_def plain_options_def)
  obtain g bb' where W: "WriteBlock ext Append snappy_compress (tb_data_block b) b = Some (\<lparr>bh_offset = tb_offset b, bh_size = of_nat (length (chunk_bytes ?c))\<rparr>,
      BlockBuilder_Reset bb', b\<lparr>tb_file := g, tb_status := Status_OK, tb_offset := tb_offset b + of_nat (length (chunk_bytes ?c) + 5)\<rparr>)"
    and f: "contents g = contents (tb_file b) @ stored_block ext (chunk_bytes ?c) kNoCompression" "room g (?n - (length (chunk_bytes ?c) + 5))"
    using WriteBlock_ok [OF st(1) d st(2,3), of snappy_compress] room unfolding chunk_bytes_def by auto
  obtain g' where F: "FileFlush g = (Status_OK, g')" "contents g' = contents g" "room g' (?n - (length (chunk_bytes ?c) + 5))"
    using Flush_contents [OF f(2)] by blast
  have ne: "bb_buffer (tb_data_block b) \<noteq> []" using d assms(3) by (simp add: builder_ok_def)
  let ?b = "b\<lparr>tb_file := g', tb_status := Status_OK, tb_offset := tb_offset b + of_nat (length (chunk_bytes ?c) + 5),
    tb_pending_handle := \<lparr>bh_offset = tb_offset b, bh_size = of_nat (length (chunk_bytes ?c))\<rparr>, tb_data_block := BlockBuilder_Reset bb', tb_pending_index_entry := True\<rparr>"
  have "TableBuilder_Flush ext Append FileFlush snappy_compress b = Some ?b"
    using c np ne by (simp add: TableBuilder_Flush_def tb_core_def W F start_filter_block_def)
  moreover have "tb_inv contents room ext opt N ?b (cs @ [?c]) []"
    using c np assms(2,3) f F L le BlockBuilder_Reset_ok [of "to_restart_interval opt" bb']
    by (auto simp: tb_inv_def tb_core_def plain_options_def data_image_append length_stored_block chunks_entries_def index_entries_append chunk_handle_def)
  ultimately show ?thesis by blast
qed

lemma add_pending_ok:
  assumes core: "tb_core contents room ext opt N b cs cur" and "plain_options Compare opt"
    and sorted: "sorted_entries Compare valid (chunks_entries cs @ cur)" and size: "table_size (chunks_entries cs @ cur) \<le> N" "N < 2 ^ 32"
  shows "\<exists>b'. add_pending_index_entry b = Some b' \<and> tb_core contents room ext opt N b' cs cur \<and> \<not> tb_pending_index_entry b'"
proof (cases "tb_pending_index_entry b")
  case True
  define n where "n = length cs - 1"
  have cs: "length cs = Suc n" "cur = []" "cs \<noteq> []" and h: "tb_pending_handle b = chunk_handle ext cs n"
    and all: "\<forall>c \<in> set cs. fst c \<noteq> [] \<and> length (chunk_bytes c) \<le> (\<Sum>e\<leftarrow>fst c. entry_size e + 19) + 8"
    using core True by (auto simp: tb_core_def n_def)
  obtain ixs where d: "builder_ok 1 (tb_index_block b) (index_entries ext cs n) ixs" using core True by (auto simp: tb_core_def n_def)
  have split: "cs = take n cs @ [cs ! n]" using cs(1) by (simp add: take_Suc_conv_app_nth [symmetric])
  have "length (data_image ext cs) \<le> (\<Sum>e\<leftarrow>chunks_entries cs. entry_size e + 32)" by (rule data_image_le) (use all in auto)
  then have "length (data_image ext cs) < 2 ^ 32" using size by (auto simp: table_size_def sum_list_addf sum_list_triv sum_list_const_mult)
  moreover have "length (data_image ext cs) = length (data_image ext (take n cs)) + length (chunk_bytes (cs ! n)) + 5"
    by (subst split) (simp add: data_image_append length_stored_block)
  ultimately have "handle_set (tb_pending_handle b)" unfolding h by (intro handle_set_chunk) simp_all
  then have E: "BlockHandle_EncodeTo (tb_pending_handle b) [] = Some (handle_bytes (chunk_handle ext cs n))" by (simp add: BlockHandle_EncodeTo_bytes h)
  have "chunks_entries cs = concat (map fst (take n cs)) @ fst (cs ! n)" by (subst split) (simp add: chunks_entries_def)
  moreover have "fst (cs ! n) \<noteq> []" using all cs(1) nth_mem [of n cs] by simp
  ultimately have ne: "chunks_entries cs \<noteq> []" and k: "last (chunks_entries cs) = last (fst (cs ! n))" by simp_all
  have last: "tb_last_key b = fst (last (fst (cs ! n)))" using core cs(2) ne k by (simp add: tb_core_def)
  have "sorted_entries Compare valid (index_entries ext cs (Suc n))" using sorted_entries_index [of Compare valid cs ext] sorted all cs by simp
  then have "index_entries ext cs n = [] \<or> 0 < Compare (tb_last_key b) (fst (last (index_entries ext cs n)))"
    using sorted_entries_snoc [of "index_entries ext cs n" "(tb_last_key b, handle_bytes (chunk_handle ext cs n))"] by (simp add: last index_entries_Suc)
  from BlockBuilder_Add_ok [OF d, of Compare "tb_last_key b" "handle_bytes (chunk_handle ext cs n)", OF _ this] obtain bb ixs' where
    "BlockBuilder_Add 1 Compare (tb_last_key b) (handle_bytes (chunk_handle ext cs n)) (tb_index_block b) = Some bb"
    "builder_ok 1 bb (index_entries ext cs (Suc n)) ixs'" using last by (auto simp: index_entries_Suc)
  then show ?thesis using core assms(2) True E cs by (auto simp: add_pending_index_entry_def tb_core_def plain_options_def)
qed (use core in \<open>auto simp: add_pending_index_entry_def\<close>)

lemma Add_ok:
  assumes inv: "tb_inv contents room ext opt N b cs cur" and opt: "plain_options Compare opt"
    and sorted: "sorted_entries Compare valid (chunks_entries cs @ cur @ [(k, v)])"
    and size: "table_size (chunks_entries cs @ cur @ [(k, v)]) \<le> N" "N < 2 ^ 32"
  shows "\<exists>b' cs' cur'. TableBuilder_Add ext Append FileFlush snappy_compress k v b = Some b' \<and> tb_inv contents room ext opt N b' cs' cur'
    \<and> chunks_entries cs' @ cur' = chunks_entries cs @ cur @ [(k, v)]"
proof -
  let ?es = "chunks_entries cs @ cur"
  have core: "tb_core contents room ext opt N b cs cur" using inv by (simp add: tb_inv_def)
  have so: "sorted_entries Compare valid ?es" using sorted by (simp add: sorted_entries_def sorted_wrt_append)
  have sz: "table_size ?es \<le> N" using size by (simp add: table_size_def)
  obtain b1 where b1: "add_pending_index_entry b = Some b1" "tb_core contents room ext opt N b1 cs cur" "\<not> tb_pending_index_entry b1"
    using add_pending_ok [OF core opt so sz size(2)] by blast
  have gt: "?es = [] \<or> 0 < Compare k (fst (last ?es))" using sorted_entries_snoc [of ?es "(k, v)"] sorted by simp
  have pb: "tb_pending_index_entry b \<longrightarrow> bb_buffer (tb_data_block b) = []" using core by (auto simp: tb_core_def builder_ok_def)
  have g: "\<not> (0 < tb_num_entries b \<and> \<not> 0 < Compare k (tb_last_key b))" "\<not> tb_closed b" "Status_ok (tb_status b)" "to_compare (tb_options b) = Compare"
    using core gt opt by (auto simp: tb_core_def plain_options_def)
  obtain ixs where d: "builder_ok (to_restart_interval opt) (tb_data_block b1) cur ixs" using b1(2) by (auto simp: tb_core_def)
  have "cur = [] \<or> 0 < Compare k (fst (last cur))" using gt by (cases "cur = []") simp_all
  then obtain bb ixs' where bb: "BlockBuilder_Add (to_restart_interval opt) Compare k v (tb_data_block b1) = Some bb" "builder_ok (to_restart_interval opt) bb (cur @ [(k, v)]) ixs'"
    using BlockBuilder_Add_ok [OF d, of Compare k v] opt by (auto simp: plain_options_def)
  let ?b = "b1\<lparr>tb_filter_block := map_option (AddKey k) (tb_filter_block b1), tb_last_key := k, tb_num_entries := tb_num_entries b1 + 1, tb_data_block := bb\<rparr>"
  have I: "tb_inv contents room ext opt N ?b cs (cur @ [(k, v)])" using b1(2,3) bb(2) by (auto simp: tb_inv_def tb_core_def)
  have o1: "tb_options b1 = opt" using b1(2) by (simp add: tb_core_def)
  have A: "TableBuilder_Add ext Append FileFlush snappy_compress k v b =
      (if to_block_size opt \<le> CurrentSizeEstimate bb then TableBuilder_Flush ext Append FileFlush snappy_compress ?b else Some ?b)"
    using g pb b1(1) bb(1) opt o1 by (cases "0 < tb_num_entries b"; cases "tb_pending_index_entry b") (simp_all add: TableBuilder_Add_def Let_def plain_options_def)
  show ?thesis
  proof (cases "to_block_size opt \<le> CurrentSizeEstimate bb")
    case True
    obtain b' ixs'' where "TableBuilder_Flush ext Append FileFlush snappy_compress ?b = Some b'" "tb_inv contents room ext opt N b' (cs @ [(cur @ [(k, v)], ixs'')]) []"
      using Flush_ok [OF I opt, of snappy_compress] size by auto
    then show ?thesis using True A by (intro exI [of _ b'] exI [of _ "cs @ [(cur @ [(k, v)], ixs'')]"] exI [of _ "[]"]) (simp add: chunks_entries_def)
  next
    case False
    then show ?thesis using A I by (intro exI [of _ ?b] exI [of _ cs] exI [of _ "cur @ [(k, v)]"]) simp
  qed
qed

lemma Flush_all:
  assumes inv: "tb_inv contents room ext opt N b cs cur" and opt: "plain_options Compare opt"
    and size: "table_size (chunks_entries cs @ cur) \<le> N" "N < 2 ^ 32"
  shows "\<exists>b' cs'. TableBuilder_Flush ext Append FileFlush snappy_compress b = Some b' \<and> tb_inv contents room ext opt N b' cs' [] \<and> chunks_entries cs' = chunks_entries cs @ cur"
proof (cases "cur = []")
  case True
  then have "TableBuilder_Flush ext Append FileFlush snappy_compress b = Some b"
    using inv by (auto simp: TableBuilder_Flush_def tb_inv_def tb_core_def builder_ok_def)
  then show ?thesis using inv True by auto
next
  case False
  obtain b' ixs where "TableBuilder_Flush ext Append FileFlush snappy_compress b = Some b'" "tb_inv contents room ext opt N b' (cs @ [(cur, ixs)]) []"
    using Flush_ok [OF inv opt False size] by blast
  then show ?thesis by (intro exI [of _ b'] exI [of _ "cs @ [(cur, ixs)]"]) (simp add: chunks_entries_def)
qed

lemma finish_parts:
  assumes core: "tb_core contents room ext opt N b1 cs []" and P: "add_pending_index_entry b1 = Some b2"
    and core2: "tb_core contents room ext opt N b2 cs []" and ix: "builder_ok 1 (tb_index_block b2) (index_entries ext cs (length cs)) ixs"
    and total: "length (data_image ext cs) + length (block_bytes (index_entries ext cs (length cs)) ixs) + 13 + 5 + 48 \<le> N"
    and opt: "plain_options Compare opt" and size: "N < 2 ^ 32" and lay: "layout_ok (index_entries ext cs (length cs)) ixs"
  shows "\<exists>b' mh b3 ih b4. write_metaindex_part ext Append snappy_compress BlockHandle_new (b1\<lparr>tb_closed := True\<rparr>) = Some (mh, b3)
    \<and> write_index_part ext Append snappy_compress b3 = Some (ih, b4) \<and> write_footer_part Append mh ih b4 = Some b' \<and> tb_status b' = Status_OK
    \<and> is_table ext (chunks_entries cs) (contents (tb_file b')) cs ixs \<and> tb_offset b' = of_nat (length (contents (tb_file b')))
    \<and> room (tb_file b') (N - length (contents (tb_file b')))"
proof -
  let ?n = "length (data_image ext cs)" and ?m = "block_bytes [] [0]" and ?i = "block_bytes (index_entries ext cs (length cs)) ixs"
  have o1: "tb_options b1 = opt" "tb_filter_block b1 = None" "tb_status b1 = Status_OK" "tb_offset b1 = of_nat ?n" "contents (tb_file b1) = data_image ext cs"
    and rm: "room (tb_file b1) (N - ?n)" and o2: "tb_options b2 = opt" using core core2 by (simp_all add: tb_core_def)
  obtain mb where mb: "BlockBuilder_new (to_restart_interval opt) = Some mb" "builder_ok (to_restart_interval opt) mb [] [0]"
    using BlockBuilder_new_ok opt by (auto simp: plain_options_def)
  have lm: "length ?m = 8" by (simp add: block_bytes_def size_simps)
  let ?b1 = "b1\<lparr>tb_closed := True\<rparr>"
  have h1: "room (tb_file ?b1) (N - ?n)" "tb_status ?b1 = Status_OK" "to_compression (tb_options ?b1) = kNoCompression" "length ?m + 5 \<le> N - ?n"
    using rm o1 opt total lm by (simp_all add: plain_options_def)
  obtain g1 mb' where W1: "WriteBlock ext Append snappy_compress mb ?b1 = Some (\<lparr>bh_offset = tb_offset ?b1, bh_size = of_nat (length ?m)\<rparr>, BlockBuilder_Reset mb',
      ?b1\<lparr>tb_file := g1, tb_status := Status_OK, tb_offset := tb_offset ?b1 + of_nat (length ?m + 5)\<rparr>)"
    and g1: "contents g1 = contents (tb_file ?b1) @ stored_block ext ?m kNoCompression" "room g1 (N - ?n - (length ?m + 5))"
    using WriteBlock_ok [OF h1(1) mb(2) h1(2-4), of snappy_compress] by blast
  let ?b2 = "b2\<lparr>tb_closed := True, tb_file := g1, tb_status := Status_OK, tb_offset := tb_offset ?b1 + of_nat (length ?m + 5)\<rparr>"
  have h2: "room (tb_file ?b2) (N - ?n - (length ?m + 5))" "tb_status ?b2 = Status_OK" "to_compression (tb_options ?b2) = kNoCompression"
      "length ?i + 5 \<le> N - ?n - (length ?m + 5)"
    using g1(2) o2 opt total lm by (simp_all add: plain_options_def)
  obtain g2 ib' where W2: "WriteBlock ext Append snappy_compress (tb_index_block b2) ?b2 = Some (\<lparr>bh_offset = tb_offset ?b2, bh_size = of_nat (length ?i)\<rparr>,
      BlockBuilder_Reset ib', ?b2\<lparr>tb_file := g2, tb_status := Status_OK, tb_offset := tb_offset ?b2 + of_nat (length ?i + 5)\<rparr>)"
    and g2: "contents g2 = contents (tb_file ?b2) @ stored_block ext ?i kNoCompression" "room g2 (N - ?n - (length ?m + 5) - (length ?i + 5))"
    using WriteBlock_ok [OF h2(1) ix h2(2-4), of snappy_compress] by blast
  let ?f = "\<lparr>ft_metaindex = \<lparr>bh_offset = of_nat ?n, bh_size = of_nat (length ?m)\<rparr>,
      ft_index = \<lparr>bh_offset = of_nat (?n + length (stored_block ext ?m kNoCompression)), bh_size = of_nat (length ?i)\<rparr>\<rparr>"
  have "handle_set (ft_metaindex ?f)" unfolding Footer.select_convs by (rule handle_set_small) (use total size lm in simp_all)
  moreover have "handle_set (ft_index ?f)" unfolding Footer.select_convs
    by (rule handle_set_small) (use total size lm in \<open>simp_all add: length_stored_block\<close>)
  ultimately obtain fb where fb: "Footer_EncodeTo ?f [] = Some fb" "length fb = kFooterLength" using Footer_roundtrip by blast
  then have "length fb \<le> N - ?n - (length ?m + 5) - (length ?i + 5)" using total lm by (simp add: kFooterLength_def kMaxEncodedLength_def)
  from Append_contents [OF g2(2) this] obtain g3 where
    g3: "Append g2 fb = (Status_OK, g3)" "contents g3 = contents g2 @ fb" "room g3 (N - ?n - (length ?m + 5) - (length ?i + 5) - length fb)" by blast
  let ?b3 = "?b2\<lparr>tb_index_block := BlockBuilder_Reset ib', tb_file := g3, tb_offset := tb_offset ?b2 + of_nat (length ?i + 5) + of_nat (length fb)\<rparr>"
  have M: "write_metaindex_part ext Append snappy_compress BlockHandle_new ?b1 = Some (ft_metaindex ?f, ?b1\<lparr>tb_file := g1, tb_status := Status_OK, tb_offset := tb_offset ?b1 + of_nat (length ?m + 5)\<rparr>)"
    using W1 mb(1) o1 by (simp add: write_metaindex_part_def)
  have X: "write_index_part ext Append snappy_compress (?b1\<lparr>tb_file := g1, tb_status := Status_OK, tb_offset := tb_offset ?b1 + of_nat (length ?m + 5)\<rparr>) =
      Some (ft_index ?f, ?b2\<lparr>tb_file := g2, tb_status := Status_OK, tb_offset := tb_offset ?b2 + of_nat (length ?i + 5), tb_index_block := BlockBuilder_Reset ib'\<rparr>)"
    using W2 add_pending_file [OF P] o1 by (simp add: write_index_part_def length_stored_block algebra_simps)
  have Y: "write_footer_part Append (ft_metaindex ?f) (ft_index ?f) (?b2\<lparr>tb_file := g2, tb_status := Status_OK, tb_offset := tb_offset ?b2 + of_nat (length ?i + 5), tb_index_block := BlockBuilder_Reset ib'\<rparr>) = Some ?b3"
    using fb(1) g3(1) by (simp add: write_footer_part_def)
  have c3: "contents g3 = data_image ext cs @ stored_block ext ?m kNoCompression @ stored_block ext ?i kNoCompression @ fb"
    using g1 g2 g3 o1 by simp
  then have l3: "length (contents g3) = ?n + (length ?m + 5) + (length ?i + 5) + length fb" by (simp add: length_stored_block)
  have fb48: "length fb = 48" using fb(2) by (simp add: kFooterLength_def kMaxEncodedLength_def)
  have "is_table ext (chunks_entries cs) (contents g3) cs ixs"
    using core lay fb(1) c3 l3 total size fb48 lm by (simp add: is_table_def tb_core_def Let_def)
  moreover have "tb_offset ?b3 = of_nat (length (contents g3))" using o1 by (simp add: l3)
  moreover have "room g3 (N - length (contents g3))" using g3(3) by (simp add: l3)
  ultimately show ?thesis using M X Y by (intro exI [of _ ?b3] exI conjI) (assumption | simp)+
qed

lemma Finish_ok:
  assumes inv: "tb_inv contents room ext opt N b cs0 cur" and opt: "plain_options Compare opt"
    and so: "sorted_entries Compare valid (chunks_entries cs0 @ cur)" and size: "table_size (chunks_entries cs0 @ cur) \<le> N" "N < 2 ^ 32"
  shows "\<exists>b' cs ixs. TableBuilder_Finish ext Append FileFlush snappy_compress b = Some (Status_OK, b')
    \<and> is_table ext (chunks_entries cs0 @ cur) (contents (tb_file b')) cs ixs \<and> tb_offset b' = of_nat (length (contents (tb_file b'))) \<and> room (tb_file b') (N - length (contents (tb_file b')))"
proof -
  let ?es = "chunks_entries cs0 @ cur"
  obtain b1 cs where F: "TableBuilder_Flush ext Append FileFlush snappy_compress b = Some b1" and "tb_inv contents room ext opt N b1 cs []" and cs: "chunks_entries cs = ?es"
    using Flush_all [OF inv opt size] by blast
  then have core: "tb_core contents room ext opt N b1 cs []" by (simp add: tb_inv_def)
  have s1: "sorted_entries Compare valid (chunks_entries cs @ [])" "table_size (chunks_entries cs @ []) \<le> N" using so size cs by simp_all
  obtain b2 where P: "add_pending_index_entry b1 = Some b2" and core2: "tb_core contents room ext opt N b2 cs []" and np: "\<not> tb_pending_index_entry b2"
    using add_pending_ok [OF core opt s1 size(2)] by blast
  obtain ixs where ix: "builder_ok 1 (tb_index_block b2) (index_entries ext cs (length cs)) ixs" using core2 np by (auto simp: tb_core_def)
  have all: "\<forall>c \<in> set cs. fst c \<noteq> [] \<and> length (chunk_bytes c) \<le> (\<Sum>e\<leftarrow>fst c. entry_size e + 19) + 8" using core by (simp add: tb_core_def)
  note sz = finish_sizes [OF all ix s1(2) [unfolded append_Nil2] size(2)]
  have "write_filter_part ext Append (b1\<lparr>tb_closed := True\<rparr>) = (BlockHandle_new, b1\<lparr>tb_closed := True\<rparr>)" using core by (simp add: write_filter_part_def tb_core_def)
  then show ?thesis using finish_parts [OF core P core2 ix sz(1) opt size(2) sz(2), of snappy_compress] F cs
    by (auto simp: TableBuilder_Finish_def) blast
qed

lemma TableBuilder_new_ok:
  assumes "plain_options Compare opt" "room f N" "contents f = []"
  shows "\<exists>b. TableBuilder_new opt f = Some b \<and> tb_inv contents room ext opt N b [] []"
  using assms by (auto simp: plain_options_def TableBuilder_new_def BlockBuilder_new_def start_filter_block_def tb_inv_def tb_core_def builder_ok_def
      data_image_def chunks_entries_def index_entries_def intro!: exI [of _ "[0 :: nat]"])

lemma table_add_all_ok:
  assumes "tb_inv contents room ext opt N b cs cur" "plain_options Compare opt" "sorted_entries Compare valid (chunks_entries cs @ cur @ es)"
    "table_size (chunks_entries cs @ cur @ es) \<le> N" "N < 2 ^ 32"
  shows "\<exists>b' cs' cur'. table_add_all ext Append FileFlush snappy_compress es b = Some b' \<and> tb_inv contents room ext opt N b' cs' cur'
    \<and> chunks_entries cs' @ cur' = chunks_entries cs @ cur @ es"
  using assms
proof (induction es arbitrary: b cs cur)
  case (Cons e es)
  obtain k v where e: "e = (k, v)" by fastforce
  have s: "sorted_entries Compare valid (chunks_entries cs @ cur @ [(k, v)])" "table_size (chunks_entries cs @ cur @ [(k, v)]) \<le> N"
    using Cons.prems(3,4) by (auto simp: e sorted_entries_def sorted_wrt_append table_size_def)
  obtain b1 cs1 cur1 where b1: "TableBuilder_Add ext Append FileFlush snappy_compress k v b = Some b1" "tb_inv contents room ext opt N b1 cs1 cur1"
      "chunks_entries cs1 @ cur1 = chunks_entries cs @ cur @ [(k, v)]"
    using Add_ok [OF Cons.prems(1,2) s Cons.prems(5)] by blast
  have eq: "chunks_entries cs1 @ cur1 @ es = chunks_entries cs @ cur @ e # es" using b1(3) e by (metis append.assoc append_Cons append_Nil)
  show ?case using Cons.IH [OF b1(2) Cons.prems(2)] Cons.prems(3-5) b1(1) unfolding eq by (auto simp: e)
qed auto

lemma table_built:
  assumes "plain_options Compare opt" "room f N" "contents f = []" "sorted_entries Compare valid es" "table_size es \<le> N" "N < 2 ^ 32"
  shows "\<exists>b b1 b' cs ixs. TableBuilder_new opt f = Some b \<and> table_add_all ext Append FileFlush snappy_compress es b = Some b1
    \<and> TableBuilder_Finish ext Append FileFlush snappy_compress b1 = Some (Status_OK, b') \<and> is_table ext es (contents (tb_file b')) cs ixs
    \<and> TableBuilder_FileSize b' = of_nat (length (contents (tb_file b'))) \<and> room (tb_file b') (N - length (contents (tb_file b')))"
proof -
  obtain b where b: "TableBuilder_new opt f = Some b" "tb_inv contents room ext opt N b [] []" using TableBuilder_new_ok [OF assms(1-3)] by blast
  have s: "sorted_entries Compare valid (chunks_entries [] @ [] @ es)" "table_size (chunks_entries [] @ [] @ es) \<le> N"
    using assms(4,5) by (simp_all add: chunks_entries_def)
  obtain b1 cs cur where b1: "table_add_all ext Append FileFlush snappy_compress es b = Some b1" "tb_inv contents room ext opt N b1 cs cur" "chunks_entries cs @ cur = es"
    using table_add_all_ok [OF b(2) assms(1) s assms(6), of snappy_compress] by (auto simp: chunks_entries_def)
  show ?thesis using Finish_ok [OF b1(2) assms(1), unfolded b1(3), OF assms(4-6), of snappy_compress] b(1) b1(1)
    by (auto simp: TableBuilder_FileSize_def)
qed

end

subsection \<open>The reader finds the entries\<close>

lemma length_takeWhile_less: "length (takeWhile P xs) < length xs \<longleftrightarrow> (\<exists>x \<in> set xs. \<not> P x)"
  by (induction xs) simp_all

lemma find_append: "find P (xs @ ys) = (case find P xs of None \<Rightarrow> find P ys | Some x \<Rightarrow> Some x)"
  by (induction xs) simp_all

lemma seek_pos_index: "seek_pos Compare k (index_entries ext cs (length cs)) = length (takeWhile (\<lambda>c. Compare (fst (last (fst c))) k < 0) cs)"
proof -
  have "seek_pos Compare k es = length (takeWhile (\<lambda>x. Compare x k < 0) (map fst es))" for es :: "(bytes \<times> bytes) list"
    by (simp add: seek_pos_def takeWhile_map o_def)
  from this [of "index_entries ext cs (length cs)"] show ?thesis unfolding index_entries_keys [OF order_refl] by (simp add: takeWhile_map o_def)
qed

context key_comparator
begin

lemma find_chunks:
  assumes "sorted_entries Compare valid (chunks_entries cs)" "\<forall>c \<in> set cs. fst c \<noteq> []" "valid k"
  shows "find (\<lambda>e. \<not> Compare (fst e) k < 0) (chunks_entries cs) =
    (let p = length (takeWhile (\<lambda>c. Compare (fst (last (fst c))) k < 0) cs)
     in if p < length cs then find (\<lambda>e. \<not> Compare (fst e) k < 0) (fst (cs ! p)) else None)
    \<and> (let p = length (takeWhile (\<lambda>c. Compare (fst (last (fst c))) k < 0) cs)
       in p < length cs \<longrightarrow> seek_pos Compare k (fst (cs ! p)) < length (fst (cs ! p)))"
  using assms
proof (induction cs)
  case (Cons c cs)
  have so: "sorted_entries Compare valid (fst c)" "sorted_entries Compare valid (chunks_entries cs)"
    using Cons.prems(1) by (auto simp: chunks_entries_def sorted_entries_def sorted_wrt_append)
  have ne: "fst c \<noteq> []" using Cons.prems by simp
  then have l: "fst c = butlast (fst c) @ [last (fst c)]" by simp
  show ?case
  proof (cases "Compare (fst (last (fst c))) k < 0")
    case True
    have "Compare (fst e) k < 0" if "e \<in> set (fst c)" for e
    proof (cases "e \<in> set (butlast (fst c))")
      case True': True
      have "Compare (fst e) (fst (last (fst c))) < 0" "valid (fst e)" "valid (fst (last (fst c)))"
        using so(1) True' that by (subst (asm) l, auto simp: sorted_entries_def sorted_wrt_append)+
      then show ?thesis using Compare_less_trans True Cons.prems(3) by (meson less_imp_le)
    next
      case False
      then show ?thesis using that True by (subst (asm) l) auto
    qed
    then have "find (\<lambda>e. \<not> Compare (fst e) k < 0) (fst c) = None" by (auto simp: find_None_iff)
    then show ?thesis using Cons.IH [OF so(2)] Cons.prems True by (simp add: chunks_entries_def find_append Let_def)
  next
    case False
    then have "seek_pos Compare k (fst c) < length (fst c)" unfolding seek_pos_def length_takeWhile_less using last_in_set [OF ne] by blast
    moreover from this have "find (\<lambda>e. \<not> Compare (fst e) k < 0) (fst c) = Some (fst c ! seek_pos Compare k (fst c))" by (simp add: find_seek_pos)
    ultimately show ?thesis using False by (simp add: chunks_entries_def find_append Let_def)
  qed
qed (simp add: chunks_entries_def)

end

lemma chunk_sorted: "sorted_entries Compare valid (chunks_entries cs) \<Longrightarrow> c \<in> set cs \<Longrightarrow> sorted_entries Compare valid (fst c)"
  by (drule split_list) (auto simp: chunks_entries_def sorted_entries_def sorted_wrt_append)

lemma footer_offset:
  assumes "48 \<le> n" "n < 2 ^ 32"
  shows "unat (of_nat n - of_nat kFooterLength :: u64) = n - 48 \<and> \<not> of_nat n < (of_nat kFooterLength :: u64)"
proof -
  have "unat (of_nat n :: u64) = n" using assms unat_of_nat_u64 [of n] by simp
  then show ?thesis using assms by (simp add: unat_sub word_le_nat_alt word_less_nat_alt kFooterLength_def kMaxEncodedLength_def)
qed

locale table_reader = random_access_file RandomRead contents readable + key_comparator Compare valid
  for RandomRead :: "'f \<Rightarrow> u64 \<Rightarrow> u64 \<Rightarrow> Status \<times> bytes" and contents :: "'f \<Rightarrow> bytes" and readable :: "'f \<Rightarrow> bool"
    and Compare :: "bytes \<Rightarrow> bytes \<Rightarrow> int" and valid :: "bytes \<Rightarrow> bool"
begin

lemma read_block_plain:
  assumes "readable f" "contents f = pre @ stored_block (te_ext te) c kNoCompression @ post" "length (contents f) < 2 ^ 32" "te_Read te = RandomRead"
  shows "\<exists>bc. read_block te f verify \<lparr>bh_offset = of_nat (length pre), bh_size = of_nat (length c)\<rparr> = Some (Status_OK, bc) \<and> bc_data bc = c"
proof -
  have "length pre < 2 ^ 64" "length c + 5 < 2 ^ 64" using assms(2,3) by (auto simp: length_stored_block)
  then show ?thesis using ReadBlock_stored [OF assms(1,2), of "\<lparr>bh_offset = of_nat (length pre), bh_size = of_nat (length c)\<rparr>"] assms(4)
    by (simp add: read_block_def unat_of_nat_u64)
qed

lemma Table_Open_ok:
  assumes f: "readable f" and t: "is_table (te_ext te) es (contents f) cs ixs" and te: "te_Read te = RandomRead" and opt: "plain_options Compare opt"
  shows "\<exists>ta. Table_Open te opt f (of_nat (length (contents f))) = Some (Status_OK, Some ta) \<and> ta_options ta = opt \<and> ta_file ta = f \<and> ta_filter ta = None
    \<and> Block_new (block_bytes (index_entries (te_ext te) cs (length cs)) ixs) = Some (ta_index_block ta)
    \<and> ta_metaindex_handle ta = \<lparr>bh_offset = of_nat (length (data_image (te_ext te) cs)), bh_size = 8\<rparr>"
proof -
  let ?d = "data_image (te_ext te) cs" and ?m = "stored_block (te_ext te) (block_bytes [] [0]) kNoCompression" and ?i = "block_bytes (index_entries (te_ext te) cs (length cs)) ixs"
  let ?f = "\<lparr>ft_metaindex = \<lparr>bh_offset = of_nat (length ?d), bh_size = of_nat (length (block_bytes [] [0]))\<rparr>,
     ft_index = \<lparr>bh_offset = of_nat (length ?d + length ?m), bh_size = of_nat (length ?i)\<rparr>\<rparr>"
  obtain fb where fb: "Footer_EncodeTo ?f [] = Some fb" and c: "contents f = ?d @ ?m @ stored_block (te_ext te) ?i kNoCompression @ fb"
    and lt: "length (contents f) < 2 ^ 32" using t by (auto simp: is_table_def Let_def)
  have "handle_set (ft_metaindex ?f)" "handle_set (ft_index ?f)" unfolding Footer.select_convs
    using lt c by (auto intro!: handle_set_small simp: length_stored_block simp del: of_nat_add)
  from Footer_roundtrip [OF this, of Footer_new "[]"] fb have l: "length fb = 48" and D: "Footer_DecodeFrom Footer_new fb = Some (Status_OK, ?f, [])"
    by (auto simp: kFooterLength_def kMaxEncodedLength_def)
  have n: "length (contents f) = length (?d @ ?m @ stored_block (te_ext te) ?i kNoCompression) + 48" using c l by simp
  have sz: "unat (of_nat (length (contents f)) - of_nat kFooterLength :: u64) = length (contents f) - 48" "\<not> of_nat (length (contents f)) < (of_nat kFooterLength :: u64)"
    using footer_offset [OF _ lt] n by simp_all
  have "RandomRead f (of_nat (length (contents f)) - of_nat kFooterLength) (of_nat kFooterLength) = (Status_OK, take 48 (drop (length (contents f) - 48) (contents f)))"
    using RandomRead_contents [OF f] sz by (simp add: kFooterLength_def kMaxEncodedLength_def)
  moreover have "take 48 (drop (length (contents f) - 48) (contents f)) = fb" using n l unfolding c by simp
  ultimately have R: "RandomRead f (of_nat (length (contents f)) - of_nat kFooterLength) (of_nat kFooterLength) = (Status_OK, fb)" by simp
  obtain bc where bc: "read_block te f (to_paranoid_checks opt) (ft_index ?f) = Some (Status_OK, bc)" "bc_data bc = ?i"
    using read_block_plain [of f "?d @ ?m" te ?i fb] f c lt te by auto
  have "layout_ok (index_entries (te_ext te) cs (length cs)) ixs" using t by (simp add: is_table_def)
  then obtain bl where bl: "Block_new ?i = Some bl" using Block_NewIterator_ok by blast
  show ?thesis using sz(2) R D bc bl te opt by (simp add: Table_Open_def ReadMeta_def plain_options_def block_bytes_def size_simps)
qed

lemma BlockReader_ok:
  assumes f: "readable f" and t: "is_table (te_ext te) es (contents f) cs ixs" and te: "te_Read te = RandomRead" and p: "p < length cs" and ta: "ta_file ta = f"
  shows "BlockReader te ta verify (handle_bytes (chunk_handle (te_ext te) cs p)) = do { block \<leftarrow> Block_new (chunk_bytes (cs ! p)); Block_NewIterator block }"
proof -
  have "data_image (te_ext te) cs = data_image (te_ext te) (take p cs @ cs ! p # drop (Suc p) cs)" by (rule arg_cong) (rule id_take_nth_drop [OF p])
  also have "\<dots> = data_image (te_ext te) (take p cs) @ stored_block (te_ext te) (chunk_bytes (cs ! p)) kNoCompression @ data_image (te_ext te) (drop (Suc p) cs)"
    by (simp add: data_image_def)
  finally have "data_image (te_ext te) cs = data_image (te_ext te) (take p cs) @ stored_block (te_ext te) (chunk_bytes (cs ! p)) kNoCompression @ data_image (te_ext te) (drop (Suc p) cs)" .
  then obtain post where c: "contents f = data_image (te_ext te) (take p cs) @ stored_block (te_ext te) (chunk_bytes (cs ! p)) kNoCompression @ post"
    and lt: "length (contents f) < 2 ^ 32" using t by (auto simp: is_table_def Let_def)
  show ?thesis using read_block_plain [OF f c lt te, of verify] ta by (auto simp: BlockReader_def chunk_handle_def)
qed

lemma InternalGet_ok:
  assumes f: "readable f" and t: "is_table (te_ext te) es (contents f) cs ixs" and te: "te_Read te = RandomRead" and k: "valid k"
    and so: "sorted_entries Compare valid es" and ta: "to_compare (ta_options ta) = Compare" "ta_file ta = f" "ta_filter ta = None"
      "Block_new (block_bytes (index_entries (te_ext te) cs (length cs)) ixs) = Some (ta_index_block ta)"
  shows "InternalGet te ta verify k h arg = Some (Status_OK,
    case find (\<lambda>e. \<not> Compare (fst e) k < 0) es of None \<Rightarrow> arg | Some (k', v) \<Rightarrow> h k' v arg)"
proof -
  let ?ie = "index_entries (te_ext te) cs (length cs)"
  define p where "p = seek_pos Compare k ?ie"
  have es: "chunks_entries cs = es" and ne: "\<forall>c \<in> set cs. fst c \<noteq> []" and lay: "layout_ok ?ie ixs" "\<forall>c \<in> set cs. layout_ok (fst c) (snd c)"
    using t by (auto simp: is_table_def)
  have ps: "p = length (takeWhile (\<lambda>c. Compare (fst (last (fst c))) k < 0) cs)" "length ?ie = length cs" unfolding p_def seek_pos_index by (rule refl) (simp add: index_entries_def)
  have soi: "sorted_entries Compare valid ?ie" using sorted_entries_index so ne es by blast
  obtain it it' where ii: "Block_NewIterator (ta_index_block ta) = Some (Inr it)" "BlockIter_Seek Compare k it = Some it'" "bi_status it' = Status_OK"
      "BlockIter_Valid it' \<longleftrightarrow> p < length cs" "p < length cs \<longrightarrow> BlockIter_value it' = Some (snd (?ie ! p))"
    using block_lookup [OF lay(1) soi k] ta(4) unfolding p_def [symmetric] ps(2) by auto
  note fc = find_chunks [OF so [folded es] ne k, unfolded ps(1) [symmetric] es Let_def]
  show ?thesis
  proof (cases "p < length cs")
    case True
    let ?c = "cs ! p"
    have c: "layout_ok (fst ?c) (snd ?c)" "sorted_entries Compare valid (fst ?c)"
      using lay(2) nth_mem [OF True] chunk_sorted [of Compare valid cs ?c] so es by auto
    have B: "BlockReader te ta verify (snd (?ie ! p)) = do { block \<leftarrow> Block_new (chunk_bytes ?c); Block_NewIterator block }"
      using BlockReader_ok [OF f t te True ta(2)] True by (simp add: index_entries_def)
    have "seek_pos Compare k (fst ?c) < length (fst ?c)" using fc True by simp
    then show ?thesis using block_lookup [OF c k] ii True fc B ta
      by (auto simp: InternalGet_def Let_def chunk_bytes_def find_seek_pos split_beta)
  next
    case False
    then show ?thesis using ii fc ta by (simp add: InternalGet_def)
  qed
qed

end

subsection \<open>Tables in the in-memory environment\<close>

interpretation mem_table_writer: table_writer "FileState_Append fresh_block" WritableFile_Flush fs_contents fs_room
    "Extend (\<lambda>_ _. 0) address" "InternalKey_Compare Bytewise_Compare" valid_internal
  for address
  by unfold_locales

interpretation mem_table_reader: table_reader RandomAccessFileImpl_Read fs_contents fs_inv "InternalKey_Compare Bytewise_Compare" valid_internal
  by unfold_locales

lemma table_written_and_opened:
  fixes address :: u64 and in_scratch :: bool and snappy_uncompress :: "bytes \<Rightarrow> bytes option"
  assumes "plain_options (InternalKey_Compare Bytewise_Compare) opt"
    and "sorted_entries (InternalKey_Compare Bytewise_Compare) valid_internal es" "table_size es < 2 ^ 32"
  defines "ext \<equiv> Extend (\<lambda>_ _. 0) address"
  defines "te \<equiv> \<lparr>te_ext = ext, te_snappy = snappy_uncompress, te_Read = RandomAccessFileImpl_Read, te_in_scratch = in_scratch\<rparr>"
  shows "\<exists>b b1 b' ta cs ixs. TableBuilder_new opt FileState_new = Some b
    \<and> table_add_all ext (FileState_Append fresh_block) WritableFile_Flush snappy_compress es b = Some b1
    \<and> TableBuilder_Finish ext (FileState_Append fresh_block) WritableFile_Flush snappy_compress b1 = Some (Status_OK, b')
    \<and> Table_Open te opt (tb_file b') (TableBuilder_FileSize b') = Some (Status_OK, Some ta)
    \<and> fs_inv (tb_file b') \<and> is_table ext es (fs_contents (tb_file b')) cs ixs \<and> ta_options ta = opt \<and> ta_file ta = tb_file b' \<and> ta_filter ta = None
    \<and> Block_new (block_bytes (index_entries ext cs (length cs)) ixs) = Some (ta_index_block ta)"
proof -
  have "fs_room FileState_new (table_size es)" "fs_contents FileState_new = []"
    using assms(3) by (simp_all add: fs_room_def FileState_new_def fs_inv_def fs_contents_def kBlockSize_mem_def)
  from mem_table_writer.table_built [OF assms(1) this assms(2) order_refl assms(3), of address snappy_compress] obtain b b1 b' cs ixs where
    w: "TableBuilder_new opt FileState_new = Some b" "table_add_all ext (FileState_Append fresh_block) WritableFile_Flush snappy_compress es b = Some b1"
      "TableBuilder_Finish ext (FileState_Append fresh_block) WritableFile_Flush snappy_compress b1 = Some (Status_OK, b')"
    and t: "is_table (te_ext te) es (fs_contents (tb_file b')) cs ixs"
    and sz: "TableBuilder_FileSize b' = of_nat (length (fs_contents (tb_file b')))" and "fs_room (tb_file b') (table_size es - length (fs_contents (tb_file b')))"
    by (auto simp: ext_def te_def)
  then have r: "fs_inv (tb_file b')" by (simp add: fs_room_def)
  have te: "te_Read te = RandomAccessFileImpl_Read" "te_ext te = ext" by (simp_all add: te_def)
  show ?thesis using mem_table_reader.Table_Open_ok [OF r t te(1) assms(1)] w t r unfolding sz [symmetric] te(2) by blast
qed

text \<open>
  (C7) A table gives back what was put into it. Entries with increasing internal keys are added to a new builder on an
  empty file and the builder is finished, without a filter and without compression, for every block size and
  every restart interval. Neither fails. Opening the file, with the size the builder reports, succeeds, and a lookup
  hands the first entry at or past the searched key to the handler, or calls it not at all when there is none.
\<close>

theorem Table_roundtrip:
  fixes address :: u64 and in_scratch :: bool and snappy_uncompress :: "bytes \<Rightarrow> bytes option"
  assumes "plain_options (InternalKey_Compare Bytewise_Compare) opt"
    and "sorted_entries (InternalKey_Compare Bytewise_Compare) valid_internal es" "table_size es < 2 ^ 32" "valid_internal k"
  defines "ext \<equiv> Extend (\<lambda>_ _. 0) address"
  defines "te \<equiv> \<lparr>te_ext = ext, te_snappy = snappy_uncompress, te_Read = RandomAccessFileImpl_Read, te_in_scratch = in_scratch\<rparr>"
  shows "\<exists>b b1 b' ta. TableBuilder_new opt FileState_new = Some b
    \<and> table_add_all ext (FileState_Append fresh_block) WritableFile_Flush snappy_compress es b = Some b1
    \<and> TableBuilder_Finish ext (FileState_Append fresh_block) WritableFile_Flush snappy_compress b1 = Some (Status_OK, b')
    \<and> Table_Open te opt (tb_file b') (TableBuilder_FileSize b') = Some (Status_OK, Some ta)
    \<and> InternalGet te ta verify_checksums k handle_result arg = Some (Status_OK,
        case find (\<lambda>e. \<not> InternalKey_Compare Bytewise_Compare (fst e) k < 0) es of None \<Rightarrow> arg | Some (k', v) \<Rightarrow> handle_result k' v arg)"
proof -
  obtain b b1 b' ta cs ixs where w: "TableBuilder_new opt FileState_new = Some b" "table_add_all ext (FileState_Append fresh_block) WritableFile_Flush snappy_compress es b = Some b1"
      "TableBuilder_Finish ext (FileState_Append fresh_block) WritableFile_Flush snappy_compress b1 = Some (Status_OK, b')"
      "Table_Open te opt (tb_file b') (TableBuilder_FileSize b') = Some (Status_OK, Some ta)"
    and r: "fs_inv (tb_file b')" and t: "is_table (te_ext te) es (fs_contents (tb_file b')) cs ixs"
    and ta: "ta_options ta = opt" "ta_file ta = tb_file b'" "ta_filter ta = None" "Block_new (block_bytes (index_entries (te_ext te) cs (length cs)) ixs) = Some (ta_index_block ta)"
    using table_written_and_opened [OF assms(1-3), of address snappy_compress snappy_uncompress in_scratch] by (auto simp: ext_def te_def)
  have "te_Read te = RandomAccessFileImpl_Read" by (simp add: te_def)
  from mem_table_reader.InternalGet_ok [OF r t this assms(4,2) _ ta(2-4), of verify_checksums handle_result arg] w assms(1) ta(1)
  show ?thesis by (auto simp: plain_options_def)
qed

theorem Table_roundtrip_witness:
  "\<exists>b b1 b' ta. TableBuilder_new \<lparr>to_comparator = 0, to_compare = InternalKey_Compare Bytewise_Compare, to_restart_interval = 16, to_block_size = 20,
         to_compression = kNoCompression, to_paranoid_checks = True, to_filter = None\<rparr> FileState_new = Some b
    \<and> table_add_all (Extend (\<lambda>_ _. 0) 0) (FileState_Append fresh_block) WritableFile_Flush (\<lambda>_. None)
         [(InternalKey_new [97] 5 kTypeValue, [1]), (InternalKey_new [97] 3 kTypeValue, [2]), (InternalKey_new [98] 4 kTypeDeletion, [])] b = Some b1
    \<and> TableBuilder_Finish (Extend (\<lambda>_ _. 0) 0) (FileState_Append fresh_block) WritableFile_Flush (\<lambda>_. None) b1 = Some (Status_OK, b')
    \<and> InternalGet \<lparr>te_ext = Extend (\<lambda>_ _. 0) 0, te_snappy = (\<lambda>_. None), te_Read = RandomAccessFileImpl_Read, te_in_scratch = True\<rparr>
         ta True (InternalKey_new [97] 4 kTypeValue) (\<lambda>k v r. Some (k, v)) None = Some (Status_OK, Some (InternalKey_new [97] 3 kTypeValue, [2]))"
proof -
  let ?es = "[(InternalKey_new [97] 5 kTypeValue, [1]), (InternalKey_new [97] 3 kTypeValue, [2]), (InternalKey_new [98] 4 kTypeDeletion, [])] :: (bytes \<times> bytes) list"
  let ?opt = "\<lparr>to_comparator = 0, to_compare = InternalKey_Compare Bytewise_Compare, to_restart_interval = 16, to_block_size = 20,
         to_compression = kNoCompression, to_paranoid_checks = True, to_filter = None\<rparr>"
  have "plain_options (InternalKey_Compare Bytewise_Compare) ?opt" by (simp add: plain_options_def)
  moreover have "sorted_entries (InternalKey_Compare Bytewise_Compare) valid_internal ?es"
    by (simp add: sorted_entries_def bytewise_user.internal_less_iff Bytewise_Compare_lex Pack_less_iff kMaxSequenceNumber_def)
  moreover have "table_size ?es < 2 ^ 32" by (simp add: table_size_def entry_size_def InternalKey_new_def AppendInternalKey_def PutFixed64_def size_simps)
  moreover have "valid_internal (InternalKey_new [97] 4 kTypeValue)" by simp
  moreover have "find (\<lambda>e. \<not> InternalKey_Compare Bytewise_Compare (fst e) (InternalKey_new [97] 4 kTypeValue) < 0) ?es = Some (InternalKey_new [97] 3 kTypeValue, [2])"
    by (simp add: bytewise_user.internal_less_iff Bytewise_Compare_lex Pack_less_iff kMaxSequenceNumber_def)
  ultimately show ?thesis
    using Table_roundtrip [where opt = ?opt and es = ?es and k = "InternalKey_new [97] 4 kTypeValue" and address = 0 and in_scratch = True
      and snappy_uncompress = "\<lambda>_. None" and snappy_compress = "\<lambda>_. None" and verify_checksums = True and handle_result = "\<lambda>k v r. Some (k, v)" and arg = None] by auto
qed

end
