(* ===== verification/TwoLevel.thy ===== *)
theory TwoLevel
  imports Table
begin

section \<open>Two-level iterators (table/two_level_iterator.cc) and the iterator of a table\<close>

text \<open>
  An iterator over the concatenation of the blocks that an index iterator names: of a table, with the block reader
  as the function from handles to iterators. The function is a parameter; the index iterator is never null, the data
  iterator is absent at both ends. The loops over empty blocks return because the index ends, which is shown.
\<close>

record ('x, 'd) TwoLevelIterator =
  tl_status :: Status
  tl_index :: "'x IteratorWrapper"
  tl_data :: "'d IteratorWrapper"
  tl_handle :: bytes

definition NewTwoLevelIterator :: "'x Iterator \<Rightarrow> 'x \<Rightarrow> ('x, 'd) TwoLevelIterator option" where
  "NewTwoLevelIterator IX index_iter = do {
     w \<leftarrow> Wrapper_Set IX (Some index_iter) Wrapper_new;
     Some \<lparr>tl_status = Status_OK, tl_index = w, tl_data = Wrapper_new, tl_handle = []\<rparr> }"

definition SaveError :: "Status \<Rightarrow> ('x, 'd) TwoLevelIterator \<Rightarrow> ('x, 'd) TwoLevelIterator" where
  "SaveError s this = (if Status_ok (tl_status this) \<and> \<not> Status_ok s then this\<lparr>tl_status := s\<rparr> else this)"

definition SetDataIterator :: "'d Iterator \<Rightarrow> 'd option \<Rightarrow> ('x, 'd) TwoLevelIterator \<Rightarrow> ('x, 'd) TwoLevelIterator option" where
  "SetDataIterator ID data_iter this =
     (let this = (case w_iter (tl_data this) of None \<Rightarrow> this | Some it \<Rightarrow> SaveError (v_status ID it) this)
      in do { w \<leftarrow> Wrapper_Set ID data_iter (tl_data this); Some (this\<lparr>tl_data := w\<rparr>) })"

definition InitDataBlock ::
    "'x Iterator \<Rightarrow> 'd Iterator \<Rightarrow> (bytes \<Rightarrow> 'd option) \<Rightarrow> ('x, 'd) TwoLevelIterator \<Rightarrow> ('x, 'd) TwoLevelIterator option" where
  "InitDataBlock IX ID block_function this =
     (if \<not> w_valid (tl_index this) then SetDataIterator ID None this
      else do {
        handle \<leftarrow> Wrapper_value IX (tl_index this);
        if w_iter (tl_data this) \<noteq> None \<and> handle = tl_handle this then Some this
        else do { iter \<leftarrow> block_function handle; SetDataIterator ID (Some iter) (this\<lparr>tl_handle := handle\<rparr>) } })"

text \<open>A call on the data iterator, when there is one.\<close>

definition data_move :: "('d IteratorWrapper \<Rightarrow> 'd IteratorWrapper option) \<Rightarrow> ('x, 'd) TwoLevelIterator \<Rightarrow> ('x, 'd) TwoLevelIterator option" where
  "data_move f this =
     (if w_iter (tl_data this) \<noteq> None then do { w \<leftarrow> f (tl_data this); Some (this\<lparr>tl_data := w\<rparr>) } else Some this)"

partial_function (option) SkipEmptyDataBlocksForward ::
    "'x Iterator \<Rightarrow> 'd Iterator \<Rightarrow> (bytes \<Rightarrow> 'd option) \<Rightarrow> ('x, 'd) TwoLevelIterator \<Rightarrow> ('x, 'd) TwoLevelIterator option" where
  "SkipEmptyDataBlocksForward IX ID block_function this =
     (if w_iter (tl_data this) = None \<or> \<not> w_valid (tl_data this) then
        (if \<not> w_valid (tl_index this) then SetDataIterator ID None this
         else do {
           w \<leftarrow> Wrapper_Next IX (tl_index this);
           this \<leftarrow> InitDataBlock IX ID block_function (this\<lparr>tl_index := w\<rparr>);
           this \<leftarrow> data_move (Wrapper_SeekToFirst ID) this;
           SkipEmptyDataBlocksForward IX ID block_function this })
      else Some this)"

partial_function (option) SkipEmptyDataBlocksBackward ::
    "'x Iterator \<Rightarrow> 'd Iterator \<Rightarrow> (bytes \<Rightarrow> 'd option) \<Rightarrow> ('x, 'd) TwoLevelIterator \<Rightarrow> ('x, 'd) TwoLevelIterator option" where
  "SkipEmptyDataBlocksBackward IX ID block_function this =
     (if w_iter (tl_data this) = None \<or> \<not> w_valid (tl_data this) then
        (if \<not> w_valid (tl_index this) then SetDataIterator ID None this
         else do {
           w \<leftarrow> Wrapper_Prev IX (tl_index this);
           this \<leftarrow> InitDataBlock IX ID block_function (this\<lparr>tl_index := w\<rparr>);
           this \<leftarrow> data_move (Wrapper_SeekToLast ID) this;
           SkipEmptyDataBlocksBackward IX ID block_function this })
      else Some this)"

definition TwoLevel_Seek ::
    "'x Iterator \<Rightarrow> 'd Iterator \<Rightarrow> (bytes \<Rightarrow> 'd option) \<Rightarrow> bytes \<Rightarrow> ('x, 'd) TwoLevelIterator \<Rightarrow> ('x, 'd) TwoLevelIterator option" where
  "TwoLevel_Seek IX ID block_function target this = do {
     w \<leftarrow> Wrapper_Seek IX target (tl_index this);
     this \<leftarrow> InitDataBlock IX ID block_function (this\<lparr>tl_index := w\<rparr>);
     this \<leftarrow> data_move (Wrapper_Seek ID target) this;
     SkipEmptyDataBlocksForward IX ID block_function this }"

definition TwoLevel_SeekToFirst ::
    "'x Iterator \<Rightarrow> 'd Iterator \<Rightarrow> (bytes \<Rightarrow> 'd option) \<Rightarrow> ('x, 'd) TwoLevelIterator \<Rightarrow> ('x, 'd) TwoLevelIterator option" where
  "TwoLevel_SeekToFirst IX ID block_function this = do {
     w \<leftarrow> Wrapper_SeekToFirst IX (tl_index this);
     this \<leftarrow> InitDataBlock IX ID block_function (this\<lparr>tl_index := w\<rparr>);
     this \<leftarrow> data_move (Wrapper_SeekToFirst ID) this;
     SkipEmptyDataBlocksForward IX ID block_function this }"

definition TwoLevel_SeekToLast ::
    "'x Iterator \<Rightarrow> 'd Iterator \<Rightarrow> (bytes \<Rightarrow> 'd option) \<Rightarrow> ('x, 'd) TwoLevelIterator \<Rightarrow> ('x, 'd) TwoLevelIterator option" where
  "TwoLevel_SeekToLast IX ID block_function this = do {
     w \<leftarrow> Wrapper_SeekToLast IX (tl_index this);
     this \<leftarrow> InitDataBlock IX ID block_function (this\<lparr>tl_index := w\<rparr>);
     this \<leftarrow> data_move (Wrapper_SeekToLast ID) this;
     SkipEmptyDataBlocksBackward IX ID block_function this }"

definition TwoLevel_Next ::
    "'x Iterator \<Rightarrow> 'd Iterator \<Rightarrow> (bytes \<Rightarrow> 'd option) \<Rightarrow> ('x, 'd) TwoLevelIterator \<Rightarrow> ('x, 'd) TwoLevelIterator option" where
  "TwoLevel_Next IX ID block_function this =
     (if \<not> w_valid (tl_data this) then None
      else do {
        w \<leftarrow> Wrapper_Next ID (tl_data this);
        SkipEmptyDataBlocksForward IX ID block_function (this\<lparr>tl_data := w\<rparr>) })"

definition TwoLevel_Prev ::
    "'x Iterator \<Rightarrow> 'd Iterator \<Rightarrow> (bytes \<Rightarrow> 'd option) \<Rightarrow> ('x, 'd) TwoLevelIterator \<Rightarrow> ('x, 'd) TwoLevelIterator option" where
  "TwoLevel_Prev IX ID block_function this =
     (if \<not> w_valid (tl_data this) then None
      else do {
        w \<leftarrow> Wrapper_Prev ID (tl_data this);
        SkipEmptyDataBlocksBackward IX ID block_function (this\<lparr>tl_data := w\<rparr>) })"

definition TwoLevel_status :: "'x Iterator \<Rightarrow> 'd Iterator \<Rightarrow> ('x, 'd) TwoLevelIterator \<Rightarrow> Status" where
  "TwoLevel_status IX ID this =
     (let s = (case Wrapper_status IX (tl_index this) of None \<Rightarrow> Status_OK | Some s \<Rightarrow> s) in
      if \<not> Status_ok s then s
      else case Wrapper_status ID (tl_data this) of
        Some s \<Rightarrow> if \<not> Status_ok s then s else tl_status this
      | None \<Rightarrow> tl_status this)"

definition two_level_iterator :: "'x Iterator \<Rightarrow> 'd Iterator \<Rightarrow> (bytes \<Rightarrow> 'd option) \<Rightarrow> ('x, 'd) TwoLevelIterator Iterator" where
  "two_level_iterator IX ID block_function = \<lparr>v_Valid = (\<lambda>this. w_valid (tl_data this)),
     v_SeekToFirst = TwoLevel_SeekToFirst IX ID block_function, v_SeekToLast = TwoLevel_SeekToLast IX ID block_function,
     v_Seek = TwoLevel_Seek IX ID block_function, v_Next = TwoLevel_Next IX ID block_function, v_Prev = TwoLevel_Prev IX ID block_function,
     v_key = (\<lambda>this. Wrapper_key (tl_data this)), v_value = (\<lambda>this. Wrapper_value ID (tl_data this)), v_status = TwoLevel_status IX ID\<rparr>"

subsection \<open>A two-level iterator stands in the concatenation of the blocks\<close>

text \<open>
  The index yields pairs of a key and a handle; \<open>blk\<close> gives the entries of the block of a handle. The key of a block
  is not before its entries and before the entries of all later blocks.
\<close>

definition two_level_ok ::
    "('d \<Rightarrow> (bytes \<times> bytes) list \<Rightarrow> nat \<Rightarrow> bool) \<Rightarrow> (bytes \<Rightarrow> bytes \<Rightarrow> int) \<Rightarrow> (bytes \<Rightarrow> bool) \<Rightarrow> (bytes \<Rightarrow> 'd option)
      \<Rightarrow> (bytes \<Rightarrow> (bytes \<times> bytes) list) \<Rightarrow> (bytes \<times> bytes) list \<Rightarrow> bool" where
  "two_level_ok repr_d Compare valid block_function blk ies \<longleftrightarrow>
     sorted_entries Compare valid ies \<and> sorted_entries Compare valid (concat (map (\<lambda>e. blk (snd e)) ies))
     \<and> (\<forall>b < length ies. \<exists>d p. block_function (snd (ies ! b)) = Some d \<and> repr_d d (blk (snd (ies ! b))) p)
     \<and> (\<forall>b < length ies. \<forall>e \<in> set (blk (snd (ies ! b))). Compare (fst e) (fst (ies ! b)) \<le> 0)
     \<and> (\<forall>b' < length ies. \<forall>b < b'. \<forall>e \<in> set (blk (snd (ies ! b'))). Compare (fst (ies ! b)) (fst e) < 0)"

definition block_start :: "(bytes \<Rightarrow> (bytes \<times> bytes) list) \<Rightarrow> (bytes \<times> bytes) list \<Rightarrow> nat \<Rightarrow> nat" where
  "block_start blk ies b = length (concat (map (\<lambda>e. blk (snd e)) (take b ies)))"

text \<open>What holds between the calls: the index stands somewhere, and the data iterator is one of the block of the handle, or absent.\<close>

definition tl_inv ::
    "('x \<Rightarrow> (bytes \<times> bytes) list \<Rightarrow> nat \<Rightarrow> bool) \<Rightarrow> ('d \<Rightarrow> (bytes \<times> bytes) list \<Rightarrow> nat \<Rightarrow> bool) \<Rightarrow> (bytes \<Rightarrow> (bytes \<times> bytes) list)
      \<Rightarrow> (bytes \<times> bytes) list \<Rightarrow> ('x, 'd) TwoLevelIterator \<Rightarrow> nat \<Rightarrow> bool" where
  "tl_inv repr_x repr_d blk ies t b \<longleftrightarrow> tl_status t = Status_OK \<and> wrapper_repr repr_x (tl_index t) ies b
     \<and> (w_iter (tl_data t) = None \<and> \<not> w_valid (tl_data t) \<or> (\<exists>p. wrapper_repr repr_d (tl_data t) (blk (tl_handle t)) p))"

text \<open>The data iterator is that of block \<open>b\<close>, at position \<open>p\<close>.\<close>

definition tl_at ::
    "('x \<Rightarrow> (bytes \<times> bytes) list \<Rightarrow> nat \<Rightarrow> bool) \<Rightarrow> ('d \<Rightarrow> (bytes \<times> bytes) list \<Rightarrow> nat \<Rightarrow> bool) \<Rightarrow> (bytes \<Rightarrow> (bytes \<times> bytes) list)
      \<Rightarrow> (bytes \<times> bytes) list \<Rightarrow> ('x, 'd) TwoLevelIterator \<Rightarrow> nat \<Rightarrow> nat \<Rightarrow> bool" where
  "tl_at repr_x repr_d blk ies t b p \<longleftrightarrow> tl_inv repr_x repr_d blk ies t b \<and> b < length ies \<and> tl_handle t = snd (ies ! b)
     \<and> wrapper_repr repr_d (tl_data t) (blk (snd (ies ! b))) p"

definition tl_end ::
    "('x \<Rightarrow> (bytes \<times> bytes) list \<Rightarrow> nat \<Rightarrow> bool) \<Rightarrow> ('d \<Rightarrow> (bytes \<times> bytes) list \<Rightarrow> nat \<Rightarrow> bool) \<Rightarrow> (bytes \<Rightarrow> (bytes \<times> bytes) list)
      \<Rightarrow> (bytes \<times> bytes) list \<Rightarrow> ('x, 'd) TwoLevelIterator \<Rightarrow> bool" where
  "tl_end repr_x repr_d blk ies t \<longleftrightarrow> tl_inv repr_x repr_d blk ies t (length ies) \<and> w_iter (tl_data t) = None \<and> \<not> w_valid (tl_data t)"

definition tl_repr ::
    "('x \<Rightarrow> (bytes \<times> bytes) list \<Rightarrow> nat \<Rightarrow> bool) \<Rightarrow> ('d \<Rightarrow> (bytes \<times> bytes) list \<Rightarrow> nat \<Rightarrow> bool) \<Rightarrow> (bytes \<Rightarrow> bytes \<Rightarrow> int) \<Rightarrow> (bytes \<Rightarrow> bool)
      \<Rightarrow> (bytes \<Rightarrow> 'd option) \<Rightarrow> ('x, 'd) TwoLevelIterator \<Rightarrow> (bytes \<times> bytes) list \<Rightarrow> nat \<Rightarrow> bool" where
  "tl_repr repr_x repr_d Compare valid block_function t es i \<longleftrightarrow>
     (\<exists>ies blk. two_level_ok repr_d Compare valid block_function blk ies \<and> es = concat (map (\<lambda>e. blk (snd e)) ies)
        \<and> ((\<exists>b p. tl_at repr_x repr_d blk ies t b p \<and> p < length (blk (snd (ies ! b))) \<and> i = block_start blk ies b + p)
           \<or> (tl_end repr_x repr_d blk ies t \<and> i = length es)))"

lemma block_start_Suc: "b < length ies \<Longrightarrow> block_start blk ies (Suc b) = block_start blk ies b + length (blk (snd (ies ! b)))"
  by (simp add: block_start_def take_Suc_conv_app_nth)

lemma block_start_0 [simp]: "block_start blk ies 0 = 0"
  by (simp add: block_start_def)

lemma block_start_all [simp]: "block_start blk ies (length ies) = length (concat (map (\<lambda>e. blk (snd e)) ies))"
  by (simp add: block_start_def)

lemma block_start_le: "block_start blk ies b \<le> length (concat (map (\<lambda>e. blk (snd e)) ies))"
proof -
  have "concat (map (\<lambda>e. blk (snd e)) ies) = concat (map (\<lambda>e. blk (snd e)) (take b ies)) @ concat (map (\<lambda>e. blk (snd e)) (drop b ies))"
    by (simp flip: concat_append map_append)
  then show ?thesis by (simp add: block_start_def)
qed

lemma concat_split:
  assumes "b < length ies"
  shows "concat (map (\<lambda>e. blk (snd e)) ies) = concat (map (\<lambda>e. blk (snd e)) (take b ies)) @ blk (snd (ies ! b)) @ concat (map (\<lambda>e. blk (snd e)) (drop (Suc b) ies))"
proof -
  have "concat (map (\<lambda>e. blk (snd e)) ies) = concat (map (\<lambda>e. blk (snd e)) (take b ies @ ies ! b # drop (Suc b) ies))"
    by (rule arg_cong [where f = "\<lambda>x. concat (map (\<lambda>e. blk (snd e)) x)"]) (rule id_take_nth_drop [OF assms])
  then show ?thesis by simp
qed

lemma nth_concat_block:
  assumes "b < length ies" "p < length (blk (snd (ies ! b)))"
  shows "concat (map (\<lambda>e. blk (snd e)) ies) ! (block_start blk ies b + p) = blk (snd (ies ! b)) ! p"
    "block_start blk ies b + p < length (concat (map (\<lambda>e. blk (snd e)) ies))"
  unfolding concat_split [OF assms(1), of blk] using assms(2) by (simp_all add: block_start_def nth_append)
locale two_level = index: db_iterator IX Compare valid repr_x + data: db_iterator ID Compare valid repr_d + key_comparator Compare valid
  for IX :: "'x Iterator" and ID :: "'d Iterator" and Compare :: "bytes \<Rightarrow> bytes \<Rightarrow> int" and valid :: "bytes \<Rightarrow> bool"
    and repr_x :: "'x \<Rightarrow> (bytes \<times> bytes) list \<Rightarrow> nat \<Rightarrow> bool" and repr_d :: "'d \<Rightarrow> (bytes \<times> bytes) list \<Rightarrow> nat \<Rightarrow> bool"
begin

lemma SetDataIterator_None:
  assumes "tl_inv repr_x repr_d blk ies t b" "\<not> b < length ies"
  shows "\<exists>t'. SetDataIterator ID None t = Some t' \<and> tl_end repr_x repr_d blk ies t'"
proof -
  have "b = length ies" using assms index.wrapper_repr_entries by (fastforce simp: tl_inv_def)
  then show ?thesis using assms data.repr_status
    by (fastforce simp: SetDataIterator_def tl_inv_def tl_end_def Wrapper_Set_def SaveError_def wrapper_repr_def split: option.split)
qed

lemma SetDataIterator_Some:
  assumes "tl_inv repr_x repr_d blk ies t b" "repr_d d es p"
  shows "\<exists>w. SetDataIterator ID (Some d) (t\<lparr>tl_handle := h\<rparr>) = Some (t\<lparr>tl_handle := h, tl_data := w\<rparr>) \<and> wrapper_repr repr_d w es p"
proof -
  let ?t = "t\<lparr>tl_handle := h\<rparr>"
  obtain w where w: "Wrapper_Set ID (Some d) (tl_data ?t) = Some w" "wrapper_repr repr_d w es p" using data.Wrapper_Set_repr [OF assms(2)] by blast
  have "(case w_iter (tl_data ?t) of None \<Rightarrow> ?t | Some it \<Rightarrow> SaveError (v_status ID it) ?t) = ?t"
    using assms(1) data.repr_status by (fastforce simp: tl_inv_def SaveError_def wrapper_repr_def split: option.split)
  then show ?thesis using w by (intro exI [of _ w]) (simp add: SetDataIterator_def Let_def)
qed

lemma InitDataBlock_at:
  assumes ok: "two_level_ok repr_d Compare valid block_function blk ies" and inv: "tl_inv repr_x repr_d blk ies t b" and b: "b < length ies"
  shows "\<exists>t' p. InitDataBlock IX ID block_function t = Some t' \<and> tl_at repr_x repr_d blk ies t' b p"
proof -
  have iw: "wrapper_repr repr_x (tl_index t) ies b" using inv by (simp add: tl_inv_def)
  then have v: "w_valid (tl_index t)" "Wrapper_value IX (tl_index t) = Some (snd (ies ! b))" using b index.Wrapper_value_repr by (auto simp: wrapper_repr_def)
  obtain d p where d: "block_function (snd (ies ! b)) = Some d" "repr_d d (blk (snd (ies ! b))) p" using ok b by (auto simp: two_level_ok_def)
  show ?thesis
  proof (cases "w_iter (tl_data t) \<noteq> None \<and> snd (ies ! b) = tl_handle t")
    case True
    then have "InitDataBlock IX ID block_function t = Some t" using v by (simp add: InitDataBlock_def)
    moreover obtain p where "tl_at repr_x repr_d blk ies t b p" using True inv b by (auto simp: tl_at_def tl_inv_def)
    ultimately show ?thesis by blast
  next
    case False
    obtain w where w: "SetDataIterator ID (Some d) (t\<lparr>tl_handle := snd (ies ! b)\<rparr>) = Some (t\<lparr>tl_handle := snd (ies ! b), tl_data := w\<rparr>)"
      "wrapper_repr repr_d w (blk (snd (ies ! b))) p" using SetDataIterator_Some [OF inv d(2)] by blast
    have "InitDataBlock IX ID block_function t = Some (t\<lparr>tl_handle := snd (ies ! b), tl_data := w\<rparr>)" using v d(1) w(1) False by (auto simp: InitDataBlock_def)
    moreover have "tl_at repr_x repr_d blk ies (t\<lparr>tl_handle := snd (ies ! b), tl_data := w\<rparr>) b p" using w(2) inv b by (auto simp: tl_at_def tl_inv_def)
    ultimately show ?thesis by blast
  qed
qed

lemma InitDataBlock_end:
  assumes "tl_inv repr_x repr_d blk ies t b" "\<not> b < length ies"
  shows "\<exists>t'. InitDataBlock IX ID block_function t = Some t' \<and> tl_end repr_x repr_d blk ies t'"
  using SetDataIterator_None [OF assms] assms by (auto simp: InitDataBlock_def tl_inv_def wrapper_repr_def)

lemma tl_inv_index: "tl_inv repr_x repr_d blk ies t b \<Longrightarrow> wrapper_repr repr_x w ies b' \<Longrightarrow> tl_inv repr_x repr_d blk ies (t\<lparr>tl_index := w\<rparr>) b'"
  by (auto simp: tl_inv_def)

text \<open>The index has been moved to \<open>b\<close>: the data iterator is set up and moved, or absent at the end.\<close>

lemma enter_block:
  assumes ok: "two_level_ok repr_d Compare valid block_function blk ies" and inv: "tl_inv repr_x repr_d blk ies t b'" and w: "wrapper_repr repr_x w ies b"
    and f: "\<And>d p. wrapper_repr repr_d d (blk (snd (ies ! b))) p \<Longrightarrow> \<exists>d'. f d = Some d' \<and> wrapper_repr repr_d d' (blk (snd (ies ! b))) q"
  shows "\<exists>t'. do { t \<leftarrow> InitDataBlock IX ID block_function (t\<lparr>tl_index := w\<rparr>); data_move f t } = Some t'
    \<and> (if b < length ies then tl_at repr_x repr_d blk ies t' b q else tl_end repr_x repr_d blk ies t')"
proof (cases "b < length ies")
  case True
  obtain t1 p where t1: "InitDataBlock IX ID block_function (t\<lparr>tl_index := w\<rparr>) = Some t1" "tl_at repr_x repr_d blk ies t1 b p"
    using InitDataBlock_at [OF ok tl_inv_index [OF inv w] True] by blast
  then obtain d where d: "f (tl_data t1) = Some d" "wrapper_repr repr_d d (blk (snd (ies ! b))) q" using f by (auto simp: tl_at_def)
  have "data_move f t1 = Some (t1\<lparr>tl_data := d\<rparr>)" using t1(2) d(1) by (auto simp: data_move_def tl_at_def wrapper_repr_def)
  moreover have "tl_at repr_x repr_d blk ies (t1\<lparr>tl_data := d\<rparr>) b q" using t1(2) d(2) by (auto simp: tl_at_def tl_inv_def)
  ultimately show ?thesis using t1(1) True by simp
next
  case False
  then show ?thesis using InitDataBlock_end [OF tl_inv_index [OF inv w] False, of block_function] by (auto simp: data_move_def tl_end_def)
qed

lemma SkipForward_ok:
  assumes ok: "two_level_ok repr_d Compare valid block_function blk ies" and "es = concat (map (\<lambda>e. blk (snd e)) ies)"
    and at: "if b < length ies then tl_at repr_x repr_d blk ies t b p else tl_end repr_x repr_d blk ies t \<and> b = length ies \<and> p = 0"
  shows "\<exists>t'. SkipEmptyDataBlocksForward IX ID block_function t = Some t' \<and> tl_repr repr_x repr_d Compare valid block_function t' es (block_start blk ies b + p)"
  using at
proof (induction "length ies - b" arbitrary: t b p rule: less_induct)
  case less
  note step = SkipEmptyDataBlocksForward.simps [of IX ID block_function t]
  show ?case
  proof (cases "b < length ies")
    case True
    let ?c = "blk (snd (ies ! b))"
    have at: "tl_at repr_x repr_d blk ies t b p" using less.prems True by simp
    then have w: "wrapper_repr repr_d (tl_data t) ?c p" and inv: "tl_inv repr_x repr_d blk ies t b" by (auto simp: tl_at_def)
    show ?thesis
    proof (cases "p < length ?c")
      case p: True
      then have "SkipEmptyDataBlocksForward IX ID block_function t = Some t" using w by (auto simp: step wrapper_repr_def)
      then show ?thesis using at p ok assms(2) unfolding tl_repr_def by blast
    next
      case False
      then have p: "p = length ?c" using data.wrapper_repr_entries [OF w] by simp
      have iw: "wrapper_repr repr_x (tl_index t) ies b" using inv by (simp add: tl_inv_def)
      obtain w' where w': "Wrapper_Next IX (tl_index t) = Some w'" "wrapper_repr repr_x w' ies (Suc b)" using index.Wrapper_move_repr(4) [OF iw True] by blast
      obtain t' where t': "do { t \<leftarrow> InitDataBlock IX ID block_function (t\<lparr>tl_index := w'\<rparr>); data_move (Wrapper_SeekToFirst ID) t } = Some t'"
        "if Suc b < length ies then tl_at repr_x repr_d blk ies t' (Suc b) 0 else tl_end repr_x repr_d blk ies t'"
        using enter_block [OF ok inv w'(2), of "Wrapper_SeekToFirst ID" 0] data.Wrapper_move_repr(1) by blast
      have "SkipEmptyDataBlocksForward IX ID block_function t = SkipEmptyDataBlocksForward IX ID block_function t'"
        using w p iw True w'(1) t'(1) by (auto simp: step wrapper_repr_def simp flip: Option.bind_assoc)
      moreover have "\<exists>t2. SkipEmptyDataBlocksForward IX ID block_function t' = Some t2 \<and> tl_repr repr_x repr_d Compare valid block_function t2 es (block_start blk ies (Suc b) + 0)"
        by (rule less.hyps) (use True t'(2) in auto)
      ultimately show ?thesis using block_start_Suc [OF True, of blk] p by simp
    qed
  next
    case False
    then have e: "tl_end repr_x repr_d blk ies t" "b = length ies" "p = 0" using less.prems by auto
    then have "SkipEmptyDataBlocksForward IX ID block_function t = SetDataIterator ID None t" by (simp add: step tl_end_def tl_inv_def wrapper_repr_def)
    moreover obtain t' where "SetDataIterator ID None t = Some t'" "tl_end repr_x repr_d blk ies t'" using SetDataIterator_None [of blk ies t "length ies"] e(1) unfolding tl_end_def by blast
    ultimately show ?thesis using e ok assms(2) unfolding tl_repr_def by fastforce
  qed
qed

end
lemma Wrapper_new_simps [simp]: "w_iter Wrapper_new = None" "w_valid Wrapper_new = False"
  by (simp_all add: Wrapper_new_def)

lemma takeWhile_append_Nil: "takeWhile P ys = [] \<Longrightarrow> takeWhile P (xs @ ys) = takeWhile P xs"
  by (induction xs) simp_all

context two_level
begin

lemma SkipBackward_ok:
  assumes ok: "two_level_ok repr_d Compare valid block_function blk ies" and es: "es = concat (map (\<lambda>e. blk (snd e)) ies)"
    and at: "tl_at repr_x repr_d blk ies t b p \<and> p < length (blk (snd (ies ! b))) \<and> i = block_start blk ies b + p
      \<or> tl_at repr_x repr_d blk ies t b (length (blk (snd (ies ! b)))) \<and> i = (if block_start blk ies b = 0 then length es else block_start blk ies b - 1)
      \<or> tl_end repr_x repr_d blk ies t \<and> i = length es"
  shows "\<exists>t'. SkipEmptyDataBlocksBackward IX ID block_function t = Some t' \<and> tl_repr repr_x repr_d Compare valid block_function t' es i"
  using at
proof (induction b arbitrary: t p rule: less_induct)
  case (less b)
  note step = SkipEmptyDataBlocksBackward.simps [of IX ID block_function t]
  consider (inside) "tl_at repr_x repr_d blk ies t b p" "p < length (blk (snd (ies ! b)))" "i = block_start blk ies b + p"
    | (before) "tl_at repr_x repr_d blk ies t b (length (blk (snd (ies ! b))))" "i = (if block_start blk ies b = 0 then length es else block_start blk ies b - 1)"
    | (ended) "tl_end repr_x repr_d blk ies t" "i = length es" using less.prems by blast
  then show ?case
  proof cases
    case inside
    then have "SkipEmptyDataBlocksBackward IX ID block_function t = Some t" by (auto simp: step tl_at_def wrapper_repr_def)
    then show ?thesis using inside ok es unfolding tl_repr_def by blast
  next
    case ended
    then have "SkipEmptyDataBlocksBackward IX ID block_function t = SetDataIterator ID None t" by (simp add: step tl_end_def tl_inv_def wrapper_repr_def)
    moreover obtain t' where "SetDataIterator ID None t = Some t'" "tl_end repr_x repr_d blk ies t'" using SetDataIterator_None [of blk ies t "length ies"] ended(1) unfolding tl_end_def by blast
    ultimately show ?thesis using ended ok es unfolding tl_repr_def by auto
  next
    case before
    have b: "b < length ies" and inv: "tl_inv repr_x repr_d blk ies t b" and iw: "wrapper_repr repr_x (tl_index t) ies b" and nv: "\<not> w_valid (tl_data t)"
      using before(1) by (auto simp: tl_at_def tl_inv_def wrapper_repr_def)
    define b' where "b' = (if b = 0 then length ies else b - 1)"
    obtain w' where w': "Wrapper_Prev IX (tl_index t) = Some w'" "wrapper_repr repr_x w' ies b'" using index.Wrapper_move_repr(5) [OF iw b] unfolding b'_def by blast
    obtain t' where t': "do { t \<leftarrow> InitDataBlock IX ID block_function (t\<lparr>tl_index := w'\<rparr>); data_move (Wrapper_SeekToLast ID) t } = Some t'"
        "if b' < length ies then tl_at repr_x repr_d blk ies t' b' (length (blk (snd (ies ! b'))) - 1) else tl_end repr_x repr_d blk ies t'"
      using enter_block [OF ok inv w'(2), of "Wrapper_SeekToLast ID"] data.Wrapper_move_repr(2) by blast
    have "SkipEmptyDataBlocksBackward IX ID block_function t = SkipEmptyDataBlocksBackward IX ID block_function t'"
      using nv iw b w'(1) t'(1) by (auto simp: step wrapper_repr_def simp flip: Option.bind_assoc)
    moreover have "\<exists>t2. SkipEmptyDataBlocksBackward IX ID block_function t' = Some t2 \<and> tl_repr repr_x repr_d Compare valid block_function t2 es i"
    proof (cases "b = 0")
      case True
      then have e: "tl_end repr_x repr_d blk ies t'" "i = length es" using t'(2) before(2) by (auto simp: b'_def)
      then have "SkipEmptyDataBlocksBackward IX ID block_function t' = SetDataIterator ID None t'"
        by (subst SkipEmptyDataBlocksBackward.simps) (simp add: tl_end_def tl_inv_def wrapper_repr_def)
      moreover obtain t2 where "SetDataIterator ID None t' = Some t2" "tl_end repr_x repr_d blk ies t2" using SetDataIterator_None [of blk ies t' "length ies"] e(1) unfolding tl_end_def by blast
      ultimately show ?thesis using e ok es unfolding tl_repr_def by auto
    next
      case False
      then have b': "b' < b" "Suc b' = b" "b' < length ies" using b by (auto simp: b'_def)
      let ?n = "length (blk (snd (ies ! b')))"
      have "block_start blk ies b = block_start blk ies b' + ?n" using block_start_Suc [OF b'(3), of blk] b'(2) by simp
      then show ?thesis using less.IH [OF b'(1), of t' "?n - 1"] t'(2) b'(3) before(2) by (cases "?n = 0") (auto split: if_splits)
    qed
    ultimately show ?thesis by simp
  qed
qed

lemma seek_pos_blocks:
  assumes ok: "two_level_ok repr_d Compare valid block_function blk ies" and k: "valid k"
  defines "b \<equiv> seek_pos Compare k ies"
  shows "seek_pos Compare k (concat (map (\<lambda>e. blk (snd e)) ies)) = block_start blk ies b + (if b < length ies then seek_pos Compare k (blk (snd (ies ! b))) else 0)"
proof -
  let ?P = "\<lambda>e :: bytes \<times> bytes. Compare (fst e) k < 0" and ?f = "\<lambda>e. blk (snd e)"
  have tk: "take b ies = takeWhile ?P ies" by (simp add: b_def seek_pos_def takeWhile_eq_take [symmetric])
  have vi: "valid (fst (ies ! j))" if "j < length ies" for j using ok that by (auto simp: two_level_ok_def sorted_entries_def)
  have ve: "valid (fst e)" if "e \<in> set (concat (map ?f ies))" for e using ok that by (auto simp: two_level_ok_def sorted_entries_def)
  have ine: "e \<in> set (concat (map ?f ies))" if "j < length ies" "e \<in> set (?f (ies ! j))" for j e using that by auto
  have before: "?P e" if "j < b" "j < length ies" "e \<in> set (?f (ies ! j))" for j e
  proof -
    have "ies ! j \<in> set (takeWhile ?P ies)" using that(1,2) tk by (metis in_set_conv_nth length_take min_less_iff_conj nth_take)
    then have "Compare (fst (ies ! j)) k < 0" by (auto dest: set_takeWhileD)
    moreover have "Compare (fst e) (fst (ies ! j)) \<le> 0" using ok that by (auto simp: two_level_ok_def)
    ultimately show ?thesis using Compare_le_less_trans ve [OF ine [OF that(2,3)]] vi [OF that(2)] k by blast
  qed
  have all: "\<forall>e \<in> set (concat (map ?f (take b ies))). ?P e"
  proof
    fix e assume "e \<in> set (concat (map ?f (take b ies)))"
    then obtain x where "x \<in> set (take b ies)" "e \<in> set (?f x)" by auto
    then obtain j where "j < b" "j < length ies" "e \<in> set (?f (ies ! j))" unfolding in_set_conv_nth [of x] by auto
    then show "?P e" by (rule before)
  qed
  show ?thesis
  proof (cases "b < length ies")
    case True
    have ge: "\<not> Compare (fst (ies ! b)) k < 0" using nth_length_takeWhile [of ?P ies] True by (simp add: b_def seek_pos_def)
    have after: "\<not> ?P e" if e: "e \<in> set (concat (map ?f (drop (Suc b) ies)))" for e
    proof -
      obtain x where "x \<in> set (drop (Suc b) ies)" "e \<in> set (?f x)" using e by auto
      then obtain j where j: "j < length (drop (Suc b) ies)" "e \<in> set (?f (drop (Suc b) ies ! j))" unfolding in_set_conv_nth [of x] by blast
      then have j': "Suc b + j < length ies" "e \<in> set (?f (ies ! (Suc b + j)))" by auto
      then have "Compare (fst (ies ! b)) (fst e) < 0" using ok by (auto simp: two_level_ok_def)
      then show ?thesis using ge Compare_less_trans [of "fst (ies ! b)" "fst e" k] vi [OF True] ve [OF ine [OF j']] k by auto
    qed
    then have "takeWhile ?P (concat (map ?f (drop (Suc b) ies))) = []" unfolding takeWhile_eq_Nil_iff using hd_in_set by blast
    then have tail: "takeWhile ?P (?f (ies ! b) @ concat (map ?f (drop (Suc b) ies))) = takeWhile ?P (?f (ies ! b))"
      by (rule takeWhile_append_Nil)
    have "takeWhile ?P (concat (map ?f (take b ies)) @ ys) = concat (map ?f (take b ies)) @ takeWhile ?P ys" for ys
      by (rule takeWhile_append2) (use all in blast)
    then show ?thesis unfolding concat_split [OF True, of blk] seek_pos_def using tail True by (simp add: block_start_def)
  next
    case False
    then have "take b ies = ies" by simp
    moreover from this have "takeWhile ?P (concat (map ?f ies)) = concat (map ?f ies)" using all unfolding takeWhile_eq_all_conv by simp
    then have "length (takeWhile ?P (concat (map ?f ies))) = length (concat (map ?f ies))" by (rule arg_cong)
    ultimately show ?thesis using False by (simp add: seek_pos_def block_start_def)
  qed
qed

lemma tl_inv_w: "tl_inv repr_x repr_d blk ies t b \<Longrightarrow> wrapper_repr repr_x (tl_index t) ies b"
  by (simp add: tl_inv_def)

lemma TwoLevel_SeekToFirst_ok:
  assumes ok: "two_level_ok repr_d Compare valid block_function blk ies" and inv: "tl_inv repr_x repr_d blk ies t b"
  shows "\<exists>t'. TwoLevel_SeekToFirst IX ID block_function t = Some t' \<and> tl_repr repr_x repr_d Compare valid block_function t' (concat (map (\<lambda>e. blk (snd e)) ies)) 0"
proof -
  obtain w where w: "Wrapper_SeekToFirst IX (tl_index t) = Some w" "wrapper_repr repr_x w ies 0" using index.Wrapper_move_repr(1) [OF tl_inv_w [OF inv]] by blast
  obtain t' where t': "do { t \<leftarrow> InitDataBlock IX ID block_function (t\<lparr>tl_index := w\<rparr>); data_move (Wrapper_SeekToFirst ID) t } = Some t'"
      "if 0 < length ies then tl_at repr_x repr_d blk ies t' 0 0 else tl_end repr_x repr_d blk ies t'"
    using enter_block [OF ok inv w(2), of "Wrapper_SeekToFirst ID" 0] data.Wrapper_move_repr(1) by blast
  then have "TwoLevel_SeekToFirst IX ID block_function t = SkipEmptyDataBlocksForward IX ID block_function t'" using w(1) by (simp add: TwoLevel_SeekToFirst_def flip: Option.bind_assoc)
  then show ?thesis using SkipForward_ok [OF ok refl, of 0 t' 0] t'(2) by (cases "ies = []") auto
qed

lemma TwoLevel_Seek_ok:
  assumes ok: "two_level_ok repr_d Compare valid block_function blk ies" and inv: "tl_inv repr_x repr_d blk ies t b0" and k: "valid k"
  shows "\<exists>t'. TwoLevel_Seek IX ID block_function k t = Some t'
    \<and> tl_repr repr_x repr_d Compare valid block_function t' (concat (map (\<lambda>e. blk (snd e)) ies)) (seek_pos Compare k (concat (map (\<lambda>e. blk (snd e)) ies)))"
proof -
  let ?b = "seek_pos Compare k ies"
  have le: "?b \<le> length ies" by (rule seek_pos_le)
  obtain w where w: "Wrapper_Seek IX k (tl_index t) = Some w" "wrapper_repr repr_x w ies ?b" using index.Wrapper_move_repr(3) [OF tl_inv_w [OF inv] k] by blast
  obtain t' where t': "do { t \<leftarrow> InitDataBlock IX ID block_function (t\<lparr>tl_index := w\<rparr>); data_move (Wrapper_Seek ID k) t } = Some t'"
      "if ?b < length ies then tl_at repr_x repr_d blk ies t' ?b (seek_pos Compare k (blk (snd (ies ! ?b)))) else tl_end repr_x repr_d blk ies t'"
    using enter_block [OF ok inv w(2), of "Wrapper_Seek ID k"] data.Wrapper_move_repr(3) [OF _ k] by blast
  then have "TwoLevel_Seek IX ID block_function k t = SkipEmptyDataBlocksForward IX ID block_function t'" using w(1) by (simp add: TwoLevel_Seek_def flip: Option.bind_assoc)
  then show ?thesis
    using SkipForward_ok [OF ok refl, of ?b t' "if ?b < length ies then seek_pos Compare k (blk (snd (ies ! ?b))) else 0"] t'(2) seek_pos_blocks [OF ok k] le
    by (cases "?b < length ies") auto
qed

lemma TwoLevel_SeekToLast_ok:
  assumes ok: "two_level_ok repr_d Compare valid block_function blk ies" and inv: "tl_inv repr_x repr_d blk ies t b0"
  defines "es \<equiv> concat (map (\<lambda>e. blk (snd e)) ies)"
  shows "\<exists>t'. TwoLevel_SeekToLast IX ID block_function t = Some t' \<and> tl_repr repr_x repr_d Compare valid block_function t' es (length es - 1)"
proof -
  let ?b = "length ies - 1" and ?c = "blk (snd (ies ! (length ies - 1)))"
  obtain w where w: "Wrapper_SeekToLast IX (tl_index t) = Some w" "wrapper_repr repr_x w ies ?b" using index.Wrapper_move_repr(2) [OF tl_inv_w [OF inv]] by blast
  obtain t' where t': "do { t \<leftarrow> InitDataBlock IX ID block_function (t\<lparr>tl_index := w\<rparr>); data_move (Wrapper_SeekToLast ID) t } = Some t'"
      "if ?b < length ies then tl_at repr_x repr_d blk ies t' ?b (length ?c - 1) else tl_end repr_x repr_d blk ies t'"
    using enter_block [OF ok inv w(2), of "Wrapper_SeekToLast ID"] data.Wrapper_move_repr(2) by blast
  then have "TwoLevel_SeekToLast IX ID block_function t = SkipEmptyDataBlocksBackward IX ID block_function t'" using w(1) by (simp add: TwoLevel_SeekToLast_def flip: Option.bind_assoc)
  moreover have "\<exists>t2. SkipEmptyDataBlocksBackward IX ID block_function t' = Some t2 \<and> tl_repr repr_x repr_d Compare valid block_function t2 es (length es - 1)"
  proof (cases "ies = []")
    case True
    then show ?thesis using SkipBackward_ok [OF ok refl, of t' 0 0 0] t'(2) by (simp add: es_def)
  next
    case False
    then have b: "?b < length ies" "Suc ?b = length ies" by auto
    then have n: "length es = block_start blk ies ?b + length ?c" using block_start_Suc [OF b(1), of blk] unfolding b(2) by (simp add: es_def)
    have at: "tl_at repr_x repr_d blk ies t' ?b (length ?c - 1)" using t'(2) b(1) by simp
    have es: "es = concat (map (\<lambda>e. blk (snd e)) ies)" by (simp add: es_def)
    show ?thesis
    proof (cases "length ?c = 0")
      case True
      then show ?thesis by (intro SkipBackward_ok [OF ok es, of t' ?b 0] disjI2 disjI1 conjI) (use at n in auto)
    next
      case False
      then have "length es - 1 = block_start blk ies ?b + (length ?c - 1)" "length ?c - 1 < length ?c" using n by linarith+
      then show ?thesis by (intro SkipBackward_ok [OF ok es, of t' ?b "length ?c - 1"] disjI1 conjI at)
    qed
  qed
  ultimately show ?thesis by simp
qed

end
context two_level
begin

lemma tl_reprE:
  assumes "tl_repr repr_x repr_d Compare valid block_function t es i"
  obtains blk ies b where "two_level_ok repr_d Compare valid block_function blk ies" "es = concat (map (\<lambda>e. blk (snd e)) ies)" "tl_inv repr_x repr_d blk ies t b"
    "i < length es \<Longrightarrow> \<exists>p. tl_at repr_x repr_d blk ies t b p \<and> p < length (blk (snd (ies ! b))) \<and> i = block_start blk ies b + p"
    "\<not> i < length es \<Longrightarrow> tl_end repr_x repr_d blk ies t \<and> i = length es"
  using assms unfolding tl_repr_def
proof (elim exE conjE disjE)
  fix ies blk b p
  assume ok: "two_level_ok repr_d Compare valid block_function blk ies" "es = concat (map (\<lambda>e. blk (snd e)) ies)"
    and at: "tl_at repr_x repr_d blk ies t b p" "p < length (blk (snd (ies ! b)))" "i = block_start blk ies b + p"
  then have "i < length es" using nth_concat_block(2) [of b ies p blk] by (simp add: tl_at_def)
  then show thesis using that [OF ok, of b] at by (auto simp: tl_at_def)
next
  fix ies blk
  assume ok: "two_level_ok repr_d Compare valid block_function blk ies" "es = concat (map (\<lambda>e. blk (snd e)) ies)"
    and e: "tl_end repr_x repr_d blk ies t" "i = length es"
  then show thesis using that [OF ok, of "length ies"] by (auto simp: tl_end_def)
qed

lemma TwoLevel_Next_ok:
  assumes r: "tl_repr repr_x repr_d Compare valid block_function t es i" and i: "i < length es"
  shows "\<exists>t'. TwoLevel_Next IX ID block_function t = Some t' \<and> tl_repr repr_x repr_d Compare valid block_function t' es (Suc i)"
  using r
proof (rule tl_reprE)
  fix blk ies b
  assume ok: "two_level_ok repr_d Compare valid block_function blk ies" and es: "es = concat (map (\<lambda>e. blk (snd e)) ies)"
    and "i < length es \<Longrightarrow> \<exists>p. tl_at repr_x repr_d blk ies t b p \<and> p < length (blk (snd (ies ! b))) \<and> i = block_start blk ies b + p"
  then obtain p where at: "tl_at repr_x repr_d blk ies t b p" and p: "p < length (blk (snd (ies ! b)))" "i = block_start blk ies b + p" using i by blast
  then have w: "wrapper_repr repr_d (tl_data t) (blk (snd (ies ! b))) p" and b: "b < length ies" by (auto simp: tl_at_def)
  obtain d where d: "Wrapper_Next ID (tl_data t) = Some d" "wrapper_repr repr_d d (blk (snd (ies ! b))) (Suc p)" using data.Wrapper_move_repr(4) [OF w p(1)] by blast
  have "tl_at repr_x repr_d blk ies (t\<lparr>tl_data := d\<rparr>) b (Suc p)" using at d(2) by (auto simp: tl_at_def tl_inv_def)
  then show ?thesis using SkipForward_ok [OF ok es, of b "t\<lparr>tl_data := d\<rparr>" "Suc p"] b p(2) d(1) w p(1) by (simp add: TwoLevel_Next_def wrapper_repr_def)
qed

lemma TwoLevel_Prev_ok:
  assumes r: "tl_repr repr_x repr_d Compare valid block_function t es i" and i: "i < length es"
  shows "\<exists>t'. TwoLevel_Prev IX ID block_function t = Some t' \<and> tl_repr repr_x repr_d Compare valid block_function t' es (if i = 0 then length es else i - 1)"
  using r
proof (rule tl_reprE)
  fix blk ies b
  assume ok: "two_level_ok repr_d Compare valid block_function blk ies" and es: "es = concat (map (\<lambda>e. blk (snd e)) ies)"
    and "i < length es \<Longrightarrow> \<exists>p. tl_at repr_x repr_d blk ies t b p \<and> p < length (blk (snd (ies ! b))) \<and> i = block_start blk ies b + p"
  then obtain p where at: "tl_at repr_x repr_d blk ies t b p" and p: "p < length (blk (snd (ies ! b)))" "i = block_start blk ies b + p" using i by blast
  then have w: "wrapper_repr repr_d (tl_data t) (blk (snd (ies ! b))) p" and b: "b < length ies" by (auto simp: tl_at_def)
  define q where "q = (if p = 0 then length (blk (snd (ies ! b))) else p - 1)"
  obtain d where d: "Wrapper_Prev ID (tl_data t) = Some d" "wrapper_repr repr_d d (blk (snd (ies ! b))) q" unfolding q_def using data.Wrapper_move_repr(5) [OF w p(1)] by blast
  have at': "tl_at repr_x repr_d blk ies (t\<lparr>tl_data := d\<rparr>) b q" using at d(2) by (auto simp: tl_at_def tl_inv_def)
  have "\<exists>t'. SkipEmptyDataBlocksBackward IX ID block_function (t\<lparr>tl_data := d\<rparr>) = Some t' \<and> tl_repr repr_x repr_d Compare valid block_function t' es (if i = 0 then length es else i - 1)"
  proof (cases "p = 0")
    case True
    then show ?thesis by (intro SkipBackward_ok [OF ok es, of _ b q] disjI2 disjI1 conjI) (use at' p q_def in auto)
  next
    case False
    then have "(if i = 0 then length es else i - 1) = block_start blk ies b + q" "q < length (blk (snd (ies ! b)))" using p by (auto simp: q_def)
    then show ?thesis by (intro SkipBackward_ok [OF ok es, of _ b q] disjI1 conjI at')
  qed
  then show ?thesis using d(1) w p(1) by (simp add: TwoLevel_Prev_def wrapper_repr_def)
qed

lemma two_level_observations:
  assumes r: "tl_repr repr_x repr_d Compare valid block_function t es i"
  shows "i \<le> length es \<and> sorted_entries Compare valid es" "TwoLevel_status IX ID t = Status_OK" "w_valid (tl_data t) \<longleftrightarrow> i < length es"
    "i < length es \<Longrightarrow> Wrapper_key (tl_data t) = Some (fst (es ! i)) \<and> Wrapper_value ID (tl_data t) = Some (snd (es ! i))"
proof -
  obtain blk ies b where ok: "two_level_ok repr_d Compare valid block_function blk ies" and es: "es = concat (map (\<lambda>e. blk (snd e)) ies)" and inv: "tl_inv repr_x repr_d blk ies t b"
    and at: "i < length es \<Longrightarrow> \<exists>p. tl_at repr_x repr_d blk ies t b p \<and> p < length (blk (snd (ies ! b))) \<and> i = block_start blk ies b + p"
    and en: "\<not> i < length es \<Longrightarrow> tl_end repr_x repr_d blk ies t \<and> i = length es" using r by (rule tl_reprE) blast
  show "i \<le> length es \<and> sorted_entries Compare valid es" using ok es en by (cases "i < length es") (auto simp: two_level_ok_def)
  have x: "Wrapper_status IX (tl_index t) = Some Status_OK" using tl_inv_w [OF inv] index.repr_status by (auto simp: wrapper_repr_def Wrapper_status_def)
  have "Wrapper_status ID (tl_data t) = None \<or> Wrapper_status ID (tl_data t) = Some Status_OK"
    using inv data.repr_status by (auto simp: tl_inv_def wrapper_repr_def Wrapper_status_def)
  then show "TwoLevel_status IX ID t = Status_OK" using x inv by (auto simp: TwoLevel_status_def tl_inv_def)
  show "w_valid (tl_data t) \<longleftrightarrow> i < length es" using at en by (auto simp: tl_at_def tl_end_def wrapper_repr_def)
  assume "i < length es"
  then obtain p where p: "tl_at repr_x repr_d blk ies t b p" "p < length (blk (snd (ies ! b)))" "i = block_start blk ies b + p" using at by blast
  then have "wrapper_repr repr_d (tl_data t) (blk (snd (ies ! b))) p" "b < length ies" by (auto simp: tl_at_def)
  then show "Wrapper_key (tl_data t) = Some (fst (es ! i)) \<and> Wrapper_value ID (tl_data t) = Some (snd (es ! i))"
    using nth_concat_block(1) [of b ies p blk] p(2,3) es data.Wrapper_value_repr by (simp add: Wrapper_key_def wrapper_repr_def)
qed

lemma two_level_db_iterator:
  "db_iterator (two_level_iterator IX ID block_function) Compare valid (tl_repr repr_x repr_d Compare valid block_function)"
proof (unfold_locales, goal_cases)
  case (1 t es i) then show ?case by (rule two_level_observations)
next
  case (2 t es i) then show ?case by (simp add: two_level_iterator_def two_level_observations)
next
  case (3 t es i) then show ?case by (simp add: two_level_iterator_def two_level_observations(3))
next
  case (4 t es i) then show ?case by (simp add: two_level_iterator_def two_level_observations(4))
next
  case (5 t es i) then show ?case by (rule tl_reprE) (simp add: two_level_iterator_def TwoLevel_SeekToFirst_ok)
next
  case (6 t es i) then show ?case by (rule tl_reprE) (use TwoLevel_SeekToLast_ok in \<open>simp add: two_level_iterator_def\<close>)
next
  case (7 t es i k) then show ?case by (rule_tac tl_reprE) (assumption, simp add: two_level_iterator_def TwoLevel_Seek_ok)
next
  case (8 t es i) then show ?case by (simp add: two_level_iterator_def TwoLevel_Next_ok)
next
  case (9 t es i) then show ?case using TwoLevel_Prev_ok by (simp add: two_level_iterator_def)
qed

lemma NewTwoLevelIterator_ok:
  assumes "two_level_ok repr_d Compare valid block_function blk ies" "repr_x it ies b"
  shows "\<exists>t. NewTwoLevelIterator IX it = Some t \<and> tl_inv repr_x repr_d blk ies t b"
proof -
  obtain w where "Wrapper_Set IX (Some it) Wrapper_new = Some w" "wrapper_repr repr_x w ies b" using index.Wrapper_Set_repr [OF assms(2)] by blast
  then show ?thesis by (simp add: NewTwoLevelIterator_def tl_inv_def)
qed

lemma first_move_ok:
  assumes "two_level_ok repr_d Compare valid block_function blk ies" "tl_inv repr_x repr_d blk ies t b" "move \<noteq> MoveNext" "move \<noteq> MovePrev" "\<forall>t. move = MoveSeek t \<longrightarrow> valid t"
  defines "es \<equiv> concat (map (\<lambda>e. blk (snd e)) ies)"
  shows "\<exists>t' i. move_iterator (two_level_iterator IX ID block_function) move t = Some t' \<and> move_cursor Compare es move 0 = Some i
    \<and> tl_repr repr_x repr_d Compare valid block_function t' es i"
  using TwoLevel_SeekToFirst_ok [OF assms(1,2)] TwoLevel_SeekToLast_ok [OF assms(1,2)] TwoLevel_Seek_ok [OF assms(1,2)] assms(3-5)
  by (cases move) (auto simp: two_level_iterator_def es_def)

end

sublocale two_level \<subseteq> flat: db_iterator "two_level_iterator IX ID block_function" Compare valid "tl_repr repr_x repr_d Compare valid block_function" for block_function
  by (rule two_level_db_iterator)

subsection \<open>The iterator of a table\<close>

definition Table_NewIterator :: "'f Table \<Rightarrow> (Status + BlockIter, Status + BlockIter) TwoLevelIterator option" where
  "Table_NewIterator this = do {
     it \<leftarrow> Block_NewIterator (ta_index_block this);
     NewTwoLevelIterator (any_block_iterator (to_compare (ta_options this))) it }"

definition table_iterator :: "'f TableEnv \<Rightarrow> 'f Table \<Rightarrow> bool \<Rightarrow> (Status + BlockIter, Status + BlockIter) TwoLevelIterator Iterator" where
  "table_iterator te this verify_checksums =
     (let I = any_block_iterator (to_compare (ta_options this)) in two_level_iterator I I (BlockReader te this verify_checksums))"

subsection \<open>Iterators over blocks and over the table\<close>

definition any_repr :: "(bytes \<Rightarrow> bytes \<Rightarrow> int) \<Rightarrow> (bytes \<Rightarrow> bool) \<Rightarrow> Status + BlockIter \<Rightarrow> (bytes \<times> bytes) list \<Rightarrow> nat \<Rightarrow> bool" where
  "any_repr compare valid it es i = (case it of Inl s \<Rightarrow> s = Status_OK \<and> es = [] \<and> i = 0 | Inr b \<Rightarrow> block_repr compare valid b es i)"

context key_comparator
begin

lemma any_block_db_iterator: "db_iterator (any_block_iterator Compare) Compare valid (any_repr Compare valid)"
proof (unfold_locales, goal_cases)
  case (1 it es i) then show ?case using block.repr_entries by (cases it) (auto simp: any_repr_def sorted_entries_def)
next
  case (2 it es i) then show ?case using block.repr_status by (cases it) (auto simp: any_repr_def any_block_iterator_def sum_iterator_def EmptyIterator_def)
next
  case (3 it es i) then show ?case using block.repr_Valid by (cases it) (auto simp: any_repr_def any_block_iterator_def sum_iterator_def EmptyIterator_def)
next
  case (4 it es i) then show ?case using block.repr_entry by (cases it) (auto simp: any_repr_def any_block_iterator_def sum_iterator_def)
next
  case (5 it es i) then show ?case using block.repr_SeekToFirst by (cases it) (fastforce simp: any_repr_def any_block_iterator_def sum_iterator_def EmptyIterator_def)+
next
  case (6 it es i) then show ?case using block.repr_SeekToLast by (cases it) (fastforce simp: any_repr_def any_block_iterator_def sum_iterator_def EmptyIterator_def)+
next
  case (7 it es i k) then show ?case using block.repr_Seek by (cases it) (fastforce simp: any_repr_def any_block_iterator_def sum_iterator_def EmptyIterator_def seek_pos_def)+
next
  case (8 it es i) then show ?case using block.repr_Next by (cases it) (fastforce simp: any_repr_def any_block_iterator_def sum_iterator_def)+
next
  case (9 it es i)
  then obtain b where b: "it = Inr b" "block_repr Compare valid b es i" by (cases it) (auto simp: any_repr_def)
  from block.repr_Prev [OF b(2) 9(2)] obtain b' where "v_Prev (block_iterator Compare) b = Some b'" "block_repr Compare valid b' es (if i = 0 then length es else i - 1)" by blast
  then show ?case using b(1) by (auto simp: any_repr_def any_block_iterator_def sum_iterator_def)
qed

end

sublocale key_comparator \<subseteq> any_block: db_iterator "any_block_iterator Compare" Compare valid "any_repr Compare valid"
  by (rule any_block_db_iterator)

interpretation table_blocks: two_level "any_block_iterator (InternalKey_Compare Bytewise_Compare)" "any_block_iterator (InternalKey_Compare Bytewise_Compare)"
    "InternalKey_Compare Bytewise_Compare" valid_internal "any_repr (InternalKey_Compare Bytewise_Compare) valid_internal"
    "any_repr (InternalKey_Compare Bytewise_Compare) valid_internal"
  by unfold_locales

definition block_of_handle :: "(u32 \<Rightarrow> bytes \<Rightarrow> u32) \<Rightarrow> chunk list \<Rightarrow> bytes \<Rightarrow> (bytes \<times> bytes) list" where
  "block_of_handle ext cs h = (case find (\<lambda>i. handle_bytes (chunk_handle ext cs i) = h) [0..<length cs] of None \<Rightarrow> [] | Some i \<Rightarrow> fst (cs ! i))"

lemma data_image_length_mono:
  assumes "i < j" "j \<le> length cs"
  shows "length (data_image ext (take i cs)) < length (data_image ext (take j cs))"
  using assms
proof (induction j)
  case (Suc j)
  then have "take (Suc j) cs = take j cs @ [cs ! j]" by (simp add: take_Suc_conv_app_nth)
  then have "length (data_image ext (take j cs)) < length (data_image ext (take (Suc j) cs))" by (simp add: data_image_append length_stored_block)
  then show ?case using Suc by (cases "i = j") auto
qed simp

lemma block_of_chunk_handle:
  assumes "length (data_image ext cs) < 2 ^ 32" "i < length cs"
  shows "block_of_handle ext cs (handle_bytes (chunk_handle ext cs i)) = fst (cs ! i)"
proof -
  have lt: "length (data_image ext (take j cs)) < 2 ^ 64" if "j < length cs" for j
    using data_image_length_mono [of j "length cs" cs ext] that assms(1) by simp
  have "handle_bytes (chunk_handle ext cs j) \<noteq> handle_bytes (chunk_handle ext cs i)" if "j < i" for j
  proof
    assume "handle_bytes (chunk_handle ext cs j) = handle_bytes (chunk_handle ext cs i)"
    then have "chunk_handle ext cs j = chunk_handle ext cs i" using BlockHandle_DecodeFrom_bytes' by (metis prod.inject)
    then have "(of_nat (length (data_image ext (take j cs))) :: u64) = of_nat (length (data_image ext (take i cs)))" by (simp add: chunk_handle_def)
    then have "length (data_image ext (take j cs)) = length (data_image ext (take i cs))" 
      using unat_of_nat_u64 [OF lt [OF assms(2)]] unat_of_nat_u64 [OF lt [of j]] assms(2) that by simp
    then show False using data_image_length_mono [of j i cs ext] that assms(2) by simp
  qed
  then have "find (\<lambda>j. handle_bytes (chunk_handle ext cs j) = handle_bytes (chunk_handle ext cs i)) [0..<length cs] = Some i"
    unfolding find_Some_iff using assms(2) by (intro exI [of _ i]) auto
  then show ?thesis by (simp add: block_of_handle_def)
qed

context key_comparator
begin

lemma entry_le_last:
  assumes "sorted_entries Compare valid es" "e \<in> set es"
  shows "Compare (fst e) (fst (last es)) \<le> 0"
proof -
  have ne: "es \<noteq> []" using assms(2) by auto
  have so: "sorted_entries Compare valid (butlast es @ [last es])" using assms(1) ne by simp
  show ?thesis
  proof (cases "e \<in> set (butlast es)")
    case True
    then show ?thesis using so by (auto simp: sorted_entries_def sorted_wrt_append)
  next
    case False
    then have "e = last es" using assms(2) ne by (metis Un_iff append_butlast_last_id empty_iff empty_set set_ConsD set_append)
    then show ?thesis using assms Compare_refl [of "fst e"] by (simp add: sorted_entries_def)
  qed
qed

lemma chunks_ordered:
  assumes "sorted_entries Compare valid (chunks_entries cs)" "b < b'" "b' < length cs" "x \<in> set (fst (cs ! b))" "e \<in> set (fst (cs ! b'))"
  shows "Compare (fst x) (fst e) < 0"
proof -
  have "chunks_entries cs = chunks_entries (take b' cs @ drop b' cs)" by simp
  then have "chunks_entries cs = chunks_entries (take b' cs) @ chunks_entries (drop b' cs)" unfolding chunks_entries_def map_append concat_append .
  moreover have "x \<in> set (chunks_entries (take b' cs))" "e \<in> set (chunks_entries (drop b' cs))"
  proof -
    have "take b' cs ! b \<in> set (take b' cs)" by (rule nth_mem) (use assms(2,3) in simp)
    then have "cs ! b \<in> set (take b' cs)" using assms(2) by simp
    then show "x \<in> set (chunks_entries (take b' cs))" using assms(4) by (auto simp: chunks_entries_def)
    have "drop b' cs = cs ! b' # drop (Suc b') cs" using Cons_nth_drop_Suc [OF assms(3)] by simp
    then have "cs ! b' \<in> set (drop b' cs)" by simp
    then show "e \<in> set (chunks_entries (drop b' cs))" using assms(5) by (auto simp: chunks_entries_def)
  qed
  ultimately show ?thesis using assms(1) by (auto simp: sorted_entries_def sorted_wrt_append)
qed

end

lemma two_level_table:
  assumes t: "is_table ext es (fs_contents f) cs ixs" and so: "sorted_entries (InternalKey_Compare Bytewise_Compare) valid_internal es"
    and f: "fs_inv f" "te_Read te = RandomAccessFileImpl_Read" "te_ext te = ext" "ta_file ta = f"
  defines "ies \<equiv> index_entries ext cs (length cs)"
  shows "two_level_ok (any_repr (InternalKey_Compare Bytewise_Compare) valid_internal) (InternalKey_Compare Bytewise_Compare) valid_internal (BlockReader te ta verify)
      (block_of_handle ext cs) ies" and "concat (map (\<lambda>e. block_of_handle ext cs (snd e)) ies) = es"
proof -
  let ?C = "InternalKey_Compare Bytewise_Compare"
  have es: "chunks_entries cs = es" and ne: "\<forall>c \<in> set cs. fst c \<noteq> [] \<and> layout_ok (fst c) (snd c)" using t by (auto simp: is_table_def)
  have lt: "length (data_image ext cs) < 2 ^ 32" using t by (auto simp: is_table_def Let_def)
  have n: "length ies = length cs" by (simp add: ies_def index_entries_def)
  have blk: "block_of_handle ext cs (snd (ies ! b)) = fst (cs ! b)" if "b < length cs" for b
    using block_of_chunk_handle [OF lt that] that by (simp add: ies_def index_entries_def)
  have "map (\<lambda>e. block_of_handle ext cs (snd e)) ies = map fst cs" by (rule nth_equalityI) (simp_all add: n blk)
  then show flat: "concat (map (\<lambda>e. block_of_handle ext cs (snd e)) ies) = es" using es by (simp add: chunks_entries_def)
  have key: "fst (ies ! b) = fst (last (fst (cs ! b)))" if "b < length cs" for b using that by (simp add: ies_def index_entries_def)
  have "sorted_entries ?C valid_internal ies" unfolding ies_def by (rule sorted_entries_index) (use so es ne in auto)
  moreover have "\<exists>d p. BlockReader te ta verify (snd (ies ! b)) = Some d \<and> any_repr ?C valid_internal d (fst (cs ! b)) p" if b: "b < length cs" for b
  proof -
    have "BlockReader te ta verify (snd (ies ! b)) = do { block \<leftarrow> Block_new (chunk_bytes (cs ! b)); Block_NewIterator block }"
      using mem_table_reader.BlockReader_ok [of f te es cs ixs b ta verify] t f b by (simp add: ies_def index_entries_def)
    moreover have "layout_ok (fst (cs ! b)) (snd (cs ! b))" "sorted_entries ?C valid_internal (fst (cs ! b))"
      using ne b chunk_sorted [of ?C valid_internal cs "cs ! b"] so es by auto
    ultimately show ?thesis using Block_NewIterator_ok [of "fst (cs ! b)" "snd (cs ! b)"] by (auto simp: chunk_bytes_def any_repr_def block_repr_def) blast
  qed
  moreover have "?C (fst e) (fst (last (fst (cs ! b)))) \<le> 0" if b: "b < length cs" and e: "e \<in> set (fst (cs ! b))" for b e
    using bytewise_user.ikey.entry_le_last [OF _ e] chunk_sorted [of ?C valid_internal cs "cs ! b"] so es b by simp
  moreover have "?C (fst (last (fst (cs ! b)))) (fst e) < 0" if b: "b' < length cs" "b < b'" and e: "e \<in> set (fst (cs ! b'))" for b b' e
    using bytewise_user.ikey.chunks_ordered [of cs b b' "last (fst (cs ! b))" e] so es b e ne by simp
  ultimately show "two_level_ok (any_repr ?C valid_internal) ?C valid_internal (BlockReader te ta verify) (block_of_handle ext cs) ies"
    unfolding two_level_ok_def flat using so n blk key by auto
qed

text \<open>
  (C9) The iterator of a table is a cursor in its entries. A table is written by the builder and opened as before. After it was
  positioned, every sequence of moves that a cursor in the sorted list of entries allows succeeds and
  leads to the entry at which the cursor stands, across the boundaries of the data blocks in both directions.
\<close>

theorem Table_iterator_refines_cursor:
  fixes address :: u64 and in_scratch :: bool and snappy_uncompress :: "bytes \<Rightarrow> bytes option"
  assumes "plain_options (InternalKey_Compare Bytewise_Compare) opt"
    and "sorted_entries (InternalKey_Compare Bytewise_Compare) valid_internal es" "table_size es < 2 ^ 32"
    and "move \<noteq> MoveNext" "move \<noteq> MovePrev" "\<forall>t. MoveSeek t \<in> set (move # ms) \<longrightarrow> valid_internal t"
    and "moves (move_cursor (InternalKey_Compare Bytewise_Compare) es) (move # ms) 0 = Some i"
  defines "ext \<equiv> Extend (\<lambda>_ _. 0) address"
  defines "te \<equiv> \<lparr>te_ext = ext, te_snappy = snappy_uncompress, te_Read = RandomAccessFileImpl_Read, te_in_scratch = in_scratch\<rparr>"
  shows "\<exists>b b1 b' ta t t'. TableBuilder_new opt FileState_new = Some b
    \<and> table_add_all ext (FileState_Append fresh_block) WritableFile_Flush snappy_compress es b = Some b1
    \<and> TableBuilder_Finish ext (FileState_Append fresh_block) WritableFile_Flush snappy_compress b1 = Some (Status_OK, b')
    \<and> Table_Open te opt (tb_file b') (TableBuilder_FileSize b') = Some (Status_OK, Some ta)
    \<and> Table_NewIterator ta = Some t \<and> moves (move_iterator (table_iterator te ta verify)) (move # ms) t = Some t'
    \<and> observe (table_iterator te ta verify) t' = Some (if i < length es then Some (es ! i) else None)
    \<and> v_status (table_iterator te ta verify) t' = Status_OK"
proof -
  let ?C = "InternalKey_Compare Bytewise_Compare"
  obtain b b1 b' ta cs ixs where w: "TableBuilder_new opt FileState_new = Some b" "table_add_all ext (FileState_Append fresh_block) WritableFile_Flush snappy_compress es b = Some b1"
      "TableBuilder_Finish ext (FileState_Append fresh_block) WritableFile_Flush snappy_compress b1 = Some (Status_OK, b')"
      "Table_Open te opt (tb_file b') (TableBuilder_FileSize b') = Some (Status_OK, Some ta)"
    and r: "fs_inv (tb_file b')" and t: "is_table ext es (fs_contents (tb_file b')) cs ixs"
    and ta: "ta_options ta = opt" "ta_file ta = tb_file b'" "Block_new (block_bytes (index_entries ext cs (length cs)) ixs) = Some (ta_index_block ta)"
    using table_written_and_opened [OF assms(1-3), of address snappy_compress snappy_uncompress in_scratch] by (auto simp: ext_def te_def)
  have te: "te_Read te = RandomAccessFileImpl_Read" "te_ext te = ext" by (simp_all add: te_def)
  note ok = two_level_table(1) [OF t assms(2) r te ta(2), of verify] two_level_table(2) [OF t assms(2) r te ta(2)]
  let ?ies = "index_entries ext cs (length cs)" and ?T = "table_iterator te ta verify"
  have T: "?T = two_level_iterator (any_block_iterator ?C) (any_block_iterator ?C) (BlockReader te ta verify)" and C: "to_compare (ta_options ta) = ?C"
    using assms(1) ta(1) by (simp_all add: table_iterator_def plain_options_def Let_def)
  have "layout_ok ?ies ixs" "sorted_entries ?C valid_internal ?ies" using t ok(1) by (auto simp: is_table_def two_level_ok_def)
  then obtain it where it: "Block_NewIterator (ta_index_block ta) = Some (Inr it)" "any_repr ?C valid_internal (Inr it) ?ies (length ?ies)"
    using Block_NewIterator_ok [of ?ies ixs] ta(3) by (auto simp: any_repr_def block_repr_def)
  obtain tl where tl: "Table_NewIterator ta = Some tl" "tl_inv (any_repr ?C valid_internal) (any_repr ?C valid_internal) (block_of_handle ext cs) ?ies tl (length ?ies)"
    using table_blocks.NewTwoLevelIterator_ok [OF ok(1) it(2)] it(1) C by (auto simp: Table_NewIterator_def)
  have "\<forall>t. move = MoveSeek t \<longrightarrow> valid_internal t" using assms(6) by auto
  from table_blocks.first_move_ok [OF ok(1) tl(2) assms(4,5) this] obtain t1 i1 where 1: "move_iterator ?T move tl = Some t1" "move_cursor ?C es move 0 = Some i1"
    "tl_repr (any_repr ?C valid_internal) (any_repr ?C valid_internal) ?C valid_internal (BlockReader te ta verify) t1 es i1" unfolding T ok(2) by blast
  obtain t' where t': "moves (move_iterator ?T) ms t1 = Some t'" "tl_repr (any_repr ?C valid_internal) (any_repr ?C valid_internal) ?C valid_internal (BlockReader te ta verify) t' es i"
    using table_blocks.flat.moves_refine [OF 1(3), of ms i] assms(6,7) 1(2) unfolding T by auto
  have "moves (move_iterator ?T) (move # ms) tl = Some t'" using 1(1) t'(1) by simp
  then show ?thesis using w tl(1) table_blocks.flat.observe_repr [OF t'(2)] table_blocks.flat.repr_status [OF t'(2)] unfolding T [symmetric] by blast
qed

theorem Table_iterator_refines_cursor_witness:
  "\<exists>b b1 b' ta t t'. TableBuilder_new \<lparr>to_comparator = 0, to_compare = InternalKey_Compare Bytewise_Compare, to_restart_interval = 16, to_block_size = 20,
         to_compression = kNoCompression, to_paranoid_checks = True, to_filter = None\<rparr> FileState_new = Some b
    \<and> table_add_all (Extend (\<lambda>_ _. 0) 0) (FileState_Append fresh_block) WritableFile_Flush (\<lambda>_. None)
         [(InternalKey_new [97] 5 kTypeValue, [1]), (InternalKey_new [97] 3 kTypeValue, [2]), (InternalKey_new [98] 4 kTypeDeletion, [])] b = Some b1
    \<and> TableBuilder_Finish (Extend (\<lambda>_ _. 0) 0) (FileState_Append fresh_block) WritableFile_Flush (\<lambda>_. None) b1 = Some (Status_OK, b')
    \<and> Table_NewIterator ta = Some t
    \<and> moves (move_iterator (table_iterator \<lparr>te_ext = Extend (\<lambda>_ _. 0) 0, te_snappy = (\<lambda>_. None), te_Read = RandomAccessFileImpl_Read, te_in_scratch = True\<rparr> ta True))
         [MoveLast, MovePrev, MovePrev, MoveNext] t = Some t'
    \<and> observe (table_iterator \<lparr>te_ext = Extend (\<lambda>_ _. 0) 0, te_snappy = (\<lambda>_. None), te_Read = RandomAccessFileImpl_Read, te_in_scratch = True\<rparr> ta True) t'
         = Some (Some (InternalKey_new [97] 3 kTypeValue, [2]))"
proof -
  let ?C = "InternalKey_Compare Bytewise_Compare"
  let ?es = "[(InternalKey_new [97] 5 kTypeValue, [1]), (InternalKey_new [97] 3 kTypeValue, [2]), (InternalKey_new [98] 4 kTypeDeletion, [])] :: (bytes \<times> bytes) list"
  let ?opt = "\<lparr>to_comparator = 0, to_compare = ?C, to_restart_interval = 16, to_block_size = 20,
         to_compression = kNoCompression, to_paranoid_checks = True, to_filter = None\<rparr>"
  have p: "plain_options ?C ?opt" by (simp add: plain_options_def)
  have so: "sorted_entries ?C valid_internal ?es"
    by (simp add: sorted_entries_def bytewise_user.internal_less_iff Bytewise_Compare_lex Pack_less_iff kMaxSequenceNumber_def)
  have sz: "table_size ?es < 2 ^ 32" by (simp add: table_size_def entry_size_def InternalKey_new_def AppendInternalKey_def PutFixed64_def size_simps)
  have m: "moves (move_cursor ?C ?es) [MoveLast, MovePrev, MovePrev, MoveNext] 0 = Some 1" by simp
  have ob: "(if 1 < length ?es then Some (?es ! 1) else None) = Some (InternalKey_new [97] 3 kTypeValue, [2])" by simp
  have v: "\<forall>t. MoveSeek t \<in> set [MoveLast, MovePrev, MovePrev, MoveNext] \<longrightarrow> valid_internal t" by simp
  show ?thesis using Table_iterator_refines_cursor [OF p so sz _ _ v m, where address = 0 and in_scratch = True and snappy_uncompress = "\<lambda>_. None"
      and snappy_compress = "\<lambda>_. None" and verify = True] unfolding ob by blast
qed

end
