(* ===== verification/VersionEdit.thy ===== *)
theory VersionEdit
  imports DbFormat Status "HOL-Library.Monad_Syntax"
begin

section \<open>Version edits (db/version_edit.h, db/version_edit.cc)\<close>

text \<open>
  A version edit is a record of the manifest: what changes from one version of the database to the next.
  Levels are the \<open>int\<close>s of the source. The set of deleted files is its elements in the order of \<open>std::set\<close>.
  An internal key is its string; encoding an empty one fails the assertion of \<open>InternalKey::Encode\<close>, which is \<open>None\<close>.
\<close>

record FileMetaData =
  fm_refs :: int
  allowed_seeks :: int
  fm_number :: u64
  file_size :: u64
  smallest :: bytes
  largest :: bytes
  num_keys :: int

definition FileMetaData_new :: FileMetaData where
  "FileMetaData_new = \<lparr>fm_refs = 0, allowed_seeks = 2 ^ 30, fm_number = 0, file_size = 0, smallest = [], largest = [], num_keys = 0\<rparr>"

record VersionEdit =
  ve_comparator :: bytes
  log_number :: u64
  prev_log_number :: u64
  next_file_number :: u64
  last_sequence :: u64
  has_comparator :: bool
  has_log_number :: bool
  has_prev_log_number :: bool
  has_next_file_number :: bool
  has_last_sequence :: bool
  compact_pointers :: "(int \<times> bytes) list"
  deleted_files :: "(int \<times> u64) list"
  new_files :: "(int \<times> FileMetaData) list"

datatype Tag = kComparator | kLogNumber | kNextFileNumber | kLastSequence | kCompactPointer | kDeletedFile | kNewFile | kPrevLogNumber

fun Tag_code :: "Tag \<Rightarrow> u32" where
  "Tag_code kComparator = 1"
| "Tag_code kLogNumber = 2"
| "Tag_code kNextFileNumber = 3"
| "Tag_code kLastSequence = 4"
| "Tag_code kCompactPointer = 5"
| "Tag_code kDeletedFile = 6"
| "Tag_code kNewFile = 7"
| "Tag_code kPrevLogNumber = 9"

definition VersionEdit_Clear :: "VersionEdit \<Rightarrow> VersionEdit" where
  "VersionEdit_Clear this = this\<lparr>
     ve_comparator := [], log_number := 0, prev_log_number := 0, last_sequence := 0, next_file_number := 0,
     has_comparator := False, has_log_number := False, has_prev_log_number := False,
     has_next_file_number := False, has_last_sequence := False,
     deleted_files := [], new_files := []\<rparr>"

text \<open>The constructor starts with empty containers and calls \<open>Clear\<close>.\<close>

definition VersionEdit_new :: VersionEdit where
  "VersionEdit_new = \<lparr>ve_comparator = [], log_number = 0, prev_log_number = 0, next_file_number = 0, last_sequence = 0,
     has_comparator = False, has_log_number = False, has_prev_log_number = False, has_next_file_number = False,
     has_last_sequence = False, compact_pointers = [], deleted_files = [], new_files = []\<rparr>"

definition SetComparatorName :: "bytes \<Rightarrow> VersionEdit \<Rightarrow> VersionEdit" where
  "SetComparatorName name this = this\<lparr>has_comparator := True, ve_comparator := name\<rparr>"

definition SetLogNumber :: "u64 \<Rightarrow> VersionEdit \<Rightarrow> VersionEdit" where
  "SetLogNumber num this = this\<lparr>has_log_number := True, log_number := num\<rparr>"

definition SetPrevLogNumber :: "u64 \<Rightarrow> VersionEdit \<Rightarrow> VersionEdit" where
  "SetPrevLogNumber num this = this\<lparr>has_prev_log_number := True, prev_log_number := num\<rparr>"

definition SetNextFile :: "u64 \<Rightarrow> VersionEdit \<Rightarrow> VersionEdit" where
  "SetNextFile num this = this\<lparr>has_next_file_number := True, next_file_number := num\<rparr>"

definition SetLastSequence :: "u64 \<Rightarrow> VersionEdit \<Rightarrow> VersionEdit" where
  "SetLastSequence seq this = this\<lparr>has_last_sequence := True, last_sequence := seq\<rparr>"

definition SetCompactPointer :: "int \<Rightarrow> bytes \<Rightarrow> VersionEdit \<Rightarrow> VersionEdit" where
  "SetCompactPointer level key this = this\<lparr>compact_pointers := compact_pointers this @ [(level, key)]\<rparr>"

definition AddFile :: "int \<Rightarrow> u64 \<Rightarrow> u64 \<Rightarrow> bytes \<Rightarrow> bytes \<Rightarrow> VersionEdit \<Rightarrow> VersionEdit" where
  "AddFile level file fsize small large this =
     (let f = FileMetaData_new\<lparr>fm_number := file, file_size := fsize, smallest := small, largest := large\<rparr>
      in this\<lparr>new_files := new_files this @ [(level, f)]\<rparr>)"

text \<open>Insertion into \<open>std::set<std::pair<int, uint64_t>>\<close>, by its elements in order.\<close>

definition pair_less :: "int \<times> u64 \<Rightarrow> int \<times> u64 \<Rightarrow> bool" where
  "pair_less x y \<longleftrightarrow> fst x < fst y \<or> fst x = fst y \<and> snd x < snd y"

fun set_insert :: "int \<times> u64 \<Rightarrow> (int \<times> u64) list \<Rightarrow> (int \<times> u64) list" where
  "set_insert x [] = [x]"
| "set_insert x (y # ys) = (if x = y then y # ys else if pair_less x y then x # y # ys else y # set_insert x ys)"

definition Edit_DeleteFile :: "int \<Rightarrow> u64 \<Rightarrow> VersionEdit \<Rightarrow> VersionEdit" where
  "Edit_DeleteFile level file this = this\<lparr>deleted_files := set_insert (level, file) (deleted_files this)\<rparr>"

subsection \<open>Encoding\<close>

definition InternalKey_Encode :: "bytes \<Rightarrow> bytes option" where
  "InternalKey_Encode rep = (if rep = [] then None else Some rep)"

fun encode_compact_pointers :: "bytes \<Rightarrow> (int \<times> bytes) list \<Rightarrow> bytes option" where
  "encode_compact_pointers dst [] = Some dst"
| "encode_compact_pointers dst ((level, key) # ps) =
     do { k \<leftarrow> InternalKey_Encode key;
          encode_compact_pointers
            (PutLengthPrefixedSlice (PutVarint32 (PutVarint32 dst (Tag_code kCompactPointer)) (word_of_int level)) k) ps }"

fun encode_deleted_files :: "bytes \<Rightarrow> (int \<times> u64) list \<Rightarrow> bytes" where
  "encode_deleted_files dst [] = dst"
| "encode_deleted_files dst ((level, number) # ds) =
     encode_deleted_files (PutVarint64 (PutVarint32 (PutVarint32 dst (Tag_code kDeletedFile)) (word_of_int level)) number) ds"

fun encode_new_files :: "bytes \<Rightarrow> (int \<times> FileMetaData) list \<Rightarrow> bytes option" where
  "encode_new_files dst [] = Some dst"
| "encode_new_files dst ((level, f) # fs) =
     do { s \<leftarrow> InternalKey_Encode (smallest f);
          l \<leftarrow> InternalKey_Encode (largest f);
          encode_new_files
            (PutLengthPrefixedSlice (PutLengthPrefixedSlice
              (PutVarint64 (PutVarint64 (PutVarint32 (PutVarint32 dst (Tag_code kNewFile)) (word_of_int level)) (fm_number f))
                (file_size f)) s) l) fs }"

definition EncodeTo :: "VersionEdit \<Rightarrow> bytes \<Rightarrow> bytes option" where
  "EncodeTo this dst =
     (let dst = (if has_comparator this then PutLengthPrefixedSlice (PutVarint32 dst (Tag_code kComparator)) (ve_comparator this) else dst);
          dst = (if has_log_number this then PutVarint64 (PutVarint32 dst (Tag_code kLogNumber)) (log_number this) else dst);
          dst = (if has_prev_log_number this then PutVarint64 (PutVarint32 dst (Tag_code kPrevLogNumber)) (prev_log_number this) else dst);
          dst = (if has_next_file_number this then PutVarint64 (PutVarint32 dst (Tag_code kNextFileNumber)) (next_file_number this) else dst);
          dst = (if has_last_sequence this then PutVarint64 (PutVarint32 dst (Tag_code kLastSequence)) (last_sequence this) else dst)
      in do { dst \<leftarrow> encode_compact_pointers dst (compact_pointers this);
              encode_new_files (encode_deleted_files dst (deleted_files this)) (new_files this) })"

subsection \<open>Decoding\<close>

definition GetInternalKey :: "bytes \<Rightarrow> (bytes \<times> bytes) option" where
  "GetInternalKey input = GetLengthPrefixedSlice input"

definition GetLevel :: "bytes \<Rightarrow> (int \<times> bytes) option" where
  "GetLevel input =
     do { (v, input) \<leftarrow> GetVarint32 input;
          if unat v < kNumLevels then Some (uint v, input) else None }"

text \<open>One round of the switch: an error message, or the edit with what was read and the rest of the input.\<close>

definition read_or :: "string \<Rightarrow> 'a option \<Rightarrow> string + 'a" where
  "read_or msg r = (case r of None \<Rightarrow> Inl msg | Some x \<Rightarrow> Inr x)"

definition decode_field :: "u32 \<Rightarrow> bytes \<Rightarrow> VersionEdit \<Rightarrow> string + VersionEdit \<times> bytes" where
  "decode_field tag input this =
     (if tag = Tag_code kComparator then
        read_or ''comparator name'' (do { (s, input) \<leftarrow> GetLengthPrefixedSlice input;
          Some (this\<lparr>ve_comparator := s, has_comparator := True\<rparr>, input) })
      else if tag = Tag_code kLogNumber then
        read_or ''log number'' (do { (n, input) \<leftarrow> GetVarint64 input;
          Some (this\<lparr>log_number := n, has_log_number := True\<rparr>, input) })
      else if tag = Tag_code kPrevLogNumber then
        read_or ''previous log number'' (do { (n, input) \<leftarrow> GetVarint64 input;
          Some (this\<lparr>prev_log_number := n, has_prev_log_number := True\<rparr>, input) })
      else if tag = Tag_code kNextFileNumber then
        read_or ''next file number'' (do { (n, input) \<leftarrow> GetVarint64 input;
          Some (this\<lparr>next_file_number := n, has_next_file_number := True\<rparr>, input) })
      else if tag = Tag_code kLastSequence then
        read_or ''last sequence number'' (do { (n, input) \<leftarrow> GetVarint64 input;
          Some (this\<lparr>last_sequence := n, has_last_sequence := True\<rparr>, input) })
      else if tag = Tag_code kCompactPointer then
        read_or ''compaction pointer'' (do { (level, input) \<leftarrow> GetLevel input; (key, input) \<leftarrow> GetInternalKey input;
          Some (this\<lparr>compact_pointers := compact_pointers this @ [(level, key)]\<rparr>, input) })
      else if tag = Tag_code kDeletedFile then
        read_or ''deleted file'' (do { (level, input) \<leftarrow> GetLevel input; (number, input) \<leftarrow> GetVarint64 input;
          Some (this\<lparr>deleted_files := set_insert (level, number) (deleted_files this)\<rparr>, input) })
      else if tag = Tag_code kNewFile then
        read_or ''new-file entry'' (do { (level, input) \<leftarrow> GetLevel input; (number, input) \<leftarrow> GetVarint64 input;
          (fsize, input) \<leftarrow> GetVarint64 input; (small, input) \<leftarrow> GetInternalKey input; (large, input) \<leftarrow> GetInternalKey input;
          Some (this\<lparr>new_files := new_files this @ [(level,
            FileMetaData_new\<lparr>fm_number := number, file_size := fsize, smallest := small, largest := large\<rparr>)]\<rparr>, input) })
      else Inl ''unknown tag'')"

lemma decode_field_shorter: "decode_field tag input this = Inr (this', rest) \<Longrightarrow> length rest \<le> length input"
  by (auto simp: decode_field_def read_or_def GetLevel_def GetInternalKey_def split: option.splits if_splits bind_splits
      dest!: GetVarint32_shorter GetVarint64_shorter GetLengthPrefixedSlice_shorter)

function DecodeFrom_loop :: "VersionEdit \<Rightarrow> bytes \<Rightarrow> string option \<times> VersionEdit" where
  "DecodeFrom_loop this input =
     (case GetVarint32 input of
        None \<Rightarrow> (if input \<noteq> [] then Some ''invalid tag'' else None, this)
      | Some (tag, input) \<Rightarrow>
          (case decode_field tag input this of
             Inl msg \<Rightarrow> (Some msg, this)
           | Inr (this, input) \<Rightarrow> DecodeFrom_loop this input))"
  by pat_completeness auto
termination
  by (relation "measure (\<lambda>(this, input). length input)") (auto dest!: GetVarint32_shorter decode_field_shorter)

declare DecodeFrom_loop.simps [simp del]

definition VersionEdit_DecodeFrom :: "VersionEdit \<Rightarrow> bytes \<Rightarrow> Status \<times> VersionEdit" where
  "VersionEdit_DecodeFrom this src =
     (case DecodeFrom_loop (VersionEdit_Clear this) src of
        (None, this) \<Rightarrow> (Status_OK, this)
      | (Some msg, this) \<Rightarrow> (Corruption (bytes_of_string ''VersionEdit'') (bytes_of_string msg), this))"

subsection \<open>An edit as a list of fields\<close>

datatype field = FComparator bytes | FLog u64 | FPrevLog u64 | FNextFile u64 | FLastSequence u64
  | FPointer int bytes | FDeleted int u64 | FNew int u64 u64 bytes bytes

fun field_bytes :: "field \<Rightarrow> bytes" where
  "field_bytes (FComparator s) = EncodeVarint32 (Tag_code kComparator) @ EncodeVarint32 (of_nat (length s)) @ s"
| "field_bytes (FLog n) = EncodeVarint32 (Tag_code kLogNumber) @ EncodeVarint64 n"
| "field_bytes (FPrevLog n) = EncodeVarint32 (Tag_code kPrevLogNumber) @ EncodeVarint64 n"
| "field_bytes (FNextFile n) = EncodeVarint32 (Tag_code kNextFileNumber) @ EncodeVarint64 n"
| "field_bytes (FLastSequence n) = EncodeVarint32 (Tag_code kLastSequence) @ EncodeVarint64 n"
| "field_bytes (FPointer l k) = EncodeVarint32 (Tag_code kCompactPointer) @ EncodeVarint32 (word_of_int l)
     @ EncodeVarint32 (of_nat (length k)) @ k"
| "field_bytes (FDeleted l n) = EncodeVarint32 (Tag_code kDeletedFile) @ EncodeVarint32 (word_of_int l) @ EncodeVarint64 n"
| "field_bytes (FNew l n z s g) = EncodeVarint32 (Tag_code kNewFile) @ EncodeVarint32 (word_of_int l) @ EncodeVarint64 n
     @ EncodeVarint64 z @ EncodeVarint32 (of_nat (length s)) @ s @ EncodeVarint32 (of_nat (length g)) @ g"

fun field_tag :: "field \<Rightarrow> Tag" where
  "field_tag (FComparator s) = kComparator"
| "field_tag (FLog n) = kLogNumber"
| "field_tag (FPrevLog n) = kPrevLogNumber"
| "field_tag (FNextFile n) = kNextFileNumber"
| "field_tag (FLastSequence n) = kLastSequence"
| "field_tag (FPointer l k) = kCompactPointer"
| "field_tag (FDeleted l n) = kDeletedFile"
| "field_tag (FNew l n z s g) = kNewFile"

fun set_field :: "field \<Rightarrow> VersionEdit \<Rightarrow> VersionEdit" where
  "set_field (FComparator s) e = SetComparatorName s e"
| "set_field (FLog n) e = SetLogNumber n e"
| "set_field (FPrevLog n) e = SetPrevLogNumber n e"
| "set_field (FNextFile n) e = SetNextFile n e"
| "set_field (FLastSequence n) e = SetLastSequence n e"
| "set_field (FPointer l k) e = SetCompactPointer l k e"
| "set_field (FDeleted l n) e = Edit_DeleteFile l n e"
| "set_field (FNew l n z s g) e = AddFile l n z s g e"

definition level_ok :: "int \<Rightarrow> bool" where
  "level_ok l \<longleftrightarrow> 0 \<le> l \<and> l < int kNumLevels"

fun field_ok :: "field \<Rightarrow> bool" where
  "field_ok (FComparator s) = (length s < 2 ^ 32)"
| "field_ok (FPointer l k) = (level_ok l \<and> k \<noteq> [] \<and> length k < 2 ^ 32)"
| "field_ok (FDeleted l n) = level_ok l"
| "field_ok (FNew l n z s g) = (level_ok l \<and> s \<noteq> [] \<and> length s < 2 ^ 32 \<and> g \<noteq> [] \<and> length g < 2 ^ 32)"
| "field_ok _ = True"

lemma GetLevel_Encode: "level_ok l \<Longrightarrow> GetLevel (EncodeVarint32 (word_of_int l) @ rest) = Some (l, rest)"
proof -
  assume l: "level_ok l"
  then have "uint (word_of_int l :: u32) = l" by (simp add: level_ok_def kNumLevels_def uint_word_of_int)
  moreover from this have "unat (word_of_int l :: u32) = nat l" by (metis nat_uint_eq)
  then have "unat (word_of_int l :: u32) < kNumLevels" using l unfolding level_ok_def by linarith
  ultimately show ?thesis by (simp add: GetLevel_def codec_simps)
qed

lemma decode_field_bytes:
  assumes "field_ok f"
  shows "\<exists>bs. field_bytes f @ rest = EncodeVarint32 (Tag_code (field_tag f)) @ bs
    \<and> decode_field (Tag_code (field_tag f)) bs e = Inr (set_field f e, rest)"
  using assms
  by (cases f) (simp_all add: decode_field_def read_or_def codec_simps GetLevel_Encode GetInternalKey_def
      SetComparatorName_def SetLogNumber_def SetPrevLogNumber_def SetNextFile_def SetLastSequence_def SetCompactPointer_def
      Edit_DeleteFile_def AddFile_def Let_def)

lemma DecodeFrom_loop_fields:
  "\<forall>f \<in> set fs. field_ok f \<Longrightarrow> DecodeFrom_loop e (concat (map field_bytes fs)) = (None, fold set_field fs e)"
proof (induction fs arbitrary: e)
  case Nil
  show ?case by (subst DecodeFrom_loop.simps) (simp add: GetVarint32_def GetVarint32Ptr_def GetVarint32PtrFallback_def GetVarint32_loop.simps)
next
  case (Cons f fs)
  obtain bs where "field_bytes f @ concat (map field_bytes fs) = EncodeVarint32 (Tag_code (field_tag f)) @ bs"
      "decode_field (Tag_code (field_tag f)) bs e = Inr (set_field f e, concat (map field_bytes fs))"
    using decode_field_bytes [of f "concat (map field_bytes fs)" e] Cons.prems by auto
  then show ?case using Cons by (subst DecodeFrom_loop.simps) (simp add: codec_simps)
qed

text \<open>The fields that \<open>EncodeTo\<close> writes.\<close>

definition fields_of :: "VersionEdit \<Rightarrow> field list" where
  "fields_of e = (if has_comparator e then [FComparator (ve_comparator e)] else [])
     @ (if has_log_number e then [FLog (log_number e)] else [])
     @ (if has_prev_log_number e then [FPrevLog (prev_log_number e)] else [])
     @ (if has_next_file_number e then [FNextFile (next_file_number e)] else [])
     @ (if has_last_sequence e then [FLastSequence (last_sequence e)] else [])
     @ map (\<lambda>(l, k). FPointer l k) (compact_pointers e) @ map (\<lambda>(l, n). FDeleted l n) (deleted_files e)
     @ map (\<lambda>(l, f). FNew l (fm_number f) (file_size f) (smallest f) (largest f)) (new_files e)"

lemma encode_compact_pointers_fields:
  "\<forall>(l, k) \<in> set ps. k \<noteq> [] \<Longrightarrow> encode_compact_pointers dst ps = Some (dst @ concat (map (field_bytes \<circ> (\<lambda>(l, k). FPointer l k)) ps))"
  by (induction dst ps rule: encode_compact_pointers.induct)
    (auto simp: InternalKey_Encode_def PutVarint32_def PutLengthPrefixedSlice_append)

lemma encode_deleted_files_fields:
  "encode_deleted_files dst ds = dst @ concat (map (field_bytes \<circ> (\<lambda>(l, n). FDeleted l n)) ds)"
  by (induction dst ds rule: encode_deleted_files.induct) (simp_all add: PutVarint32_def PutVarint64_def)

lemma encode_new_files_fields:
  "\<forall>(l, f) \<in> set fs. smallest f \<noteq> [] \<and> largest f \<noteq> [] \<Longrightarrow> encode_new_files dst fs =
    Some (dst @ concat (map (field_bytes \<circ> (\<lambda>(l, f). FNew l (fm_number f) (file_size f) (smallest f) (largest f))) fs))"
  by (induction dst fs rule: encode_new_files.induct)
    (auto simp: InternalKey_Encode_def PutVarint32_def PutVarint64_def PutLengthPrefixedSlice_append)

lemma fields_ok_iff:
  "(\<forall>f \<in> set (fields_of e). field_ok f) \<longleftrightarrow> (has_comparator e \<longrightarrow> length (ve_comparator e) < 2 ^ 32)
    \<and> (\<forall>(l, k) \<in> set (compact_pointers e). field_ok (FPointer l k)) \<and> (\<forall>(l, n) \<in> set (deleted_files e). level_ok l)
    \<and> (\<forall>(l, f) \<in> set (new_files e). field_ok (FNew l (fm_number f) (file_size f) (smallest f) (largest f)))"
  by (simp add: fields_of_def ball_Un split: if_splits prod.splits)

lemma EncodeTo_fields:
  assumes "\<forall>f \<in> set (fields_of e). field_ok f"
  shows "EncodeTo e dst = Some (dst @ concat (map field_bytes (fields_of e)))"
proof -
  have "\<forall>(l, k) \<in> set (compact_pointers e). k \<noteq> []" "\<forall>(l, f) \<in> set (new_files e). smallest f \<noteq> [] \<and> largest f \<noteq> []"
    using assms unfolding fields_ok_iff by auto
  then show ?thesis
    by (simp add: EncodeTo_def Let_def encode_compact_pointers_fields encode_deleted_files_fields encode_new_files_fields)
      (simp add: fields_of_def PutVarint32_def PutVarint64_def PutLengthPrefixedSlice_append)
qed

subsection \<open>Edits that were built by their setters\<close>

definition edit_ok :: "VersionEdit \<Rightarrow> bool" where
  "edit_ok e \<longleftrightarrow> (\<forall>f \<in> set (fields_of e). field_ok f) \<and> sorted_wrt pair_less (deleted_files e)
     \<and> (\<forall>(l, f) \<in> set (new_files e). f = FileMetaData_new\<lparr>fm_number := fm_number f, file_size := file_size f, smallest := smallest f, largest := largest f\<rparr>)
     \<and> (\<not> has_comparator e \<longrightarrow> ve_comparator e = []) \<and> (\<not> has_log_number e \<longrightarrow> log_number e = 0)
     \<and> (\<not> has_prev_log_number e \<longrightarrow> prev_log_number e = 0) \<and> (\<not> has_next_file_number e \<longrightarrow> next_file_number e = 0)
     \<and> (\<not> has_last_sequence e \<longrightarrow> last_sequence e = 0)"

lemma set_set_insert: "set (set_insert x xs) = insert x (set xs)"
  by (induction xs) auto

lemma pair_less_trans: "pair_less x y \<Longrightarrow> pair_less y z \<Longrightarrow> pair_less x z"
  by (auto simp: pair_less_def)

lemma pair_less_linear: "pair_less x y \<or> x = y \<or> pair_less y x"
  by (auto simp: pair_less_def prod_eq_iff)

lemma set_insert_sorted: "sorted_wrt pair_less xs \<Longrightarrow> sorted_wrt pair_less (set_insert x xs)"
proof (induction xs)
  case (Cons y ys)
  then show ?case using pair_less_trans [of x y] pair_less_linear [of x y] by (auto simp: set_set_insert)
qed simp

lemma set_insert_last: "\<forall>y \<in> set ys. pair_less y x \<Longrightarrow> set_insert x ys = ys @ [x]"
  by (induction ys) (auto simp: pair_less_def)

lemma fold_set_insert: "sorted_wrt pair_less (ys @ xs) \<Longrightarrow> fold set_insert xs ys = ys @ xs"
  by (induction xs arbitrary: ys) (simp_all add: sorted_wrt_append set_insert_last)

lemma edit_ok_new: "edit_ok VersionEdit_new"
  by (simp add: edit_ok_def VersionEdit_new_def fields_of_def)

lemma edit_ok_set_field: "edit_ok e \<Longrightarrow> field_ok f \<Longrightarrow> edit_ok (set_field f e)"
  by (cases f) (auto simp: edit_ok_def fields_ok_iff set_set_insert set_insert_sorted FileMetaData_new_def
      SetComparatorName_def SetLogNumber_def SetPrevLogNumber_def SetNextFile_def SetLastSequence_def SetCompactPointer_def
      Edit_DeleteFile_def AddFile_def Let_def)

lemma edit_ok_set_fields: "edit_ok e \<Longrightarrow> \<forall>f \<in> set fs. field_ok f \<Longrightarrow> edit_ok (fold set_field fs e)"
  by (induction fs arbitrary: e) (simp_all add: edit_ok_set_field)

lemma fold_pointers:
  "fold set_field (map (\<lambda>(l, k). FPointer l k) ps) e = e\<lparr>compact_pointers := compact_pointers e @ ps\<rparr>"
  by (induction ps arbitrary: e) (auto simp: SetCompactPointer_def)

lemma fold_deleted:
  "fold set_field (map (\<lambda>(l, n). FDeleted l n) ds) e = e\<lparr>deleted_files := fold set_insert ds (deleted_files e)\<rparr>"
  by (induction ds arbitrary: e) (auto simp: Edit_DeleteFile_def)

lemma fold_new:
  "fold set_field (map (\<lambda>(l, f). FNew l (fm_number f) (file_size f) (smallest f) (largest f)) fs) e =
    e\<lparr>new_files := new_files e @ map (\<lambda>(l, f). (l, FileMetaData_new\<lparr>fm_number := fm_number f, file_size := file_size f, smallest := smallest f, largest := largest f\<rparr>)) fs\<rparr>"
  by (induction fs arbitrary: e) (auto simp: AddFile_def Let_def)

lemma fold_fields:
  assumes "edit_ok e"
  shows "fold set_field (fields_of e) (VersionEdit_Clear e0) = e\<lparr>compact_pointers := compact_pointers e0 @ compact_pointers e\<rparr>"
proof -
  have "map (\<lambda>(l, f). (l, FileMetaData_new\<lparr>fm_number := fm_number f, file_size := file_size f, smallest := smallest f, largest := largest f\<rparr>)) (new_files e) = new_files e"
    using assms by (intro map_idI) (auto simp: edit_ok_def)
  moreover have "fold set_insert (deleted_files e) [] = deleted_files e" using assms fold_set_insert [of "[]"] by (simp add: edit_ok_def)
  moreover have "fold set_field (if b then [x] else []) y = (if b then set_field x y else y)" for b x y by simp
  ultimately show ?thesis using assms
    by (simp add: fields_of_def fold_pointers fold_deleted fold_new split del: if_split)
      (rule VersionEdit.equality; simp add: edit_ok_def VersionEdit_Clear_def SetComparatorName_def SetLogNumber_def SetPrevLogNumber_def SetNextFile_def SetLastSequence_def)
qed

text \<open>
  (C14) The manifest keeps version edits. An edit that was built by its setters, in any order and with valid levels and
  keys, is encoded, and decoding the bytes reports success and gives all its fields back. The edit object that is
  decoded into loses what it held before, except for its compaction pointers: \<open>Clear\<close> does not remove them.
\<close>

theorem VersionEdit_roundtrip:
  assumes "\<forall>f \<in> set fs. field_ok f"
  defines "e \<equiv> fold set_field fs VersionEdit_new"
  shows "\<exists>bs. EncodeTo e [] = Some bs
    \<and> VersionEdit_DecodeFrom e0 bs = (Status_OK, e\<lparr>compact_pointers := compact_pointers e0 @ compact_pointers e\<rparr>)"
proof -
  have ok: "edit_ok e" unfolding e_def by (rule edit_ok_set_fields [OF edit_ok_new assms(1)])
  then have f: "\<forall>f \<in> set (fields_of e). field_ok f" by (simp add: edit_ok_def)
  show ?thesis by (simp add: EncodeTo_fields [OF f] VersionEdit_DecodeFrom_def DecodeFrom_loop_fields [OF f] fold_fields [OF ok])
qed

theorem VersionEdit_roundtrip_witness:
  "\<exists>bs. EncodeTo (AddFile 2 7 4096 [97, 1, 0, 0, 0, 0, 0, 0, 0] [99, 1, 0, 0, 0, 0, 0, 0, 0] (Edit_DeleteFile 1 5 (SetLogNumber 6 VersionEdit_new))) [] = Some bs
    \<and> VersionEdit_DecodeFrom (SetCompactPointer 1 [98] VersionEdit_new) bs =
       (Status_OK, (AddFile 2 7 4096 [97, 1, 0, 0, 0, 0, 0, 0, 0] [99, 1, 0, 0, 0, 0, 0, 0, 0] (Edit_DeleteFile 1 5 (SetLogNumber 6 VersionEdit_new)))\<lparr>compact_pointers := [(1, [98])]\<rparr>)"
  using VersionEdit_roundtrip [of "[FLog 6, FDeleted 1 5, FNew 2 7 4096 [97, 1, 0, 0, 0, 0, 0, 0, 0] [99, 1, 0, 0, 0, 0, 0, 0, 0]]" "SetCompactPointer 1 [98] VersionEdit_new"]
  by (simp add: level_ok_def kNumLevels_def) (simp add: SetCompactPointer_def VersionEdit_new_def AddFile_def Edit_DeleteFile_def SetLogNumber_def Let_def)

definition edit_levels :: "VersionEdit \<Rightarrow> int set" where
  "edit_levels e = fst ` set (compact_pointers e) \<union> fst ` set (deleted_files e) \<union> fst ` set (new_files e)"

lemma edit_levels_update [simp]:
  "edit_levels (e\<lparr>ve_comparator := s, has_comparator := b\<rparr>) = edit_levels e"
  "edit_levels (e\<lparr>log_number := n, has_log_number := b\<rparr>) = edit_levels e"
  "edit_levels (e\<lparr>prev_log_number := n, has_prev_log_number := b\<rparr>) = edit_levels e"
  "edit_levels (e\<lparr>next_file_number := n, has_next_file_number := b\<rparr>) = edit_levels e"
  "edit_levels (e\<lparr>last_sequence := n, has_last_sequence := b\<rparr>) = edit_levels e"
  "edit_levels (e\<lparr>compact_pointers := compact_pointers e @ [(l, k)]\<rparr>) = insert l (edit_levels e)"
  "edit_levels (e\<lparr>deleted_files := set_insert (l, n) (deleted_files e)\<rparr>) = insert l (edit_levels e)"
  "edit_levels (e\<lparr>new_files := new_files e @ [(l, f)]\<rparr>) = insert l (edit_levels e)"
  by (simp_all add: edit_levels_def set_set_insert)

lemma GetLevel_level_ok:
  assumes "GetLevel i = Some (l, r)"
  shows "level_ok l"
proof -
  obtain v :: u32 where v: "unat v < kNumLevels" "l = uint v" using assms by (auto simp: GetLevel_def split: bind_splits if_splits)
  have "uint v = int (unat v)" by simp
  then show ?thesis unfolding level_ok_def v(2) using v(1) by linarith
qed

lemma decode_field_levels:
  assumes "decode_field tag input e = Inr (e', rest)" "\<forall>l \<in> edit_levels e. level_ok l"
  shows "\<forall>l \<in> edit_levels e'. level_ok l"
  using assms
  by (auto simp: decode_field_def read_or_def bind_eq_Some_conv split: if_splits option.splits dest: GetLevel_level_ok)

lemma DecodeFrom_loop_levels:
  "\<forall>l \<in> edit_levels e. level_ok l \<Longrightarrow> DecodeFrom_loop e input = (m, e') \<Longrightarrow> \<forall>l \<in> edit_levels e'. level_ok l"
proof (induction e input rule: DecodeFrom_loop.induct)
  case (1 e input)
  show ?case
  proof (cases "GetVarint32 input")
    case None
    then show ?thesis using 1(2,3) by (simp add: DecodeFrom_loop.simps [of e input])
  next
    case (Some p)
    obtain tag rest where p: "p = (tag, rest)" by fastforce
    show ?thesis
    proof (cases "decode_field tag rest e")
      case (Inl msg)
      then show ?thesis using 1(2,3) Some p by (simp add: DecodeFrom_loop.simps [of e input])
    next
      case (Inr q)
      obtain e1 rest1 where q: "q = (e1, rest1)" by fastforce
      have "DecodeFrom_loop e1 rest1 = (m, e')" using 1(3) Some Inr p q by (simp add: DecodeFrom_loop.simps [of e input])
      moreover have "\<forall>l \<in> edit_levels e1. level_ok l" by (rule decode_field_levels [OF Inr [unfolded q] 1(2)])
      ultimately show ?thesis using 1(1) [OF Some p [symmetric] Inr q [symmetric]] by blast
    qed
  qed
qed

text \<open>
  (C15) Decoding a manifest record never yields a level outside the arrays of the version set, on arbitrary bytes and
  whether it reports an error or not.
\<close>

theorem VersionEdit_DecodeFrom_levels:
  assumes "VersionEdit_DecodeFrom VersionEdit_new src = (st, e)"
  shows "(\<forall>(l, k) \<in> set (compact_pointers e). 0 \<le> l \<and> l < int kNumLevels)
    \<and> (\<forall>(l, n) \<in> set (deleted_files e). 0 \<le> l \<and> l < int kNumLevels)
    \<and> (\<forall>(l, f) \<in> set (new_files e). 0 \<le> l \<and> l < int kNumLevels)"
proof -
  obtain m where "DecodeFrom_loop (VersionEdit_Clear VersionEdit_new) src = (m, e)"
    using assms by (auto simp: VersionEdit_DecodeFrom_def split: prod.splits option.splits)
  moreover have "edit_levels (VersionEdit_Clear VersionEdit_new) = {}" by (simp add: edit_levels_def VersionEdit_Clear_def VersionEdit_new_def)
  ultimately have "\<forall>l \<in> edit_levels e. level_ok l" using DecodeFrom_loop_levels by fastforce
  then show ?thesis by (simp add: edit_levels_def level_ok_def ball_Un split_beta)
qed

theorem VersionEdit_DecodeFrom_levels_witness:
  "VersionEdit_DecodeFrom VersionEdit_new [6, 3, 9, 6, 8, 9] =
     (Corruption (bytes_of_string ''VersionEdit'') (bytes_of_string ''deleted file''), VersionEdit_new\<lparr>deleted_files := [(3, 9)]\<rparr>)
   \<and> 0 \<le> (3 :: int) \<and> 3 < int kNumLevels"
proof -
  have "VersionEdit_DecodeFrom VersionEdit_new [6, 3, 9, 6, 8, 9] =
     (Corruption (bytes_of_string ''VersionEdit'') (bytes_of_string ''deleted file''), VersionEdit_new\<lparr>deleted_files := [(3, 9)]\<rparr>)"
    by code_simp
  with VersionEdit_DecodeFrom_levels [OF this] show ?thesis by simp
qed

end
