(* ===== verification/Spec2Isabelle.thy ===== *)
theory Spec2Isabelle
  imports Arena FileName LearnedIndex LogReader MemTable Merger TwoLevel VersionEdit
begin

text \<open>
  \<^bold>\<open>What the program is.\<close> Bourbon is a log-structured key-value store: LevelDB, with the values moved
  to a log of their own and with piecewise linear models that predict where a key lies in a sorted
  file. A write is encoded as a batch (\<open>db/write_batch.cc\<close>), appended to the write-ahead log
  (\<open>db/log_writer.cc\<close>) and inserted into a memtable (\<open>db/memtable.cc\<close>), which is a skip list
  (\<open>db/skiplist.h\<close>) of entries in an arena (\<open>util/arena.cc\<close>). Full memtables become sorted tables
  (\<open>table/table_builder.cc\<close>): data blocks, a filter block, an index block and a footer. The set of
  tables is recorded as version edits (\<open>db/version_edit.cc\<close>) in a manifest, which is again a log. A
  read looks into the memtables and then into the tables of a version; a file model, when there is
  one, replaces the search in the index block (\<open>mod/learned_index.cpp\<close>, \<open>mod/plr.cpp\<close>).

  \<^bold>\<open>Conventions.\<close> Bytes are \<^typ>\<open>8 word\<close>, buffers, strings and slices are lists of them, and unsigned
  integers keep their width, so that additions wrap as in the source. A pointer into a buffer is an
  offset or the rest of the buffer, an object on the heap is an index into a list. Operations take
  the object as an argument and return it updated. Results of type \<open>option\<close> are \<^const>\<open>None\<close> where the
  code reads out of bounds, uses a freed or null object, violates an assertion or does not return;
  statuses are values of the datatype of \<open>Status\<close>. Code outside the repository is an argument: the
  rounding of double arithmetic, the hardware checksum, Snappy, the allocator, the files.

  \<^bold>\<open>Theories, in the order of the dependencies.\<close>
  \<^item> \<open>Prelude\<close>: types, collections of lemmas and generic facts on lists, options and words.
  \<^item> \<open>Coding\<close> (\<open>util/coding.cc\<close>): fixed and variable length integers and length-prefixed slices; round
    trips, reserved lengths, and that decoding stops at the limit.
  \<^item> \<open>Comparator\<close>, \<open>DbFormat\<close> (\<open>include/leveldb/slice.h\<close>, \<open>util/comparator.cc\<close>, \<open>db/dbformat.cc\<close>): the
    comparator interface as the locale \<open>key_comparator\<close> and the user comparator as \<open>user_comparator\<close>,
    both interpreted on the bytewise comparator; internal keys, whose comparator is a sublocale
    again; separators lie between their keys, newer entries sort first.
  \<^item> \<open>Doubles\<close>, \<open>Plr\<close>, \<open>KeyNumbers\<close>, \<open>LearnedIndex\<close> (\<open>mod/plr.cpp\<close>, \<open>mod/util.cpp\<close>,
    \<open>mod/learned_index.cpp\<close>): the greedy regression as a state machine over extended doubles with
    an explicit rounding function, training, prediction, the learning jobs and the search of a
    level model. With exact arithmetic every trained key is predicted within the error bound.
  \<^item> \<open>Bloom\<close>, \<open>FilterBlock\<close> (\<open>util/hash.cc\<close>, \<open>util/bloom.cc\<close>, \<open>table/filter_block.cc\<close>): hash, filter and
    filter block; the policy is the locale \<open>filter_policy\<close>. No false negatives, reads in bounds.
  \<^item> \<open>Crc32cTables\<close>, \<open>Crc32c\<close> (\<open>util/crc32c.cc\<close>): the tables, the strided loop and the masking; equal to
    bitwise polynomial division for every buffer and every address.
  \<^item> \<open>Logging\<close>, \<open>FileName\<close>, \<open>Status\<close> (\<open>util/logging.cc\<close>, \<open>db/filename.cc\<close>, \<open>util/status.cc\<close>): decimal
    printing and parsing with the overflow check, names of files and their parser, statuses.
  \<^item> \<open>FileInterface\<close>, \<open>MemEnv\<close> (\<open>include/leveldb/env.h\<close>, \<open>helpers/memenv/memenv.cc\<close>): the file
    interfaces as locales, interpreted on the in-memory environment, whose heap of counted file
    states is shown free of dangling pointers and whose blocks implement byte sequences.
  \<^item> \<open>LogWriter\<close>, \<open>LogReader\<close> (\<open>db/log_writer.cc\<close>, \<open>db/log_reader.cc\<close>): records over files; round trip,
    every prefix of a log gives its complete records, and reading ends on every file.
  \<^item> \<open>WriteBatch\<close>, \<open>RandomGen\<close>, \<open>SkipList\<close>, \<open>MemTable\<close>, \<open>Arena\<close> (\<open>db/write_batch.cc\<close>, \<open>util/random.h\<close>,
    \<open>db/skiplist.h\<close>, \<open>db/memtable.cc\<close>, \<open>util/arena.cc\<close>): batches, the list as nodes with links and the
    insertion as its single stores, so that a reader between any two of them sees a well-formed
    list; a memtable lookup returns the newest visible operation.
  \<^item> \<open>VersionEdit\<close> (\<open>db/version_edit.cc\<close>): the encoding of edits with all error messages.
  \<^item> \<open>Iterators\<close>, \<open>Block\<close>, \<open>TableFormat\<close>, \<open>Table\<close> (\<open>table/\<close>): the iterator interface as a record of methods
    with the locale \<open>db_iterator\<close> for its contract, blocks, handles and footers, and tables.

  \<^bold>\<open>Fuel and termination.\<close> Loops are structural recursions or carry a termination proof. Loops that need
  not end (walks along links, the log reader on any file, block iterators on corrupt data) are
  \<open>partial_function (option)\<close>, and that they return is part of the theorems about them.

  \<^bold>\<open>Not modelled.\<close> The database implementation, compaction, the table cache and the version set are not
  part of the development yet; threads and locks, the operating system environment, clocks and
  statistics, the C interface, the command line programs and tests are outside its scope.
\<close>

end
